(* ===== verification/Prelude.thy ===== *)
theory Prelude
  imports Main "HOL-Library.List_Lexorder" "HOL-Library.Char_ord" "HOL-Library.AList"
begin

text \<open>
  Shared vocabulary of the development: the exceptions of the program and the result type,
  sequencing of fallible computations, transactional state passing, Python dictionaries
  (insertion-ordered association lists), Python sets of strings (lists read through
  \<^term>\<open>set\<close>), decimal and \<open>repr\<close> formatting of the messages, and the worklist
  searches several components run.
\<close>

section \<open>Collections of facts\<close>

named_theorems result_simps \<open>case analysis of results\<close>
named_theorems dict_simps \<open>lookup after insertion and deletion\<close>

section \<open>Exceptions and results\<close>

text \<open>
  \<open>CyranoError code message\<close> is the program's own exception
  (\<open>contracts/types.py\<close>); \<open>PyError kind\<close> is an exception the Python runtime raises
  (\<open>KeyError\<close>, \<open>ValueError\<close>, \<open>TimeoutError\<close>, \<dots>).
\<close>

datatype exn = CyranoError (err_code: string) (err_message: string) | PyError (err_kind: string)

type_synonym 'a result = "exn + 'a"

text \<open>\<open>str(exc)\<close> of a \<open>CyranoError\<close>: the constructor formats code and message.\<close>

definition exn_str :: "exn \<Rightarrow> string" where
  "exn_str e = (case e of CyranoError c m \<Rightarrow> c @ '': '' @ m | PyError k \<Rightarrow> k)"

abbreviation Ok :: "'a \<Rightarrow> 'a result" where "Ok \<equiv> Inr"

definition raise :: "string \<Rightarrow> string \<Rightarrow> 'a result" where
  "raise c m = Inl (CyranoError c m)"

definition rbind :: "'a result \<Rightarrow> ('a \<Rightarrow> 'b result) \<Rightarrow> 'b result" where
  "rbind r f = (case r of Inl e \<Rightarrow> Inl e | Inr x \<Rightarrow> f x)"

definition fails_with :: "string \<Rightarrow> 'a result \<Rightarrow> bool" where
  "fails_with c r = (case r of Inl (CyranoError c' m) \<Rightarrow> c = c' | _ \<Rightarrow> False)"

definition succeeds :: "'a result \<Rightarrow> bool" where
  "succeeds r = (case r of Inl e \<Rightarrow> False | Inr x \<Rightarrow> True)"

lemma rbind_simps [simp, result_simps]:
  "rbind (Inr x) f = f x" "rbind (Inl e) f = Inl e"
  by (simp_all add: rbind_def)

lemma rbind_raise [simp, result_simps]: "rbind (raise c m) f = raise c m"
  by (simp add: raise_def)

lemma raise_neq_Ok [simp, result_simps]: "raise c m \<noteq> Inr x" "Inr x \<noteq> raise c m"
  by (simp_all add: raise_def)

lemma raise_eq_iff [simp, result_simps]:
  "raise c m = raise c' m' \<longleftrightarrow> c = c' \<and> m = m'"
  by (simp add: raise_def)

lemma rbind_eq_Ok_iff [result_simps]: "rbind r f = Inr y \<longleftrightarrow> (\<exists>x. r = Inr x \<and> f x = Inr y)"
  by (cases r) auto

lemma rbind_eq_err_iff [result_simps]:
  "rbind r f = Inl e \<longleftrightarrow> r = Inl e \<or> (\<exists>x. r = Inr x \<and> f x = Inl e)"
  by (cases r) auto

lemma rbind_split:
  "P (rbind r f) \<longleftrightarrow> (\<forall>e. r = Inl e \<longrightarrow> P (Inl e)) \<and> (\<forall>x. r = Inr x \<longrightarrow> P (f x))"
  by (cases r) auto

lemma fails_with_simps [simp, result_simps]:
  "fails_with c (raise c' m) \<longleftrightarrow> c = c'"
  "fails_with c (Inr x) \<longleftrightarrow> False"
  "fails_with c (Inl (CyranoError c' m)) \<longleftrightarrow> c = c'"
  "fails_with c (Inl (PyError k)) \<longleftrightarrow> False"
  by (simp_all add: fails_with_def raise_def)

lemma succeeds_simps [simp, result_simps]:
  "succeeds (Inr x)" "\<not> succeeds (Inl e)" "\<not> succeeds (raise c m)"
  by (simp_all add: succeeds_def raise_def)

lemma succeeds_iff: "succeeds r \<longleftrightarrow> (\<exists>x. r = Inr x)"
  by (cases r) auto

lemma result_caseD: "(case r of Inl e \<Rightarrow> False | Inr x \<Rightarrow> P x) \<Longrightarrow> \<exists>x. r = Inr x \<and> P x"
  by (cases r) auto

lemma fails_with_not_Ok: "fails_with c r \<Longrightarrow> r \<noteq> Inr x"
  by (cases r) auto

text \<open>A loop that stops at the first exception: \<open>for x in xs: body(x)\<close>.\<close>

fun for_each :: "('a \<Rightarrow> unit result) \<Rightarrow> 'a list \<Rightarrow> unit result" where
  "for_each body [] = Ok ()"
| "for_each body (x # xs) = rbind (body x) (\<lambda>_. for_each body xs)"

lemma for_each_Ok_iff: "for_each body xs = Inr () \<longleftrightarrow> (\<forall>x \<in> set xs. body x = Inr ())"
  by (induction xs) (auto simp: rbind_eq_Ok_iff)

lemma for_each_err:
  "for_each body xs = Inl e \<Longrightarrow>
     \<exists>ys x zs. xs = ys @ x # zs \<and> (\<forall>y \<in> set ys. body y = Inr ()) \<and> body x = Inl e"
proof (induction xs)
  case Nil
  then show ?case by simp
next
  case (Cons a xs)
  show ?case
  proof (cases "body a")
    case (Inl e')
    with Cons.prems have "body a = Inl e" by simp
    then have "a # xs = [] @ a # xs \<and> (\<forall>y \<in> set []. body y = Inr ()) \<and> body a = Inl e" by simp
    then show ?thesis by blast
  next
    case (Inr u)
    with Cons.prems have "for_each body xs = Inl e" by simp
    from Cons.IH [OF this] obtain ys x zs where
      "xs = ys @ x # zs" "\<forall>y \<in> set ys. body y = Inr ()" "body x = Inl e" by blast
    with Inr have "a # xs = (a # ys) @ x # zs \<and> (\<forall>y \<in> set (a # ys). body y = Inr ()) \<and> body x = Inl e"
      by simp
    then show ?thesis by blast
  qed
qed

lemma find_Some_in: "List.find P xs = Some x \<Longrightarrow> x \<in> set xs \<and> P x"
  by (auto simp: find_Some_iff)

lemma filter_single: "filter P xs = [t] \<Longrightarrow> t \<in> set xs \<and> P t"
proof -
  assume "filter P xs = [t]"
  then have "t \<in> set (filter P xs)" by simp
  then show ?thesis by simp
qed

lemma for_each_errD: "for_each body xs = Inl e \<Longrightarrow> \<exists>x \<in> set xs. body x = Inl e"
  using for_each_err by fastforce

section \<open>State passing and transactions\<close>

text \<open>
  A method of a stateful object takes the state and returns its result with the new state; an
  exception keeps what was written before it. Inside \<open>with repo.transaction()\<close> an exception
  rolls every write of the block back: \<open>tx\<close> restores the state the block started in.
\<close>

type_synonym ('s, 'a) op = "'s \<Rightarrow> 'a result \<times> 's"

definition tx :: "('s, 'a) op \<Rightarrow> ('s, 'a) op" where
  "tx body s = (case body s of (Inl e, s') \<Rightarrow> (Inl e, s) | (Inr x, s') \<Rightarrow> (Inr x, s'))"

lemma tx_err_unchanged: "tx body s = (Inl e, s') \<Longrightarrow> s' = s"
  by (auto simp: tx_def split: prod.splits sum.splits)

lemma tx_Ok_iff: "tx body s = (Inr x, s') \<longleftrightarrow> body s = (Inr x, s')"
  by (auto simp: tx_def split: prod.splits sum.splits)

lemma tx_simps [simp]:
  "body s = (Inr x, s') \<Longrightarrow> tx body s = (Inr x, s')"
  "body s = (Inl e, s') \<Longrightarrow> tx body s = (Inl e, s)"
  by (simp_all add: tx_def)

text \<open>
  Calls in sequence: an exception stops the sequence and keeps the state reached. \<open>moves R m\<close>: the
  state after a call stands in the relation \<open>R\<close> to the state before it, whether it returns or fails.
\<close>

definition obind :: "('s, 'a) op \<Rightarrow> ('a \<Rightarrow> ('s, 'b) op) \<Rightarrow> ('s, 'b) op" where
  "obind m f s = (case m s of (Inl e, s') \<Rightarrow> (Inl e, s') | (Inr x, s') \<Rightarrow> f x s')"

definition oret :: "'a \<Rightarrow> ('s, 'a) op" where "oret x s = (Ok x, s)"

definition olift :: "'a result \<Rightarrow> ('s, 'a) op" where "olift r s = (r, s)"

definition oget :: "('s, 's) op" where "oget s = (Ok s, s)"

definition oput :: "('s \<Rightarrow> 's) \<Rightarrow> ('s, unit) op" where "oput f s = (Ok (), f s)"

definition moves :: "('s \<Rightarrow> 's \<Rightarrow> bool) \<Rightarrow> ('s, 'a) op \<Rightarrow> bool" where
  "moves R m \<longleftrightarrow> (\<forall>s. R s (snd (m s)))"

lemma obind_simps [simp]:
  "obind (oret x) f s = f x s" "obind (olift (Inr x)) f s = f x s" "obind (olift (Inl e)) f s = (Inl e, s)"
  "obind (olift (raise c msg)) f s = (raise c msg, s)"
  "obind oget f s = f s s" "obind (oput g) h s = h () (g s)"
  by (simp_all add: obind_def oret_def olift_def oget_def oput_def raise_def)

lemma obind_run:
  "obind (oret x) f s = f x s" "obind (olift (Inr y)) g s = g y s" "obind (olift (Inl e)) h s = (Inl e, s)"
  "obind oget k s = k s s" "obind (oput p) l s = l () (p s)"
  by (simp_all add: obind_def oret_def olift_def oget_def oput_def)

lemma op_simps [simp]:
  "oret x s = (Inr x, s)" "olift r s = (r, s)" "oget s = (Inr s, s)" "oput f s = (Inr (), f s)"
  by (simp_all add: oret_def olift_def oget_def oput_def)

lemma obind_Ok_iff [result_simps]:
  "obind m f s = (Inr y, t) \<longleftrightarrow> (\<exists>x u. m s = (Inr x, u) \<and> f x u = (Inr y, t))"
  by (auto simp: obind_def split: prod.splits sum.splits)

lemma obind_err_iff [result_simps]:
  "obind m f s = (Inl e, t) \<longleftrightarrow> m s = (Inl e, t) \<or> (\<exists>x u. m s = (Inr x, u) \<and> f x u = (Inl e, t))"
  by (auto simp: obind_def split: prod.splits sum.splits)

lemma moves_obind:
  assumes "transp R" "moves R m" "\<And>x. moves R (f x)"
  shows "moves R (obind m f)"
proof (unfold moves_def, intro allI)
  fix s
  obtain r u where m: "m s = (r, u)" by (cases "m s")
  then have "R s u" using assms(2) by (metis moves_def snd_conv)
  moreover have "R u (snd (f x u))" for x using assms(3) by (simp add: moves_def)
  ultimately show "R s (snd (obind m f s))"
    using m assms(1) by (cases r) (auto simp: obind_def dest: transpD)
qed

lemma moves_if: "moves R m \<Longrightarrow> moves R n \<Longrightarrow> moves R (if P then m else n)"
  by simp

lemma moves_option: "moves R m \<Longrightarrow> (\<And>x. moves R (f x)) \<Longrightarrow> moves R (case v of None \<Rightarrow> m | Some x \<Rightarrow> f x)"
  by (cases v) auto

lemma moves_pure [intro]: "reflp R \<Longrightarrow> moves R (oret x)" "reflp R \<Longrightarrow> moves R (olift r)" "reflp R \<Longrightarrow> moves R oget"
  by (auto simp: moves_def reflp_def)

lemma movesD: "moves R m \<Longrightarrow> m s = (r, s') \<Longrightarrow> R s s'"
  by (metis moves_def snd_conv)

lemma raise_case [simp, result_simps]: "case_sum f g (raise c m) = f (CyranoError c m)"
  by (simp add: raise_def)

section \<open>Dictionaries\<close>

text \<open>
  A \<open>dict\<close> iterates in insertion order and an assignment to an existing key keeps its place,
  which is what \<^const>\<open>AList.update\<close> does; \<open>d.get(k)\<close> is \<^const>\<open>map_of\<close>.
\<close>

type_synonym ('k, 'v) dict = "('k \<times> 'v) list"

abbreviation dict_get :: "('k, 'v) dict \<Rightarrow> 'k \<Rightarrow> 'v option" where
  "dict_get d k \<equiv> map_of d k"

abbreviation dict_set :: "'k \<Rightarrow> 'v \<Rightarrow> ('k, 'v) dict \<Rightarrow> ('k, 'v) dict" where
  "dict_set k v d \<equiv> AList.update k v d"

abbreviation dict_del :: "'k \<Rightarrow> ('k, 'v) dict \<Rightarrow> ('k, 'v) dict" where
  "dict_del k d \<equiv> AList.delete k d"

abbreviation dict_keys :: "('k, 'v) dict \<Rightarrow> 'k list" where
  "dict_keys d \<equiv> map fst d"

abbreviation dict_wf :: "('k, 'v) dict \<Rightarrow> bool" where
  "dict_wf d \<equiv> distinct (map fst d)"

lemma dict_get_set [simp, dict_simps]:
  "dict_get (dict_set k v d) k' = (if k' = k then Some v else dict_get d k')"
  by (simp add: update_conv')

lemma dict_get_del [simp, dict_simps]:
  "dict_get (dict_del k d) k' = (if k' = k then None else dict_get d k')"
  by (simp add: delete_conv')

lemma dict_wf_set [simp, intro]: "dict_wf d \<Longrightarrow> dict_wf (dict_set k v d)"
  by (simp add: distinct_update)

lemma dict_wf_del [simp, intro]: "dict_wf d \<Longrightarrow> dict_wf (dict_del k d)"
  by (simp add: distinct_delete)

lemma set_dict_keys_set [simp, dict_simps]:
  "set (dict_keys (dict_set k v d)) = insert k (set (dict_keys d))"
  by (simp add: dom_update)

lemma dict_get_None_iff: "dict_get d k = None \<longleftrightarrow> k \<notin> set (dict_keys d)"
  by (simp add: map_of_eq_None_iff)

lemma dict_get_Some_in: "dict_get d k = Some v \<Longrightarrow> (k, v) \<in> set d"
  by (rule map_of_SomeD)

lemma dict_get_iff_in: "dict_wf d \<Longrightarrow> dict_get d k = Some v \<longleftrightarrow> (k, v) \<in> set d"
  by (simp add: map_of_eq_Some_iff)

lemma in_dict_set:
  "dict_wf d \<Longrightarrow> (k', v') \<in> set (dict_set k v d) \<longleftrightarrow>
     (if k' = k then v' = v else (k', v') \<in> set d)"
  using dict_get_iff_in [OF dict_wf_set, of d k v k' v'] dict_get_iff_in [of d k' v'] by auto

lemma in_dict_del:
  "(k', v') \<in> set (dict_del k d) \<longleftrightarrow> k' \<noteq> k \<and> (k', v') \<in> set d"
  by (auto simp: AList.delete_eq)

text \<open>\<open>{f(x): x for x in xs}\<close>: a later element overwrites an earlier one with its key.\<close>

definition index_by :: "('a \<Rightarrow> 'k) \<Rightarrow> 'a list \<Rightarrow> ('k, 'a) dict" where
  "index_by f xs = fold (\<lambda>x d. dict_set (f x) x d) xs []"

lemma fold_set_wf: "dict_wf d \<Longrightarrow> dict_wf (fold (\<lambda>x d. dict_set (f x) (g x) d) xs d)"
  by (induction xs arbitrary: d) (simp_all add: distinct_update)

lemma index_by_wf [simp, intro]: "dict_wf (index_by f xs)"
  by (simp add: index_by_def fold_set_wf)

lemma fold_set_keys:
  "set (dict_keys (fold (\<lambda>x d. dict_set (f x) (g x) d) xs d)) = set (dict_keys d) \<union> f ` set xs"
  by (induction xs arbitrary: d) (auto simp: dom_update)

lemma index_by_keys [simp]: "set (dict_keys (index_by f xs)) = f ` set xs"
  unfolding index_by_def by (subst fold_set_keys) simp

lemma fold_set_get_in:
  "dict_get (fold (\<lambda>x d. dict_set (f x) x d) xs d) k = Some y \<Longrightarrow>
     (y \<in> set xs \<and> f y = k) \<or> dict_get d k = Some y"
  by (induction xs arbitrary: d) (fastforce split: if_splits)+

lemma index_by_get_in: "dict_get (index_by f xs) k = Some x \<Longrightarrow> x \<in> set xs \<and> f x = k"
  unfolding index_by_def by (drule fold_set_get_in) simp

lemma index_by_distinct_get:
  assumes "distinct (map f xs)" and "x \<in> set xs"
  shows "dict_get (index_by f xs) (f x) = Some x"
proof -
  have "f x \<in> set (dict_keys (index_by f xs))" using assms(2) by (simp del: set_map)
  then obtain y where y: "dict_get (index_by f xs) (f x) = Some y"
    by (metis dict_get_None_iff not_Some_eq)
  from index_by_get_in [OF this] have "y \<in> set xs" "f y = f x" by auto
  with assms have "y = x" by (metis distinct_map inj_onD)
  with y show ?thesis by simp
qed

lemma length_update:
  "length (dict_set k v d) = (if k \<in> set (dict_keys d) then length d else Suc (length d))"
  by (induction d) auto

lemma length_index_by_le: "length (index_by f xs) \<le> length xs"
proof -
  have "length (fold (\<lambda>x d. dict_set (f x) x d) xs d) \<le> length d + length xs" for d
  proof (induction xs arbitrary: d)
    case (Cons x xs)
    have "length (dict_set (f x) x d) \<le> Suc (length d)" by (simp add: length_update)
    with Cons [of "dict_set (f x) x d"] show ?case by simp
  qed simp
  from this [of "[]"] show ?thesis by (simp add: index_by_def)
qed

lemma dict_set_new: "k \<notin> set (dict_keys d) \<Longrightarrow> dict_set k v d = d @ [(k, v)]"
  by (induction d) auto

lemma index_by_distinct_id:
  assumes "distinct (map f xs)"
  shows "index_by f xs = map (\<lambda>x. (f x, x)) xs"
proof -
  have step: "fold (\<lambda>x d. dict_set (f x) x d) xs d = d @ map (\<lambda>x. (f x, x)) xs"
    if "distinct (map f xs)" "f ` set xs \<inter> set (dict_keys d) = {}" for d
    using that
  proof (induction xs arbitrary: d)
    case (Cons x xs)
    have "f x \<notin> set (dict_keys d)" using Cons.prems by auto
    then have "dict_set (f x) x d = d @ [(f x, x)]" by (rule dict_set_new)
    moreover have "f ` set xs \<inter> set (dict_keys (d @ [(f x, x)])) = {}" using Cons.prems by auto
    ultimately show ?case using Cons.IH [of "d @ [(f x, x)]"] Cons.prems by simp
  qed simp
  from step [of "[]"] assms show ?thesis by (simp add: index_by_def)
qed

lemma length_index_by_iff: "length (index_by f xs) = length xs \<longleftrightarrow> distinct (map f xs)"
proof
  assume "length (index_by f xs) = length xs"
  moreover have "card (set (dict_keys (index_by f xs))) = length (dict_keys (index_by f xs))"
    by (rule distinct_card) simp
  then have "length (index_by f xs) = card (f ` set xs)"
    by (simp only: index_by_keys length_map)
  ultimately show "distinct (map f xs)"
    by (metis card_distinct length_map list.set_map)
qed (simp add: index_by_distinct_id)

section \<open>Sets of strings\<close>

text \<open>
  A set whose iteration order the program fixes by \<open>sorted\<close> is a list read through
  \<^term>\<open>set\<close>; strings are ordered by code point.
\<close>

definition sorted_set :: "'a::linorder list \<Rightarrow> 'a list" where
  "sorted_set xs = sort (remdups xs)"

lemma set_sorted_set [simp]: "set (sorted_set xs) = set xs"
  by (simp add: sorted_set_def)

lemma sorted_sorted_set [simp]: "sorted (sorted_set xs)"
  by (simp add: sorted_set_def)

lemma distinct_sorted_set [simp]: "distinct (sorted_set xs)"
  by (simp add: sorted_set_def)

lemma sorted_set_cong: "set xs = set ys \<Longrightarrow> sorted_set xs = sorted_set ys"
  by (intro sorted_distinct_set_unique) auto

lemma sorted_set_Nil_iff [simp]: "sorted_set xs = [] \<longleftrightarrow> xs = []"
  by (metis set_empty set_sorted_set)

definition subset_list :: "'a list \<Rightarrow> 'a list \<Rightarrow> bool" where
  "subset_list xs ys = list_all (\<lambda>x. x \<in> set ys) xs"

definition disjoint_list :: "'a list \<Rightarrow> 'a list \<Rightarrow> bool" where
  "disjoint_list xs ys = list_all (\<lambda>x. x \<notin> set ys) xs"

definition minus_list :: "'a list \<Rightarrow> 'a list \<Rightarrow> 'a list" where
  "minus_list xs ys = [x \<leftarrow> xs. x \<notin> set ys]"

lemma subset_list_iff [simp]: "subset_list xs ys \<longleftrightarrow> set xs \<subseteq> set ys"
  by (auto simp: subset_list_def list_all_iff)

lemma disjoint_list_iff [simp]: "disjoint_list xs ys \<longleftrightarrow> set xs \<inter> set ys = {}"
  by (auto simp: disjoint_list_def list_all_iff)

lemma set_minus_list [simp]: "set (minus_list xs ys) = set xs - set ys"
  by (auto simp: minus_list_def)

lemma minus_list_Nil_iff [simp]: "minus_list xs ys = [] \<longleftrightarrow> set xs \<subseteq> set ys"
  by (auto simp: minus_list_def filter_empty_conv)

end
