(* ===== verification/PyText.thy ===== *)
theory PyText
  imports Prelude
begin

text \<open>
  The text operations the program uses: \<open>str(int)\<close>, \<open>repr\<close> of strings and of sorted
  lists of strings (for the messages), \<open>str.split\<close>, \<open>str.join\<close>, \<open>str.lower\<close>, and the
  parts of \<open>PurePosixPath\<close> its path checks look at. A \<^typ>\<open>string\<close> is a Python
  \<open>str\<close> of code points up to U+00FF, or a \<open>bytes\<close> value.
\<close>

section \<open>Decimal numbers\<close>

definition digit :: "nat \<Rightarrow> char" where
  "digit n = char_of (48 + n)"

fun digits_of :: "nat \<Rightarrow> string" where
  "digits_of n = (if n < 10 then [digit n] else digits_of (n div 10) @ [digit (n mod 10)])"

declare digits_of.simps [simp del]

definition str_int :: "int \<Rightarrow> string" where
  "str_int i = (if i < 0 then CHR ''-'' # digits_of (nat (- i)) else digits_of (nat i))"

definition is_digit :: "char \<Rightarrow> bool" where
  "is_digit c \<longleftrightarrow> 48 \<le> (of_char c :: nat) \<and> (of_char c :: nat) \<le> 57"

fun dec_value :: "nat \<Rightarrow> string \<Rightarrow> nat" where
  "dec_value a [] = a"
| "dec_value a (c # cs) = dec_value (10 * a + (of_char c - 48)) cs"

lemma of_char_digit: "n < 10 \<Longrightarrow> of_char (digit n) = (48 + n :: nat)"
  by (simp add: digit_def of_char_of)

lemma is_digit_digit: "n < 10 \<Longrightarrow> is_digit (digit n)"
  by (simp add: is_digit_def of_char_digit)

lemma dec_value_append: "dec_value a (xs @ ys) = dec_value (dec_value a xs) ys"
  by (induction xs arbitrary: a) auto

lemma dec_value_digits_of: "dec_value 0 (digits_of n) = n"
proof (induction n rule: digits_of.induct)
  case (1 n)
  show ?case
  proof (cases "n < 10")
    case True
    then show ?thesis by (subst digits_of.simps) (simp add: of_char_digit)
  next
    case False
    with "1.IH" show ?thesis
      by (subst digits_of.simps) (simp add: dec_value_append of_char_digit)
  qed
qed

lemma digits_of_digits: "\<forall>c \<in> set (digits_of n). is_digit c"
proof (induction n rule: digits_of.induct)
  case (1 n)
  then show ?case by (subst digits_of.simps) (auto simp: is_digit_digit)
qed

lemma digits_of_nonempty [simp]: "digits_of n \<noteq> []"
  by (subst digits_of.simps) simp

lemma digits_of_inj: "digits_of m = digits_of n \<longleftrightarrow> m = n"
  by (metis dec_value_digits_of)

lemma not_is_digit_minus: "\<not> is_digit (CHR ''-'')"
  by (simp add: is_digit_def)

lemma str_int_chars: "\<forall>c \<in> set (str_int i). is_digit c \<or> c = CHR ''-''"
  using digits_of_digits by (auto simp: str_int_def)

lemma hd_digits_of: "is_digit (hd (digits_of n))"
  using digits_of_digits [of n] by (simp add: hd_in_set)

lemma str_int_nonempty [simp]: "str_int i \<noteq> []"
  by (simp add: str_int_def)

lemma str_int_inj: "str_int i = str_int j \<longleftrightarrow> i = j"
proof
  assume eq: "str_int i = str_int j"
  have hd_nat: "hd (str_int k) = CHR ''-'' \<longleftrightarrow> k < 0" for k
    using hd_digits_of [of "nat k"] not_is_digit_minus by (auto simp: str_int_def)
  from eq hd_nat have "i < 0 \<longleftrightarrow> j < 0" by metis
  with eq show "i = j" by (auto simp: str_int_def digits_of_inj split: if_splits)
qed simp

section \<open>Splitting and joining\<close>

fun split_on :: "char \<Rightarrow> string \<Rightarrow> string list" where
  "split_on c [] = [[]]"
| "split_on c (x # xs) =
     (if x = c then [] # split_on c xs
      else (case split_on c xs of [] \<Rightarrow> [[x]] | w # ws \<Rightarrow> (x # w) # ws))"

fun py_join :: "string \<Rightarrow> string list \<Rightarrow> string" where
  "py_join sep [] = []"
| "py_join sep [w] = w"
| "py_join sep (w # v # ws) = w @ sep @ py_join sep (v # ws)"

lemma split_on_nonempty [simp]: "split_on c s \<noteq> []"
  by (induction s) (auto split: list.splits)

lemma split_on_no_sep: "w \<in> set (split_on c s) \<Longrightarrow> c \<notin> set w"
  by (induction s arbitrary: w) (auto split: list.splits if_splits)

lemma join_split: "py_join [c] (split_on c s) = s"
proof (induction s)
  case (Cons x xs)
  then show ?case
    by (cases "split_on c xs"; cases "tl (split_on c xs)") auto
qed simp

lemma split_no_sep: "c \<notin> set w \<Longrightarrow> split_on c w = [w]"
  by (induction w) auto

lemma split_append: "c \<notin> set w \<Longrightarrow> split_on c (w @ c # s) = w # split_on c s"
  by (induction w) auto

lemma split_join:
  "ws \<noteq> [] \<Longrightarrow> \<forall>w \<in> set ws. c \<notin> set w \<Longrightarrow> split_on c (py_join [c] ws) = ws"
  by (induction "[c]" ws rule: py_join.induct) (auto simp: split_no_sep split_append)

section \<open>Messages\<close>

definition hex_digit :: "nat \<Rightarrow> char" where
  "hex_digit n = (if n < 10 then char_of (48 + n) else char_of (87 + n))"

definition backslash :: char where "backslash = CHR 0x5C"

definition repr_char :: "char \<Rightarrow> char \<Rightarrow> string" where
  "repr_char q c =
     (let n = of_char c :: nat in
      if c = q \<or> c = backslash then [backslash, c]
      else if n = 10 then [backslash, CHR ''n'']
      else if n = 13 then [backslash, CHR ''r'']
      else if n = 9 then [backslash, CHR ''t'']
      else if n < 32 \<or> (127 \<le> n \<and> n \<le> 160) \<or> n = 173
        then [backslash, CHR ''x'', hex_digit (n div 16), hex_digit (n mod 16)]
      else [c])"

definition py_repr :: "string \<Rightarrow> string" where
  "py_repr s =
     (let q = (if CHR 0x27 \<in> set s \<and> CHR 0x22 \<notin> set s then CHR 0x22 else CHR 0x27)
      in [q] @ concat (map (repr_char q) s) @ [q])"

definition repr_list :: "string list \<Rightarrow> string" where
  "repr_list ss = ''['' @ py_join '', '' (map py_repr ss) @ '']''"

section \<open>Case folding\<close>

definition lower_char :: "char \<Rightarrow> char" where
  "lower_char c =
     (let n = of_char c :: nat in
      if (65 \<le> n \<and> n \<le> 90) \<or> (192 \<le> n \<and> n \<le> 222 \<and> n \<noteq> 215) then char_of (n + 32) else c)"

definition py_lower :: "string \<Rightarrow> string" where
  "py_lower s = map lower_char s"

section \<open>Pure POSIX paths\<close>

text \<open>
  \<open>PurePosixPath\<close> splits on \<open>/\<close> and drops empty and \<open>.\<close> components; one leading
  slash (or three and more) is the root \<open>/\<close>, exactly two are the root \<open>//\<close>.
\<close>

definition posix_root :: "string \<Rightarrow> string" where
  "posix_root p =
     (if take 1 p \<noteq> ''/'' then []
      else if take 2 p = ''//'' \<and> take 3 p \<noteq> ''///'' then ''//''
      else ''/'')"

definition posix_tail :: "string \<Rightarrow> string list" where
  "posix_tail p = [x \<leftarrow> split_on (CHR ''/'') p. x \<noteq> [] \<and> x \<noteq> ''.'']"

definition posix_parts :: "string \<Rightarrow> string list" where
  "posix_parts p = (if posix_root p = [] then posix_tail p else posix_root p # posix_tail p)"

definition posix_is_absolute :: "string \<Rightarrow> bool" where
  "posix_is_absolute p \<longleftrightarrow> posix_root p \<noteq> []"

definition posix_str :: "string \<Rightarrow> string" where
  "posix_str p =
     (if posix_root p = [] \<and> posix_tail p = [] then ''.''
      else posix_root p @ py_join ''/'' (posix_tail p))"

lemma posix_tail_clean:
  "w \<in> set (posix_tail p) \<Longrightarrow> w \<noteq> [] \<and> w \<noteq> ''.'' \<and> CHR ''/'' \<notin> set w"
  by (auto simp: posix_tail_def dest: split_on_no_sep)

lemma posix_root_rel: "\<not> posix_is_absolute p \<Longrightarrow> posix_parts p = posix_tail p"
  by (simp add: posix_is_absolute_def posix_parts_def)

lemma py_join_relative:
  assumes "ws \<noteq> []" "\<forall>w \<in> set ws. w \<noteq> [] \<and> CHR ''/'' \<notin> set w"
  shows "take 1 (py_join ''/'' ws) \<noteq> ''/''"
proof -
  obtain w vs where ws: "ws = w # vs" using assms(1) by (cases ws) auto
  with assms(2) have "w \<noteq> []" "CHR ''/'' \<notin> set w" by auto
  then obtain c cs where w: "w = c # cs" and "c \<noteq> CHR ''/''" by (cases w) auto
  then show ?thesis using ws by (cases vs) auto
qed

text \<open>The canonical spelling of a relative path names the same components, and is its own spelling.\<close>

lemma posix_tail_str:
  assumes "\<not> posix_is_absolute p"
  shows "posix_tail (posix_str p) = posix_tail p"
proof (cases "posix_tail p = []")
  case True
  with assms show ?thesis by (simp add: posix_str_def posix_is_absolute_def posix_tail_def)
next
  case False
  have clean: "\<forall>w \<in> set (posix_tail p). w \<noteq> [] \<and> w \<noteq> ''.'' \<and> CHR ''/'' \<notin> set w"
    by (blast dest: posix_tail_clean)
  have "split_on (CHR ''/'') (py_join ''/'' (posix_tail p)) = posix_tail p"
    using False clean by (intro split_join) auto
  moreover have "[x \<leftarrow> posix_tail p. x \<noteq> [] \<and> x \<noteq> ''.''] = posix_tail p"
    using clean by (intro filter_True) auto
  ultimately show ?thesis
    using False assms by (simp add: posix_str_def posix_is_absolute_def posix_tail_def [of "py_join _ _"])
qed

lemma posix_str_relative: "\<not> posix_is_absolute p \<Longrightarrow> \<not> posix_is_absolute (posix_str p)"
  using py_join_relative [of "posix_tail p"] posix_tail_clean [of _ p]
  by (auto simp: posix_is_absolute_def posix_str_def posix_root_def)

lemma posix_str_idem:
  assumes "\<not> posix_is_absolute p"
  shows "posix_str (posix_str p) = posix_str p"
proof -
  from assms have r: "posix_root p = []" "posix_root (posix_str p) = []"
    using posix_str_relative by (auto simp: posix_is_absolute_def)
  have "posix_tail (posix_str p) = posix_tail p" using assms by (rule posix_tail_str)
  with r show ?thesis
    by (subst posix_str_def) (simp, simp add: posix_str_def)
qed

end
