(* ===== verification/Canonical.thy ===== *)
theory Canonical
  imports PyText
begin

text \<open>
  \<open>contracts/canonical.py\<close>: the CYRANO-C14N-1 encoding every digest of the program is
  computed over. \<open>pyobj\<close> is the Python value a caller passes, \<open>json\<close> the \<open>JSON\<close> alias of
  the file (what \<open>_normalize\<close> returns). Unicode NFC and SHA-256 are parameters, gathered in
  \<open>hash_env\<close>; every theorem here holds for all of them. The main result is that the encoding
  is injective up to key order, so that two values with the same canonical bytes are the same
  document.
\<close>

section \<open>Values\<close>

datatype pykey = KStr string | KOther string

datatype pyobj =
    PNone
  | PBool bool
  | PInt int
  | PFloat string
  | PStr string
  | PList "pyobj list"
  | PTuple "pyobj list"
  | PDict "(pykey \<times> pyobj) list"
  | POther string

datatype json =
    CNull
  | CBool bool
  | CInt int
  | CStr string
  | CList "json list"
  | CDict "(string \<times> json) list"

record hash_env =
  nfc :: "string \<Rightarrow> string"
  sha256_hex :: "string \<Rightarrow> string"

section \<open>Normalization\<close>

text \<open>\<open>value.replace("\r\n", "\n")\<close>\<close>

fun crlf :: "string \<Rightarrow> string" where
  "crlf [] = []"
| "crlf [c] = [c]"
| "crlf (c # d # cs) =
     (if c = CHR 0x0D \<and> d = CHR 0x0A then CHR 0x0A # crlf cs else c # crlf (d # cs))"

definition max_safe_int :: int where
  "max_safe_int = 2 ^ 53 - 1"

fun normalize :: "hash_env \<Rightarrow> pyobj \<Rightarrow> json result"
  and normalize_list :: "hash_env \<Rightarrow> pyobj list \<Rightarrow> json list result"
  and normalize_items ::
    "hash_env \<Rightarrow> (string \<times> json) list \<Rightarrow> (pykey \<times> pyobj) list \<Rightarrow> (string \<times> json) list result"
where
  "normalize H PNone = Ok CNull"
| "normalize H (PBool b) = Ok (CBool b)"
| "normalize H (PInt i) =
     (if \<bar>i\<bar> > max_safe_int
      then raise ''CANONICAL_RANGE'' ''integer exceeds interoperable range''
      else Ok (CInt i))"
| "normalize H (PStr s) = Ok (CStr (nfc H (crlf s)))"
| "normalize H (PList xs) = rbind (normalize_list H xs) (\<lambda>js. Ok (CList js))"
| "normalize H (PDict kvs) = rbind (normalize_items H [] kvs) (\<lambda>items. Ok (CDict items))"
| "normalize H (PFloat r) =
     raise ''CANONICAL_TYPE'' ''use decimal strings, not float or custom objects''"
| "normalize H (PTuple xs) =
     raise ''CANONICAL_TYPE'' ''use decimal strings, not float or custom objects''"
| "normalize H (POther r) =
     raise ''CANONICAL_TYPE'' ''use decimal strings, not float or custom objects''"
| "normalize_list H [] = Ok []"
| "normalize_list H (x # xs) =
     rbind (normalize H x) (\<lambda>j. rbind (normalize_list H xs) (\<lambda>js. Ok (j # js)))"
| "normalize_items H res [] = Ok res"
| "normalize_items H res ((k, v) # kvs) =
     (case k of
        KOther r \<Rightarrow> raise ''CANONICAL_KEY'' ''JSON object keys must be strings''
      | KStr s \<Rightarrow>
          (let n = nfc H s in
           if n \<in> set (dict_keys res)
           then raise ''CANONICAL_COLLISION'' ''normalized key collision''
           else rbind (normalize H v) (\<lambda>j. normalize_items H (dict_set n j res) kvs)))"

section \<open>Encoding\<close>

text \<open>\<open>json.dumps(..., ensure_ascii=False, sort_keys=True, separators=(",", ":"))\<close>\<close>

definition esc_char :: "char \<Rightarrow> string" where
  "esc_char c =
     (let n = of_char c :: nat in
      if c = CHR 0x22 \<or> c = backslash then [backslash, c]
      else if n = 10 then [backslash, CHR ''n'']
      else if n = 13 then [backslash, CHR ''r'']
      else if n = 9 then [backslash, CHR ''t'']
      else if n = 8 then [backslash, CHR ''b'']
      else if n = 12 then [backslash, CHR ''f'']
      else if n < 32 then backslash # ''u00'' @ [hex_digit (n div 16), hex_digit (n mod 16)]
      else [c])"

definition quote :: "string \<Rightarrow> string" where
  "quote s = CHR 0x22 # concat (map esc_char s) @ [CHR 0x22]"

fun sort_json :: "json \<Rightarrow> json" where
  "sort_json (CList xs) = CList (map sort_json xs)"
| "sort_json (CDict kvs) = CDict (sort_key fst (map (\<lambda>(k, v). (k, sort_json v)) kvs))"
| "sort_json j = j"

fun emit :: "json \<Rightarrow> string" where
  "emit CNull = ''null''"
| "emit (CBool b) = (if b then ''true'' else ''false'')"
| "emit (CInt i) = str_int i"
| "emit (CStr s) = quote s"
| "emit (CList xs) = ''['' @ py_join '','' (map emit xs) @ '']''"
| "emit (CDict kvs) = CHR 0x7B # py_join '','' (map (\<lambda>(k, v). quote k @ '':'' @ emit v) kvs) @ [CHR 0x7D]"

definition dumps :: "json \<Rightarrow> string" where
  "dumps j = emit (sort_json j)"

definition utf8_char :: "char \<Rightarrow> string" where
  "utf8_char c =
     (let n = of_char c :: nat in
      if n < 128 then [c] else [char_of (192 + n div 64), char_of (128 + n mod 64)])"

definition utf8 :: "string \<Rightarrow> string" where
  "utf8 s = concat (map utf8_char s)"

definition canonical_bytes :: "hash_env \<Rightarrow> pyobj \<Rightarrow> string result" where
  "canonical_bytes H v = rbind (normalize H v) (\<lambda>j. Ok (utf8 (dumps j)))"

definition c14n_prefix :: string where
  "c14n_prefix = ''CYRANO-C14N-1'' @ [CHR 0x00]"

definition digest :: "hash_env \<Rightarrow> pyobj \<Rightarrow> string result" where
  "digest H v =
     rbind (canonical_bytes H v) (\<lambda>b. Ok (''sha256:'' @ sha256_hex H (c14n_prefix @ b)))"

definition raw_digest :: "hash_env \<Rightarrow> string \<Rightarrow> string" where
  "raw_digest H data = ''sha256:'' @ sha256_hex H data"

section \<open>Prefix codes\<close>

text \<open>
  A character encoding is a prefix code when the code of a character can be cut off the front
  of a string in one way only; concatenating codes is then injective.
\<close>

locale prefix_code =
  fixes enc :: "char \<Rightarrow> string"
  assumes enc_nonempty: "enc c \<noteq> []"
    and enc_cut: "enc c @ x = enc d @ y \<Longrightarrow> c = d"
begin

lemma enc_cut_rest: "enc c @ x = enc d @ y \<Longrightarrow> c = d \<and> x = y"
  using enc_cut by blast

lemma concat_inj: "concat (map enc s) = concat (map enc t) \<Longrightarrow> s = t"
proof (induction s arbitrary: t)
  case Nil
  then show ?case using enc_nonempty by (cases t) auto
next
  case (Cons c s)
  then obtain d u where t: "t = d # u" using enc_nonempty by (cases t) auto
  with Cons.prems have "enc c @ concat (map enc s) = enc d @ concat (map enc u)" by simp
  with enc_cut_rest have "c = d" "concat (map enc s) = concat (map enc u)" by blast+
  with Cons.IH t show ?case by simp
qed

lemma concat_cut:
  assumes stop: "\<And>c. hd (enc c) \<noteq> q"
  shows "concat (map enc s) @ q # x = concat (map enc t) @ q # y \<Longrightarrow> s = t \<and> x = y"
proof (induction s arbitrary: t)
  case Nil
  show ?case
  proof (cases t)
    case (Cons d u)
    with Nil have "hd (q # x) = hd (enc d @ concat (map enc u) @ q # y)" by simp
    with stop [of d] enc_nonempty [of d] show ?thesis by simp
  qed (use Nil in simp)
next
  case (Cons c s)
  show ?case
  proof (cases t)
    case Nil
    with Cons.prems have "hd (enc c @ concat (map enc s) @ q # x) = hd (q # y)" by simp
    with stop [of c] enc_nonempty [of c] show ?thesis by simp
  next
    case t: (Cons d u)
    with Cons.prems have
      "enc c @ (concat (map enc s) @ q # x) = enc d @ (concat (map enc u) @ q # y)" by simp
    with enc_cut_rest have "c = d" "concat (map enc s) @ q # x = concat (map enc u) @ q # y" by blast+
    with Cons.IH t show ?thesis by blast
  qed
qed

end

lemma hex_digit_inj: "m < 16 \<Longrightarrow> n < 16 \<Longrightarrow> hex_digit m = hex_digit n \<longleftrightarrow> m = n"
  by (auto simp: hex_digit_def char_of_eq_iff take_bit_eq_mod split: if_splits)

lemma of_char_bound: "(of_char c :: nat) < 256"
  using nat_of_char_less_256 by simp

lemma of_char_inj: "(of_char c :: nat) = of_char d \<longleftrightarrow> c = d"
  by simp


lemma less32_not_special:
  "of_char c < (32::nat) \<Longrightarrow> c \<noteq> CHR 0x22 \<and> c \<noteq> backslash"
  by (auto simp: backslash_def)

lemma hex2_inj:
  assumes "m < 256" "n < 256" "hex_digit (m div 16) = hex_digit (n div 16)"
    "hex_digit (m mod 16) = hex_digit (n mod 16)"
  shows "m = n"
proof -
  have "m div 16 = n div 16" "m mod 16 = n mod 16"
    using assms hex_digit_inj [of "m div 16" "n div 16"] hex_digit_inj [of "m mod 16" "n mod 16"] by auto
  then show ?thesis by (metis div_mult_mod_eq)
qed

text \<open>The second character of an escape tells which rule produced it.\<close>

lemma esc_char_alt:
  "esc_char c =
     (if c = CHR 0x22 then [backslash, CHR 0x22]
      else if c = backslash then [backslash, backslash]
      else if c = CHR 0x0A then [backslash, CHR ''n'']
      else if c = CHR 0x0D then [backslash, CHR ''r'']
      else if c = CHR 0x09 then [backslash, CHR ''t'']
      else if c = CHR 0x08 then [backslash, CHR ''b'']
      else if c = CHR 0x0C then [backslash, CHR ''f'']
      else if (of_char c :: nat) < 32
        then backslash # ''u00'' @ [hex_digit (of_char c div 16), hex_digit (of_char c mod 16)]
      else [c])"
proof -
  have "(of_char c :: nat) = 10 \<longleftrightarrow> c = CHR 0x0A" "(of_char c :: nat) = 13 \<longleftrightarrow> c = CHR 0x0D"
    "(of_char c :: nat) = 9 \<longleftrightarrow> c = CHR 0x09" "(of_char c :: nat) = 8 \<longleftrightarrow> c = CHR 0x08"
    "(of_char c :: nat) = 12 \<longleftrightarrow> c = CHR 0x0C"
    using of_char_inj [of c "CHR 0x0A"] of_char_inj [of c "CHR 0x0D"] of_char_inj [of c "CHR 0x09"]
      of_char_inj [of c "CHR 0x08"] of_char_inj [of c "CHR 0x0C"] by simp_all
  then show ?thesis by (auto simp: esc_char_def Let_def)
qed

lemma esc_char_cases:
  obtains (plain) "esc_char c = [c]" "c \<noteq> backslash" "c \<noteq> CHR 0x22"
  | (two) d where "esc_char c = [backslash, d]" "d \<noteq> CHR ''u''"
      "(c, d) \<in> {(CHR 0x22, CHR 0x22), (backslash, backslash), (CHR 0x0A, CHR ''n''), (CHR 0x0D, CHR ''r''),
         (CHR 0x09, CHR ''t''), (CHR 0x08, CHR ''b''), (CHR 0x0C, CHR ''f'')}"
  | (hex) "esc_char c = backslash # ''u00'' @ [hex_digit (of_char c div 16), hex_digit (of_char c mod 16)]"
proof -
  consider "c = CHR 0x22" | "c = backslash" | "c = CHR 0x0A" | "c = CHR 0x0D" | "c = CHR 0x09"
    | "c = CHR 0x08" | "c = CHR 0x0C"
    | "c \<notin> {CHR 0x22, backslash, CHR 0x0A, CHR 0x0D, CHR 0x09, CHR 0x08, CHR 0x0C}" by blast
  then show ?thesis
  proof cases
    case 8
    then show ?thesis
      by (cases "(of_char c :: nat) < 32") (auto intro: plain hex simp: esc_char_alt)
  qed (rule two, simp_all add: esc_char_alt backslash_def)+
qed

interpretation esc: prefix_code esc_char
proof
  fix c
  show "esc_char c \<noteq> []" by (cases c rule: esc_char_cases) simp_all
next
  fix c x d y
  assume eq: "esc_char c @ x = esc_char d @ y"
  show "c = d"
  proof (cases c rule: esc_char_cases)
    case plain
    with eq show ?thesis by (cases d rule: esc_char_cases) simp_all
  next
    case (two e)
    note c = this
    show ?thesis
    proof (cases d rule: esc_char_cases)
      case (two f)
      with c eq have "e = f" by simp
      with c two show ?thesis by (auto simp: backslash_def)
    qed (use c eq in \<open>simp_all add: backslash_def\<close>)
  next
    case hex
    note c = this
    show ?thesis
    proof (cases d rule: esc_char_cases)
      case hex
      with c eq hex2_inj [of "of_char c" "of_char d"] of_char_bound have "(of_char c :: nat) = of_char d" by simp
      then show ?thesis by simp
    qed (use c eq in \<open>simp_all add: backslash_def\<close>)
  qed
qed

interpretation utf: prefix_code utf8_char
proof
  fix c
  show "utf8_char c \<noteq> []" by (simp add: utf8_char_def Let_def)
next
  fix c x d y
  assume eq: "utf8_char c @ x = utf8_char d @ y"
  let ?c = "of_char c :: nat" and ?d = "of_char d :: nat"
  have bound: "?c < 256" "?d < 256" by (rule of_char_bound)+
  have code: "of_char (char_of (192 + n div 64) :: char) = 192 + n div 64"
     "of_char (char_of (128 + n mod 64) :: char) = 128 + n mod 64" if "n < 256" for n :: nat
    using that by (simp_all add: of_char_of)
  consider "?c < 128" "?d < 128" | "?c < 128" "\<not> ?d < 128" | "\<not> ?c < 128" "?d < 128"
    | "\<not> ?c < 128" "\<not> ?d < 128" by blast
  then have "?c = ?d"
  proof cases
    case 1
    with eq show ?thesis by (simp add: utf8_char_def)
  next
    case 2
    with eq have "c = char_of (192 + ?d div 64)" by (simp add: utf8_char_def Let_def)
    with 2 bound code(1) show ?thesis by simp
  next
    case 3
    with eq have "d = char_of (192 + ?c div 64)" by (simp add: utf8_char_def Let_def)
    with 3 bound code(1) show ?thesis by simp
  next
    case 4
    with eq have "(char_of (192 + ?c div 64) :: char) = char_of (192 + ?d div 64)"
      "(char_of (128 + ?c mod 64) :: char) = char_of (128 + ?d mod 64)"
      by (simp_all add: utf8_char_def Let_def)
    then have "192 + ?c div 64 = 192 + ?d div 64" "128 + ?c mod 64 = 128 + ?d mod 64"
      using bound code by metis+
    then show ?thesis by (metis add_left_cancel div_mult_mod_eq)
  qed
  then show "c = d" by simp
qed

lemma utf8_inj: "utf8 s = utf8 t \<longleftrightarrow> s = t"
  using utf.concat_inj by (auto simp: utf8_def)

lemma hd_esc_char: "hd (esc_char c) \<noteq> CHR 0x22"
  by (cases c rule: esc_char_cases) (simp_all add: backslash_def)

lemma quote_cut: "quote s @ x = quote t @ y \<Longrightarrow> s = t \<and> x = y"
  using esc.concat_cut [OF hd_esc_char, of s x t y] by (simp add: quote_def)


section \<open>The encoding is injective\<close>

text \<open>What can follow an encoded value inside an array or an object.\<close>

definition delim :: "string \<Rightarrow> bool" where
  "delim r \<longleftrightarrow> r = [] \<or> hd r \<in> {CHR '','', CHR '']'', CHR 0x7D}"

definition int_char :: "char \<Rightarrow> bool" where
  "int_char c \<longleftrightarrow> is_digit c \<or> c = CHR ''-''"

lemma delim_not_int_char: "delim (c # r) \<Longrightarrow> \<not> int_char c"
  by (auto simp: delim_def int_char_def is_digit_def)

lemma int_char_takeWhile: "delim r \<Longrightarrow> takeWhile int_char (str_int i @ r) = str_int i"
  using str_int_chars [of i] delim_not_int_char
  by (subst takeWhile_append2) (auto simp: int_char_def, cases r, auto simp: int_char_def)

lemma str_int_cut:
  assumes "str_int i @ x = str_int j @ y" "delim x" "delim y"
  shows "i = j \<and> x = y"
proof -
  from assms int_char_takeWhile have "str_int i = str_int j" by metis
  with assms(1) show ?thesis by (simp add: str_int_inj)
qed

text \<open>The first character of an encoded value tells its constructor.\<close>

definition head_class :: "json \<Rightarrow> nat" where
  "head_class j = (case j of CNull \<Rightarrow> 0 | CBool b \<Rightarrow> (if b then 1 else 2) | CInt i \<Rightarrow> 3
     | CStr s \<Rightarrow> 4 | CList xs \<Rightarrow> 5 | CDict kvs \<Rightarrow> 6)"

definition char_class :: "char \<Rightarrow> nat" where
  "char_class c =
     (if c = CHR ''n'' then 0 else if c = CHR ''t'' then 1 else if c = CHR ''f'' then 2
      else if int_char c then 3 else if c = CHR 0x22 then 4 else if c = CHR ''['' then 5
      else if c = CHR 0x7B then 6 else 7)"

lemma hd_str_int: "int_char (hd (str_int i))"
  using str_int_chars [of i] by (simp add: int_char_def hd_in_set)

lemma emit_nonempty [simp]: "emit j \<noteq> []"
  by (cases j) (auto simp: quote_def)

lemma char_class_int: "int_char c \<Longrightarrow> char_class c = 3"
  by (auto simp: char_class_def int_char_def is_digit_def)

lemma hd_emit: "char_class (hd (emit j)) = head_class j"
proof (cases j)
  case (CInt i)
  then show ?thesis using char_class_int [OF hd_str_int, of i] by (simp add: head_class_def)
qed (auto simp: head_class_def char_class_def int_char_def is_digit_def quote_def)

lemma head_class_bound: "head_class j < 7"
  by (cases j) (auto simp: head_class_def)

lemma emit_hd_neq: "char_class c = 7 \<Longrightarrow> emit j @ x \<noteq> c # y"
proof
  assume "char_class c = 7" "emit j @ x = c # y"
  then have "hd (emit j) = c" by (metis emit_nonempty hd_append2 list.sel(1))
  with \<open>char_class c = 7\<close> hd_emit [of j] head_class_bound [of j] show False by simp
qed

lemma class7: "char_class (CHR '']'') = 7" "char_class (CHR 0x7D) = 7" "char_class (CHR '','') = 7"
  by (simp_all add: char_class_def int_char_def is_digit_def)

lemma emit_head_class: "emit j @ x = emit k @ y \<Longrightarrow> head_class j = head_class k"
  by (metis emit_nonempty hd_append2 hd_emit)

text \<open>Separated sequences are cut by their elements, given a closing bracket that starts none of them.\<close>

lemma join_cut:
  assumes cut: "\<And>v w r s. v \<in> set vs \<Longrightarrow> f v @ r = f w @ s \<Longrightarrow> delim r \<Longrightarrow> delim s \<Longrightarrow> v = w \<and> r = s"
    and ne: "\<And>v r s. f v @ r \<noteq> q # s"
    and q: "delim [q]" "q \<noteq> CHR '',''"
    and eq: "py_join '','' (map f vs) @ q # x = py_join '','' (map f ws) @ q # y"
  shows "vs = ws \<and> x = y"
  using cut eq
proof (induction vs arbitrary: ws)
  case Nil
  show ?case
  proof (cases ws)
    case (Cons w ws')
    have "f w @ r \<noteq> q # x" for r by (rule ne)
    with Nil Cons show ?thesis by (cases ws') (auto dest: sym)
  qed (use Nil in simp)
next
  case (Cons v vs)
  have dq: "delim (q # z)" "delim (CHR '','' # z)" for z using q(1) by (auto simp: delim_def)
  obtain w ws' where ws: "ws = w # ws'"
    using Cons.prems(2) ne by (cases ws; cases vs) auto
  let ?rest = "\<lambda>us z. if us = [] then q # z else CHR '','' # py_join '','' (map f us) @ q # z"
  have "f v @ ?rest vs x = f w @ ?rest ws' y"
    using Cons.prems(2) ws by (cases vs; cases ws') simp_all
  then have "v = w \<and> ?rest vs x = ?rest ws' y"
    by (intro Cons.prems(1)) (simp_all add: dq)
  then have vw: "v = w" and rest: "?rest vs x = ?rest ws' y" by auto
  show ?case
  proof (cases "vs = []")
    case True
    with rest q(2) show ?thesis using vw ws by (auto split: if_splits)
  next
    case False
    with rest q(2) have "py_join '','' (map f vs) @ q # x = py_join '','' (map f ws') @ q # y"
      by (auto split: if_splits)
    from Cons.IH [OF _ this] Cons.prems(1) vw ws show ?thesis by auto
  qed
qed

lemma emit_cut: "emit j @ x = emit k @ y \<Longrightarrow> delim x \<Longrightarrow> delim y \<Longrightarrow> j = k \<and> x = y"
proof (induction j arbitrary: k x y)
  case CNull
  with emit_head_class [OF CNull(1)] show ?case by (cases k) (auto simp: head_class_def split: if_splits)
next
  case (CBool b)
  with emit_head_class [OF CBool(1)] show ?case by (cases k) (auto simp: head_class_def split: if_splits)
next
  case (CInt i)
  with emit_head_class [OF CInt(1)] show ?case
    by (cases k) (auto simp: head_class_def dest: str_int_cut split: if_splits)
next
  case (CStr s)
  with emit_head_class [OF CStr(1)] show ?case
    by (cases k) (auto simp: head_class_def dest: quote_cut split: if_splits)
next
  case (CList vs)
  from emit_head_class [OF CList(2)] obtain ws where k: "k = CList ws"
    by (cases k) (auto simp: head_class_def split: if_splits)
  with CList(2) have "py_join '','' (map emit vs) @ CHR '']'' # x = py_join '','' (map emit ws) @ CHR '']'' # y"
    by simp
  then have "vs = ws \<and> x = y"
  proof (rule join_cut [rotated -1])
    show "v = w \<and> r = s" if "v \<in> set vs" "emit v @ r = emit w @ s" "delim r" "delim s" for v w r s
      using CList(1) that by blast
  qed (use emit_hd_neq class7 in \<open>auto simp: delim_def\<close>)
  with k show ?case by simp
next
  case (CDict kvs)
  let ?f = "\<lambda>(k, v). quote k @ '':'' @ emit v"
  from emit_head_class [OF CDict(2)] obtain ws where k: "k = CDict ws"
    by (cases k) (auto simp: head_class_def split: if_splits)
  with CDict(2) have "py_join '','' (map ?f kvs) @ CHR 0x7D # x = py_join '','' (map ?f ws) @ CHR 0x7D # y"
    by simp
  then have "kvs = ws \<and> x = y"
  proof (rule join_cut [rotated -1])
    show "v = w \<and> r = s" if "v \<in> set kvs" "?f v @ r = ?f w @ s" "delim r" "delim s" for v w r s
    proof -
      obtain a b c d where vw: "v = (a, b)" "w = (c, d)" by (cases v; cases w)
      from that(2) vw have "quote a @ ('':'' @ emit b @ r) = quote c @ ('':'' @ emit d @ s)" by simp
      from quote_cut [OF this] have "a = c" "emit b @ r = emit d @ s" by simp_all
      moreover have "b \<in> Basic_BNFs.snds v" "v \<in> set kvs" using vw that(1) by auto
      ultimately show ?thesis using CDict(1) [of v b r d s] that(3,4) vw by auto
    qed
    show "?f v @ r \<noteq> CHR 0x7D # s" for v r s by (cases v) (simp add: quote_def)
  qed (auto simp: delim_def)
  with k show ?case by simp
qed

theorem emit_inj: "emit j = emit k \<longleftrightarrow> j = k"
proof
  assume "emit j = emit k"
  then have "emit j @ [] = emit k @ []" by simp
  from emit_cut [OF this] show "j = k" by (simp add: delim_def)
qed simp


section \<open>Documents up to key order\<close>

text \<open>
  What a normalized value means: a dictionary is the finite map from its keys to its values,
  whatever order they were inserted in (Python's \<open>==\<close> on dictionaries).
\<close>

datatype doc =
    DNull
  | DBool bool
  | DInt int
  | DStr string
  | DList "doc list"
  | DDict "string \<Rightarrow> doc option"

fun json_abs :: "json \<Rightarrow> doc" where
  "json_abs CNull = DNull"
| "json_abs (CBool b) = DBool b"
| "json_abs (CInt i) = DInt i"
| "json_abs (CStr s) = DStr s"
| "json_abs (CList xs) = DList (map json_abs xs)"
| "json_abs (CDict kvs) = DDict (map_of (map (\<lambda>(k, v). (k, json_abs v)) kvs))"

fun json_wf :: "json \<Rightarrow> bool" where
  "json_wf (CList xs) = (\<forall>x \<in> set xs. json_wf x)"
| "json_wf (CDict kvs) = (dict_wf kvs \<and> (\<forall>(k, v) \<in> set kvs. json_wf v))"
| "json_wf j = True"

fun json_bounded :: "json \<Rightarrow> bool" where
  "json_bounded (CList xs) = (\<forall>x \<in> set xs. json_bounded x)"
| "json_bounded (CDict kvs) = (\<forall>(k, v) \<in> set kvs. json_bounded v)"
| "json_bounded (CInt i) = (\<bar>i\<bar> \<le> max_safe_int)"
| "json_bounded j = True"

lemma normalize_wf_bounded:
  "normalize H v = Inr j \<Longrightarrow> json_wf j \<and> json_bounded j"
  "normalize_list H xs = Inr js \<Longrightarrow> (\<forall>x \<in> set js. json_wf x \<and> json_bounded x)"
  "normalize_items H res kvs = Inr items \<Longrightarrow>
     dict_wf res \<Longrightarrow> (\<forall>(k, v) \<in> set res. json_wf v \<and> json_bounded v) \<Longrightarrow>
     dict_wf items \<and> (\<forall>(k, v) \<in> set items. json_wf v \<and> json_bounded v)"
proof (induction H v and H xs and H res kvs arbitrary: j and js and items
    rule: normalize_normalize_list_normalize_items.induct)
  case (13 H res k v kvs)
  from "13.prems"(1) obtain s j where k: "k = KStr s" and new: "nfc H s \<notin> set (dict_keys res)"
    and v: "normalize H v = Inr j" and rest: "normalize_items H (dict_set (nfc H s) j res) kvs = Inr items"
    by (auto simp: Let_def rbind_eq_Ok_iff split: pykey.splits if_splits)
  have "json_wf j \<and> json_bounded j" using "13.IH"(1) k new v by auto
  then have "\<forall>(k, v) \<in> set (dict_set (nfc H s) j res). json_wf v \<and> json_bounded v"
    using "13.prems"(2,3) by (auto simp: in_dict_set split: if_splits)
  with "13.IH"(2) [OF k refl new rest] "13.prems"(2) show ?case by (simp add: distinct_update)
qed (auto simp: rbind_eq_Ok_iff split: if_splits)

lemma map_of_map_snd_eq:
  "map_of (map (\<lambda>(k, v). (k, f v)) kvs) = (\<lambda>k. map_option f (map_of kvs k))"
  by (induction kvs) auto

lemma dict_wf_sort_key: "dict_wf (sort_key fst kvs) \<longleftrightarrow> dict_wf kvs"
  by (simp add: distinct_map)

lemma map_of_sort_key: "dict_wf kvs \<Longrightarrow> map_of (sort_key fst kvs) = map_of kvs"
  by (rule map_of_inject_set [THEN iffD2]) (simp_all add: dict_wf_sort_key)

lemma fst_map_snd [simp]: "map (fst \<circ> (\<lambda>(k, v). (k, f v))) kvs = map fst kvs"
  by auto

lemma sorted_dict_eq:
  assumes "sorted (dict_keys a)" "sorted (dict_keys b)" "dict_wf a" "dict_wf b" "map_of a = map_of b"
  shows "a = b"
proof (rule map_sorted_distinct_set_unique [of fst])
  show ab: "set a = set b" using assms(3-5) by (simp add: map_of_inject_set)
  show "inj_on fst (set a \<union> set b)" using assms(3) ab by (simp add: distinct_map)
qed (use assms in \<open>auto simp: distinct_map\<close>)

lemma json_abs_sort: "json_wf j \<Longrightarrow> json_abs (sort_json j) = json_abs j"
proof (induction j)
  case (CDict kvs)
  let ?m = "map (\<lambda>(k, v). (k, sort_json v)) kvs"
  have wf: "dict_wf ?m" using CDict.prems by simp
  have "map_of (map (\<lambda>(k, v). (k, json_abs v)) (sort_key fst ?m)) =
      map_of (map (\<lambda>(k, v). (k, json_abs v)) ?m)"
    using wf by (simp only: map_of_map_snd_eq map_of_sort_key)
  also have "\<dots> = map_of (map (\<lambda>(k, v). (k, json_abs v)) kvs)"
    using CDict by (intro arg_cong [where f = map_of]) (auto simp: case_prod_beta)
  finally show ?case by simp
qed auto

lemma sort_json_wf: "json_wf j \<Longrightarrow> json_wf (sort_json j)"
proof (induction j)
  case (CDict kvs)
  then have "dict_wf (map (\<lambda>(k, v). (k, sort_json v)) kvs)" by simp
  with CDict show ?case by (auto simp: dict_wf_sort_key)
qed auto

text \<open>Sorted well-formed documents with the same meaning are the same.\<close>

fun json_sorted :: "json \<Rightarrow> bool" where
  "json_sorted (CList xs) = (\<forall>x \<in> set xs. json_sorted x)"
| "json_sorted (CDict kvs) = (sorted (dict_keys kvs) \<and> (\<forall>(k, v) \<in> set kvs. json_sorted v))"
| "json_sorted j = True"

lemma sort_json_sorted: "json_sorted (sort_json j)"
  by (induction j) auto

lemma json_abs_inj_sorted:
  "json_abs j = json_abs k \<Longrightarrow> json_wf j \<Longrightarrow> json_wf k \<Longrightarrow> json_sorted j \<Longrightarrow> json_sorted k \<Longrightarrow> j = k"
proof (induction j arbitrary: k)
  case (CList xs)
  then obtain ys where k: "k = CList ys" and eq: "map json_abs xs = map json_abs ys" by (cases k) auto
  have "xs = ys"
  proof (rule nth_equalityI)
    show len: "length xs = length ys" using eq by (metis length_map)
    show "xs ! i = ys ! i" if "i < length xs" for i
    proof -
      from that len have "json_abs (xs ! i) = json_abs (ys ! i)" using eq by (metis nth_map)
      with CList.IH [of "xs ! i" "ys ! i"] CList.prems k that len show ?thesis by simp
    qed
  qed
  with k show ?case by simp
next
  case (CDict kvs)
  let ?a = "\<lambda>(k, v). (k, json_abs v)"
  from CDict.prems(1) obtain ls where k: "k = CDict ls" and eq: "map_of (map ?a kvs) = map_of (map ?a ls)"
    by (cases k) auto
  have wf: "dict_wf kvs" "dict_wf ls" using CDict.prems k by simp_all
  have "map_of kvs = map_of ls"
  proof
    fix x
    have rel: "map_option json_abs (map_of kvs x) = map_option json_abs (map_of ls x)"
      using fun_cong [OF eq, of x] by (simp add: map_of_map_snd_eq)
    show "map_of kvs x = map_of ls x"
    proof (cases "map_of kvs x")
      case None
      with rel show ?thesis by (cases "map_of ls x") auto
    next
      case (Some v)
      with rel obtain w where w: "map_of ls x = Some w" and vw: "json_abs v = json_abs w"
        by (cases "map_of ls x") auto
      have inn: "(x, v) \<in> set kvs" "(x, w) \<in> set ls" using Some w by (auto dest: map_of_SomeD)
      have "v \<in> Basic_BNFs.snds (x, v)" by simp
      moreover have "json_wf v" "json_wf w" "json_sorted v" "json_sorted w"
        using CDict.prems k inn by auto
      ultimately have "v = w" using CDict.IH [OF inn(1) _ vw] by blast
      with Some w show ?thesis by simp
    qed
  qed
  with sorted_dict_eq [of kvs ls] wf CDict.prems k show ?case by simp
qed (case_tac k; auto)+

lemma sort_json_eq_iff:
  assumes "json_wf j" "json_wf k"
  shows "sort_json j = sort_json k \<longleftrightarrow> json_abs j = json_abs k"
  using assms json_abs_inj_sorted [of "sort_json j" "sort_json k"]
  by (metis json_abs_sort sort_json_sorted sort_json_wf)

lemma dumps_eq_iff: "json_wf j \<Longrightarrow> json_wf k \<Longrightarrow> dumps j = dumps k \<longleftrightarrow> json_abs j = json_abs k"
  by (simp add: dumps_def emit_inj sort_json_eq_iff)

lemma canonical_bytes_Ok_iff:
  "canonical_bytes H v = Inr b \<longleftrightarrow> (\<exists>j. normalize H v = Inr j \<and> b = utf8 (dumps j))"
  by (auto simp: canonical_bytes_def rbind_eq_Ok_iff)



section \<open>Digests\<close>

text \<open>SHA-256 tells the given inputs apart: the assumption every digest comparison rests on.\<close>

definition collision_free :: "hash_env \<Rightarrow> string set \<Rightarrow> bool" where
  "collision_free H A \<longleftrightarrow> inj_on (sha256_hex H) A"

lemma digest_Ok_iff:
  "digest H v = Inr d \<longleftrightarrow>
     (\<exists>b. canonical_bytes H v = Inr b \<and> d = ''sha256:'' @ sha256_hex H (c14n_prefix @ b))"
  by (auto simp: digest_def rbind_eq_Ok_iff)

lemma digest_eq_bytes:
  assumes "digest H v = Inr d" "digest H w = Inr d"
    and "collision_free H {c14n_prefix @ b | b. canonical_bytes H v = Inr b \<or> canonical_bytes H w = Inr b}"
  shows "canonical_bytes H v = canonical_bytes H w"
proof -
  from assms(1,2) obtain b c where b: "canonical_bytes H v = Inr b" and c: "canonical_bytes H w = Inr c"
    and eq: "sha256_hex H (c14n_prefix @ b) = sha256_hex H (c14n_prefix @ c)"
    by (auto simp: digest_Ok_iff)
  have "c14n_prefix @ b = c14n_prefix @ c"
    using assms(3) b c unfolding collision_free_def
    by (intro inj_onD [of "sha256_hex H", OF _ eq]) auto
  with b c show ?thesis by simp
qed

lemma digest_cong: "canonical_bytes H v = canonical_bytes H w \<Longrightarrow> digest H v = digest H w"
  by (simp add: digest_def)

text \<open>
  A digest identifies its document: when SHA-256 tells the two canonical encodings apart,
  equal digests mean equal documents.
\<close>

theorem digest_identifies:
  assumes "digest H v = Inr d" "digest H w = Inr d"
    and "collision_free H {c14n_prefix @ b | b. canonical_bytes H v = Inr b \<or> canonical_bytes H w = Inr b}"
  shows "\<exists>j k. normalize H v = Inr j \<and> normalize H w = Inr k \<and> json_abs j = json_abs k"
proof -
  have eq: "canonical_bytes H v = canonical_bytes H w" using assms by (rule digest_eq_bytes)
  from assms(1) obtain b where b: "canonical_bytes H v = Inr b" by (auto simp: digest_Ok_iff)
  with eq have "canonical_bytes H w = Inr b" by simp
  with b obtain j k where jk: "normalize H v = Inr j" "normalize H w = Inr k" "dumps j = dumps k"
    by (auto simp: canonical_bytes_Ok_iff utf8_inj)
  then have "json_abs j = json_abs k" using normalize_wf_bounded(1) by (simp add: dumps_eq_iff)
  with jk show ?thesis by blast
qed

lemma digest_identifies_witness:
  "\<exists>j k. normalize \<lparr>nfc = id, sha256_hex = rev\<rparr> (PDict [(KStr ''a'', PInt 1)]) = Inr j \<and>
     normalize \<lparr>nfc = id, sha256_hex = rev\<rparr> (PDict [(KStr ''a'', PInt 1)]) = Inr k \<and>
     json_abs j = json_abs k"
proof (rule digest_identifies)
  let ?H = "\<lparr>nfc = id, sha256_hex = rev\<rparr>"
  let ?v = "PDict [(KStr ''a'', PInt 1)]"
  show "digest ?H ?v = Inr (''sha256:'' @ rev (c14n_prefix @ utf8 (dumps (CDict [(''a'', CInt 1)]))))"
    by (simp add: digest_def canonical_bytes_def max_safe_int_def del: sort_json.simps emit.simps)
  then show "digest ?H ?v = Inr (''sha256:'' @ rev (c14n_prefix @ utf8 (dumps (CDict [(''a'', CInt 1)]))))" .
  show "collision_free ?H {c14n_prefix @ b | b. canonical_bytes ?H ?v = Inr b \<or> canonical_bytes ?H ?v = Inr b}"
    unfolding collision_free_def by (rule inj_onI) simp
qed

text \<open>
  What the encoder accepts is interoperable: every integer of a normalized value is within
  \<open>2^53 - 1\<close>, and no dictionary of it has a repeated key.
\<close>

theorem normalize_interoperable: "normalize H v = Inr j \<Longrightarrow> json_bounded j \<and> json_wf j"
  using normalize_wf_bounded(1) by blast

lemma normalize_interoperable_witness:
  "json_bounded (CDict [(''n'', CInt 9007199254740991)]) \<and> json_wf (CDict [(''n'', CInt 9007199254740991)])"
  by (rule normalize_interoperable
      [of "\<lparr>nfc = id, sha256_hex = id\<rparr>" "PDict [(KStr ''n'', PInt 9007199254740991)]"])
    (simp add: max_safe_int_def)

text \<open>Digests of the shapes the components hash: lists and dictionaries of strings.\<close>

lemma normalize_list_strs:
  "normalize_list H (map PStr ss) = Inr (map (\<lambda>s. CStr (nfc H (crlf s))) ss)"
  by (induction ss) auto

lemma digest_strs_Ok: "\<exists>d. digest H (PList (map PStr ss)) = Inr d"
  by (simp add: digest_def canonical_bytes_def normalize_list_strs)

text \<open>
  NFC leaves ASCII text as it is; the keys of every dictionary the program digests are ASCII
  identifiers.
\<close>

definition ascii :: "string \<Rightarrow> bool" where
  "ascii s \<longleftrightarrow> list_all (\<lambda>c. of_char c < (128::nat)) s"

definition nfc_ascii :: "hash_env \<Rightarrow> bool" where
  "nfc_ascii H \<longleftrightarrow> (\<forall>s. ascii s \<longrightarrow> nfc H s = s)"

lemma nfc_asciiD [simp]: "nfc_ascii H \<Longrightarrow> ascii s \<Longrightarrow> nfc H s = s"
  by (simp add: nfc_ascii_def)

text \<open>
  A dictionary with fixed ASCII keys: its encoding fails as its first failing value does, and
  identifies its values. Text is identified up to normalization.
\<close>

definition norm_text :: "hash_env \<Rightarrow> string \<Rightarrow> string" where
  "norm_text H s = nfc H (crlf s)"

definition obj_dict :: "(string \<times> pyobj) list \<Rightarrow> pyobj" where
  "obj_dict kvs = PDict (map (\<lambda>(k, v). (KStr k, v)) kvs)"

lemma normalize_items_fresh:
  assumes "nfc_ascii H"
  shows "length ks = length vs \<Longrightarrow> distinct ks \<Longrightarrow> list_all ascii ks \<Longrightarrow> set ks \<inter> set (dict_keys res) = {} \<Longrightarrow>
    normalize_items H res (map (\<lambda>(k, v). (KStr k, v)) (zip ks vs)) =
      rbind (normalize_list H vs) (\<lambda>js. Ok (res @ zip ks js))"
proof (induction ks vs arbitrary: res rule: list_induct2)
  case Nil
  then show ?case by simp
next
  case (Cons k ks v vs)
  have n: "nfc H k = k" using assms Cons.prems(2) by simp
  have fresh: "k \<notin> set (dict_keys res)" using Cons.prems(3) by auto
  show ?case
  proof (cases "normalize H v")
    case (Inl e)
    with n fresh show ?thesis by (simp add: Let_def)
  next
    case (Inr j)
    have "dict_set k j res = res @ [(k, j)]" using fresh by (rule dict_set_new)
    moreover have "set ks \<inter> set (dict_keys (res @ [(k, j)])) = {}" using Cons.prems by auto
    ultimately have "normalize_items H res (map (\<lambda>(k, v). (KStr k, v)) (zip (k # ks) (v # vs))) =
        rbind (normalize_list H vs) (\<lambda>js. Ok ((res @ [(k, j)]) @ zip ks js))"
      using Cons.IH [of "res @ [(k, j)]"] Cons.prems n fresh Inr by (simp add: Let_def)
    with Inr show ?thesis by (cases "normalize_list H vs") simp_all
  qed
qed

lemma normalize_obj_dict:
  assumes "nfc_ascii H" "length ks = length vs" "distinct ks" "list_all ascii ks"
  shows "normalize H (obj_dict (zip ks vs)) = rbind (normalize_list H vs) (\<lambda>js. Ok (CDict (zip ks js)))"
  using normalize_items_fresh [OF assms, of "[]"]
  by (cases "normalize_list H vs") (simp_all add: obj_dict_def)

lemma normalize_list_length: "normalize_list H vs = Inr js \<Longrightarrow> length js = length vs"
  by (induction vs arbitrary: js) (auto simp: rbind_eq_Ok_iff)

lemma obj_dict_bytes_eq:
  assumes "nfc_ascii H" "length ks = length vs" "length ks = length ws" "distinct ks" "list_all ascii ks"
    and "canonical_bytes H (obj_dict (zip ks vs)) = Inr b" "canonical_bytes H (obj_dict (zip ks ws)) = Inr b"
  shows "\<exists>js ls. normalize_list H vs = Inr js \<and> normalize_list H ws = Inr ls \<and> map json_abs js = map json_abs ls"
proof -
  from assms(6) normalize_obj_dict [OF assms(1,2,4,5)] obtain js where
    js: "normalize_list H vs = Inr js" "normalize H (obj_dict (zip ks vs)) = Inr (CDict (zip ks js))"
    by (cases "normalize_list H vs") (simp_all add: canonical_bytes_def)
  from assms(7) normalize_obj_dict [OF assms(1,3,4,5)] obtain ls where
    ls: "normalize_list H ws = Inr ls" "normalize H (obj_dict (zip ks ws)) = Inr (CDict (zip ks ls))"
    by (cases "normalize_list H ws") (simp_all add: canonical_bytes_def)
  have len: "length js = length ks" "length ls = length ks"
    using normalize_list_length [OF js(1)] normalize_list_length [OF ls(1)] assms(2,3) by simp_all
  have nj: "json_wf (CDict (zip ks js))" "json_wf (CDict (zip ks ls))"
    using normalize_wf_bounded(1) js(2) ls(2) by blast+
  have "utf8 (dumps (CDict (zip ks js))) = utf8 (dumps (CDict (zip ks ls)))"
    using assms(6,7) js(2) ls(2) by (simp add: canonical_bytes_def)
  then have "dumps (CDict (zip ks js)) = dumps (CDict (zip ks ls))" by (simp add: utf8_inj)
  then have "json_abs (CDict (zip ks js)) = json_abs (CDict (zip ks ls))"
    using dumps_eq_iff [OF nj] by simp
  then have "map_of (zip ks (map json_abs js)) = map_of (zip ks (map json_abs ls))"
    by (simp add: zip_map2)
  then have "map json_abs js = map json_abs ls"
    using map_of_zip_inject [of "map json_abs js" ks "map json_abs ls"] len assms(4) by simp
  with js ls show ?thesis by blast
qed

lemma obj_dict_bytes_succeed:
  assumes "nfc_ascii H" "length ks = length vs" "distinct ks" "list_all ascii ks"
  shows "canonical_bytes H (obj_dict (zip ks vs)) =
    rbind (normalize_list H vs) (\<lambda>js. Ok (utf8 (dumps (CDict (zip ks js)))))"
  using normalize_obj_dict [OF assms] by (cases "normalize_list H vs") (simp_all add: canonical_bytes_def)

lemma digest_obj_strs_Ok:
  "nfc_ascii H \<Longrightarrow> length ks = length ss \<Longrightarrow> distinct ks \<Longrightarrow> list_all ascii ks \<Longrightarrow>
     \<exists>d. digest H (obj_dict (zip ks (map PStr ss))) = Inr d"
  by (simp add: digest_def obj_dict_bytes_succeed normalize_list_strs)

text \<open>Identity functions for both parameters, for concrete evaluations.\<close>

definition plain_hash :: hash_env where
  "plain_hash = \<lparr>nfc = (\<lambda>s. s), sha256_hex = (\<lambda>s. s)\<rparr>"

lemma nfc_plain [simp]: "nfc plain_hash s = s" "sha256_hex plain_hash s = s" "nfc_ascii plain_hash"
  by (simp_all add: plain_hash_def nfc_ascii_def)

text \<open>
  What a value means as a document, if it encodes: equal digests mean equal meanings, and a dictionary
  with fixed keys or a list means what its parts mean.
\<close>

definition meaning :: "hash_env \<Rightarrow> pyobj \<Rightarrow> doc option" where
  "meaning H v = (case normalize H v of Inl e \<Rightarrow> None | Inr j \<Rightarrow> Some (json_abs j))"

lemma digest_meaning:
  assumes "digest H v = Inr d" "digest H w = Inr d"
    and "collision_free H {c14n_prefix @ b | b. canonical_bytes H v = Inr b \<or> canonical_bytes H w = Inr b}"
  shows "meaning H v = meaning H w \<and> meaning H v \<noteq> None"
proof -
  have eq: "canonical_bytes H v = canonical_bytes H w" using assms by (rule digest_eq_bytes)
  from assms(1) obtain b where b: "canonical_bytes H v = Inr b" by (auto simp: digest_Ok_iff)
  with eq have "canonical_bytes H w = Inr b" by simp
  with b obtain j k where jk: "normalize H v = Inr j" "normalize H w = Inr k" "dumps j = dumps k"
    by (auto simp: canonical_bytes_Ok_iff utf8_inj)
  then have "json_abs j = json_abs k" using normalize_wf_bounded(1) by (simp add: dumps_eq_iff)
  with jk show ?thesis by (simp add: meaning_def)
qed

lemma meaning_simps [simp]:
  "meaning H (PStr s) = Some (DStr (norm_text H s))" "meaning H PNone = Some DNull"
  "meaning H (PBool b) = Some (DBool b)"
  "meaning H (PInt i) = (if \<bar>i\<bar> > max_safe_int then None else Some (DInt i))"
  by (simp_all add: meaning_def norm_text_def raise_def)

lemma normalize_list_meanings:
  "(case normalize_list H vs of Inl e \<Rightarrow> None | Inr js \<Rightarrow> Some (map json_abs js)) = those (map (meaning H) vs)"
proof (induction vs)
  case (Cons v vs)
  then show ?case
    by (cases "normalize H v"; cases "normalize_list H vs") (simp_all add: meaning_def [of H v] flip: Cons)
qed simp

lemma meaning_list: "meaning H (PList vs) = map_option DList (those (map (meaning H) vs))"
  by (cases "normalize_list H vs") (simp_all add: meaning_def flip: normalize_list_meanings)

lemma meaning_obj_dict:
  assumes "nfc_ascii H" "length ks = length vs" "distinct ks" "list_all ascii ks"
  shows "meaning H (obj_dict (zip ks vs)) = map_option (\<lambda>ds. DDict (map_of (zip ks ds))) (those (map (meaning H) vs))"
  using normalize_obj_dict [OF assms]
  by (cases "normalize_list H vs") (simp_all add: meaning_def zip_map2 flip: normalize_list_meanings)

lemma those_eq_Some: "those xs = Some ys \<longleftrightarrow> xs = map Some ys"
proof (induction xs arbitrary: ys)
  case (Cons x xs)
  show ?case by (cases x; cases ys) (auto simp: Cons)
qed auto

lemma meaning_list_eq:
  "meaning H (PList vs) = meaning H (PList ws) \<Longrightarrow> meaning H (PList vs) \<noteq> None \<Longrightarrow>
     map (meaning H) vs = map (meaning H) ws \<and> None \<notin> set (map (meaning H) vs)"
proof -
  assume eq: "meaning H (PList vs) = meaning H (PList ws)" and ok: "meaning H (PList vs) \<noteq> None"
  from ok obtain ds where d: "those (map (meaning H) vs) = Some ds" by (auto simp: meaning_list)
  with eq have e: "those (map (meaning H) ws) = Some ds"
    by (cases "those (map (meaning H) ws)") (simp_all add: meaning_list)
  from d e have "map (meaning H) vs = map Some ds" "map (meaning H) ws = map Some ds"
    by (simp_all only: those_eq_Some)
  then show ?thesis by auto
qed

lemma meaning_obj_dict_eq:
  assumes "nfc_ascii H" "length ks = length vs" "length ks = length ws" "distinct ks" "list_all ascii ks"
    and "meaning H (obj_dict (zip ks vs)) = meaning H (obj_dict (zip ks ws))"
    and "meaning H (obj_dict (zip ks vs)) \<noteq> None"
  shows "map (meaning H) vs = map (meaning H) ws \<and> None \<notin> set (map (meaning H) vs)"
proof -
  from assms(7) meaning_obj_dict [OF assms(1,2,4,5)] obtain ds where
    d: "those (map (meaning H) vs) = Some ds" by auto
  from assms(6,7) meaning_obj_dict [OF assms(1,2,4,5)] meaning_obj_dict [OF assms(1,3,4,5)] obtain es where
    e: "those (map (meaning H) ws) = Some es" by auto
  have "length ds = length ks" "length es = length ks"
    using d e assms(2,3) by (metis length_map those_eq_Some)+
  moreover have "map_of (zip ks ds) = map_of (zip ks es)"
    using assms(6) d e meaning_obj_dict [OF assms(1,2,4,5)] meaning_obj_dict [OF assms(1,3,4,5)] by simp
  ultimately have "ds = es" using map_of_zip_inject [of ds ks es] assms(4) by simp
  with d e have "map (meaning H) vs = map Some ds" "map (meaning H) ws = map Some ds"
    by (simp_all only: those_eq_Some)
  then show ?thesis by auto
qed

end
