(* ===== verification/PyObj.thy ===== *)
theory PyObj
  imports Canonical
begin

text \<open>
  What the components do with untyped values: \<open>str(x)\<close>, \<open>repr(x)\<close>, truth, and \<open>d.get(k, default)\<close>
  on a mapping with string keys. A set passed for a sequence is the list of its elements in iteration
  order; an object of another type is its \<open>str\<close>.
\<close>

fun py_repr_obj :: "pyobj \<Rightarrow> string" where
  "py_repr_obj PNone = ''None''"
| "py_repr_obj (PBool b) = (if b then ''True'' else ''False'')"
| "py_repr_obj (PInt i) = str_int i"
| "py_repr_obj (PFloat r) = r"
| "py_repr_obj (PStr s) = py_repr s"
| "py_repr_obj (PList xs) = ''['' @ py_join '', '' (map py_repr_obj xs) @ '']''"
| "py_repr_obj (PTuple xs) =
     (case xs of [x] \<Rightarrow> ''('' @ py_join '', '' (map py_repr_obj xs) @ '',)''
      | _ \<Rightarrow> ''('' @ py_join '', '' (map py_repr_obj xs) @ '')'')"
| "py_repr_obj (PDict kvs) =
     CHR 0x7B # py_join '', '' (map (\<lambda>(k, v).
       (case k of KStr s \<Rightarrow> py_repr s | KOther r \<Rightarrow> r) @ '': '' @ py_repr_obj v) kvs) @ [CHR 0x7D]"
| "py_repr_obj (POther r) = r"

definition py_str :: "pyobj \<Rightarrow> string" where
  "py_str v = (case v of PStr s \<Rightarrow> s | _ \<Rightarrow> py_repr_obj v)"

definition py_truthy :: "pyobj \<Rightarrow> bool" where
  "py_truthy v = (case v of PNone \<Rightarrow> False | PBool b \<Rightarrow> b | PInt i \<Rightarrow> i \<noteq> 0 | PStr s \<Rightarrow> s \<noteq> []
     | PList xs \<Rightarrow> xs \<noteq> [] | PTuple xs \<Rightarrow> xs \<noteq> [] | PDict kvs \<Rightarrow> kvs \<noteq> []
     | PFloat r \<Rightarrow> r \<notin> {''0.0'', ''-0.0''} | POther r \<Rightarrow> True)"

type_synonym pymap = "(string, pyobj) dict"

definition get_or :: "pymap \<Rightarrow> string \<Rightarrow> pyobj \<Rightarrow> pyobj" where
  "get_or d k def = (case dict_get d k of None \<Rightarrow> def | Some v \<Rightarrow> v)"

lemma py_str_PStr [simp]: "py_str (PStr s) = s" by (simp add: py_str_def)

lemma get_or_simps [simp]:
  "dict_get d k = Some v \<Longrightarrow> get_or d k def = v"
  "dict_get d k = None \<Longrightarrow> get_or d k def = def"
  by (simp_all add: get_or_def)

end
