(* ===== verification/Ledger.thy ===== *)
theory Ledger
  imports PyObj
begin

text \<open>
  \<open>sqlite/repository.py\<close>, the ledger: scopes, streams, events, idempotent commands and observations.
  A table of the target schema (\<open>contracts/sql/target-schema.sql\<close>) is a dictionary from its primary key, the
  event table a list in insertion order; columns that only ever hold a constant are left out. A violated
  \<open>UNIQUE\<close> or foreign key raises \<open>IntegrityError\<close>, and \<open>with self._tx()\<close> is \<^const>\<open>tx\<close>.
\<close>

record Stream =
  st_scope_id :: string
  st_revision :: int
  st_entity_type :: string
  st_status :: string

record Event =
  ev_seq :: int
  ev_event_id :: string
  ev_stream_id :: string
  ev_position :: int
  ev_producer :: string
  ev_producer_seq :: int
  ev_kind :: string
  ev_payload_digest :: string
  ev_observation_kind :: string

record Artifact =
  ar_scope_id :: string
  ar_path :: string
  ar_byte_length :: nat

record Job =
  jb_event_id :: string
  jb_scope_id :: string
  jb_payload_digest :: string
  jb_state :: string
  jb_fence :: int
  jb_lease_owner :: "string option"
  jb_lease_until :: "int option"

type_synonym request_key = "string \<times> string \<times> string \<times> string"

record Ledger =
  lg_scopes :: "(string, string \<times> string \<times> string) dict"
  lg_streams :: "(string, Stream) dict"
  lg_artifacts :: "(string, Artifact) dict"
  lg_blobs :: "(string, string \<times> string) dict"
  lg_events :: "Event list"
  lg_next_seq :: int
  lg_requests :: "(request_key, string \<times> string) dict"
  lg_outbox :: "(string, Job) dict"
  lg_lease_floor :: "int option"
  lg_usage :: "(string, int) dict"
  lg_audit :: "(string \<times> string) list"
  lg_cancellations :: "(string, int \<times> string) dict"
  lg_tombstones :: "(string, string) dict"

record Receipt =
  rc_revision :: int
  rc_event_id :: string
  rc_idempotent_replay :: bool

definition empty_ledger :: Ledger where
  "empty_ledger = \<lparr>lg_scopes = [], lg_streams = [], lg_artifacts = [], lg_blobs = [], lg_events = [], lg_next_seq = 1,
     lg_requests = [], lg_outbox = [], lg_lease_floor = None, lg_usage = [], lg_audit = [], lg_cancellations = [],
     lg_tombstones = []\<rparr>"

definition integrity_error :: "'a result" where
  "integrity_error = Inl (PyError ''IntegrityError'')"

text \<open>\<open>INSERT OR IGNORE\<close>\<close>

definition insert_new :: "'k \<Rightarrow> 'v \<Rightarrow> ('k, 'v) dict \<Rightarrow> ('k, 'v) dict" where
  "insert_new k v d = (if k \<in> set (dict_keys d) then d else d @ [(k, v)])"

text \<open>\<open>COALESCE(MAX(column), default)\<close>\<close>

definition max_or :: "int \<Rightarrow> int list \<Rightarrow> int" where
  "max_or d xs = (if xs = [] then d else Max (set xs))"

section \<open>Scopes and streams\<close>

definition register_scope :: "hash_env \<Rightarrow> string \<Rightarrow> string \<Rightarrow> string \<Rightarrow> (Ledger, string) op" where
  "register_scope H tenant user workspace =
     (if tenant = [] \<or> user = [] \<or> workspace = [] \<or> ''*'' \<in> {tenant, user, workspace}
      then olift (raise ''INVALID_SCOPE'' ''scope fields must be exact'')
      else
        obind (olift (digest H (obj_dict [(''tenant'', PStr tenant), (''user'', PStr user), (''workspace'', PStr workspace)])))
          (\<lambda>scope_id. tx (\<lambda>s. (Ok scope_id,
             if (tenant, user, workspace) \<in> snd ` set (lg_scopes s) then s
             else s\<lparr>lg_scopes := insert_new scope_id (tenant, user, workspace) (lg_scopes s)\<rparr>))))"

definition create_stream :: "string \<Rightarrow> string \<Rightarrow> string \<Rightarrow> (Ledger, unit) op" where
  "create_stream scope_id stream_id entity_type = tx (\<lambda>s.
     if scope_id \<notin> set (dict_keys (lg_scopes s)) then (raise ''SCOPE_DENIED'' ''unknown scope'', s)
     else if stream_id \<in> set (dict_keys (lg_streams s)) then (integrity_error, s)
     else (Ok (), s\<lparr>lg_streams := dict_set stream_id \<lparr>st_scope_id = scope_id, st_revision = 0,
       st_entity_type = entity_type, st_status = ''open''\<rparr> (lg_streams s)\<rparr>))"

definition stream_scope :: "Ledger \<Rightarrow> string \<Rightarrow> string option" where
  "stream_scope s stream_id = map_option st_scope_id (dict_get (lg_streams s) stream_id)"

definition require_scope :: "string \<Rightarrow> string \<Rightarrow> (Ledger, unit) op" where
  "require_scope scope_id stream_id s =
     (case stream_scope s stream_id of
        None \<Rightarrow> (raise ''SCOPE_DENIED'' ''entity not readable in this scope'', s)
      | Some owner \<Rightarrow>
          if owner \<noteq> scope_id then (raise ''SCOPE_DENIED'' ''entity not readable in this scope'', s)
          else (Ok (), s))"

definition revision_of :: "Ledger \<Rightarrow> string \<Rightarrow> int" where
  "revision_of s stream_id = (case dict_get (lg_streams s) stream_id of None \<Rightarrow> 0 | Some r \<Rightarrow> st_revision r)"

definition next_position :: "Ledger \<Rightarrow> string \<Rightarrow> int" where
  "next_position s stream_id = max_or 0 (map ev_position [e \<leftarrow> lg_events s. ev_stream_id e = stream_id]) + 1"

definition read_scoped_entity :: "string \<Rightarrow> string \<Rightarrow> (Ledger, int) op" where
  "read_scoped_entity scope_id stream_id =
     obind (require_scope scope_id stream_id) (\<lambda>_ s. (Ok (revision_of s stream_id), s))"

section \<open>Artifacts and events\<close>

text \<open>The two \<open>INSERT OR IGNORE\<close> of \<open>_artifact\<close>.\<close>

definition store_blob :: "hash_env \<Rightarrow> string \<Rightarrow> string \<Rightarrow> Ledger \<Rightarrow> Ledger" where
  "store_blob H scope_id body s =
     (let raw = raw_digest H body in
      s\<lparr>lg_artifacts := insert_new raw \<lparr>ar_scope_id = scope_id, ar_path = ''blobs/'' @ take 8 (drop 7 raw),
          ar_byte_length = length body\<rparr> (lg_artifacts s),
        lg_blobs := insert_new raw (scope_id, body) (lg_blobs s)\<rparr>)"

definition put_artifact :: "hash_env \<Rightarrow> string \<Rightarrow> string \<Rightarrow> (Ledger, string) op" where
  "put_artifact H scope_id body s =
     (if raw_digest H body \<notin> set (dict_keys (lg_artifacts s)) \<and> scope_id \<notin> set (dict_keys (lg_scopes s))
      then (integrity_error, s) else (Ok (raw_digest H body), store_blob H scope_id body s))"

definition read_artifact :: "Ledger \<Rightarrow> string \<Rightarrow> string \<Rightarrow> string option" where
  "read_artifact s scope_id raw =
     (case dict_get (lg_blobs s) raw of
        None \<Rightarrow> None | Some (owner, body) \<Rightarrow> if owner \<noteq> scope_id then None else Some body)"

text \<open>The \<open>UNIQUE\<close> columns and the foreign keys of the event table.\<close>

definition event_fits :: "Event \<Rightarrow> Ledger \<Rightarrow> bool" where
  "event_fits e s \<longleftrightarrow> ev_event_id e \<notin> ev_event_id ` set (lg_events s) \<and>
     (ev_stream_id e, ev_position e) \<notin> (\<lambda>e. (ev_stream_id e, ev_position e)) ` set (lg_events s) \<and>
     (ev_producer e, ev_producer_seq e) \<notin> (\<lambda>e. (ev_producer e, ev_producer_seq e)) ` set (lg_events s) \<and>
     ev_stream_id e \<in> set (dict_keys (lg_streams s)) \<and> ev_payload_digest e \<in> set (dict_keys (lg_artifacts s))"

definition append_event :: "Event \<Rightarrow> Ledger \<Rightarrow> Ledger" where
  "append_event e s = s\<lparr>lg_events := lg_events s @ [e\<lparr>ev_seq := lg_next_seq s\<rparr>], lg_next_seq := lg_next_seq s + 1\<rparr>"

definition insert_event :: "Event \<Rightarrow> (Ledger, int) op" where
  "insert_event e s = (if \<not> event_fits e s then (integrity_error, s) else (Ok (lg_next_seq s), append_event e s))"

definition set_revision :: "string \<Rightarrow> int \<Rightarrow> Ledger \<Rightarrow> Ledger" where
  "set_revision stream_id revision s =
     (case dict_get (lg_streams s) stream_id of
        None \<Rightarrow> s
      | Some r \<Rightarrow> s\<lparr>lg_streams := dict_set stream_id (r\<lparr>st_revision := revision\<rparr>) (lg_streams s)\<rparr>)"

section \<open>Commands\<close>

definition add_job :: "string \<Rightarrow> string \<Rightarrow> string \<Rightarrow> Ledger \<Rightarrow> Ledger" where
  "add_job event_id scope_id artifact s =
     s\<lparr>lg_outbox := dict_set event_id \<lparr>jb_event_id = event_id, jb_scope_id = scope_id, jb_payload_digest = artifact,
       jb_state = ''pending'', jb_fence = 0, jb_lease_owner = None, jb_lease_until = None\<rparr> (lg_outbox s)\<rparr>"

definition enqueue_job :: "string \<Rightarrow> string \<Rightarrow> string \<Rightarrow> (Ledger, unit) op" where
  "enqueue_job event_id scope_id artifact s =
     (if event_id \<in> set (dict_keys (lg_outbox s)) then (integrity_error, s)
      else (Ok (), add_job event_id scope_id artifact s))"

definition add_request :: "request_key \<Rightarrow> string \<Rightarrow> string \<Rightarrow> Ledger \<Rightarrow> Ledger" where
  "add_request key rd response s = s\<lparr>lg_requests := dict_set key (rd, response) (lg_requests s)\<rparr>"

definition request_digest_of :: "hash_env \<Rightarrow> string \<Rightarrow> string \<Rightarrow> pymap \<Rightarrow> int \<Rightarrow> string result" where
  "request_digest_of H actor command payload expected_revision =
     digest H (obj_dict [(''actor'', PStr actor), (''command'', PStr command), (''payload'', obj_dict payload),
       (''expected'', PInt expected_revision)])"

text \<open>A command that is not a replay.\<close>

definition fresh_command ::
  "hash_env \<Rightarrow> string \<Rightarrow> string \<Rightarrow> string \<Rightarrow> string \<Rightarrow> pymap \<Rightarrow> string \<Rightarrow> int \<Rightarrow> bool \<Rightarrow> string \<Rightarrow> int option \<Rightarrow>
    string \<Rightarrow> (Ledger, Receipt) op"
where
  "fresh_command H scope_id actor command key payload stream_id expected_revision enqueue producer producer_seq rd =
     obind oget (\<lambda>s0.
       let revision = revision_of s0 stream_id in
       if revision \<noteq> expected_revision then olift (raise ''STALE_REVISION'' stream_id)
       else
         let pseq = (case producer_seq of Some n \<Rightarrow> n
           | None \<Rightarrow> max_or (-1) (map ev_producer_seq [e \<leftarrow> lg_events s0. ev_producer e = producer]) + 1) in
         obind (olift (digest H (obj_dict [(''stream'', PStr stream_id), (''payload'', obj_dict payload), (''key'', PStr key)])))
           (\<lambda>event_id.
         obind (olift (canonical_bytes H (obj_dict [(''revision'', PInt (revision + 1))]))) (\<lambda>response.
         obind (put_artifact H scope_id response) (\<lambda>artifact.
         obind (insert_event \<lparr>ev_seq = 0, ev_event_id = event_id, ev_stream_id = stream_id,
           ev_position = next_position s0 stream_id, ev_producer = producer, ev_producer_seq = pseq, ev_kind = command,
           ev_payload_digest = artifact, ev_observation_kind = ''control''\<rparr>) (\<lambda>_.
         obind (oput (set_revision stream_id (revision + 1))) (\<lambda>_.
         obind (oput (add_request (scope_id, actor, command, key) rd artifact)) (\<lambda>_.
         obind (if enqueue then enqueue_job event_id scope_id artifact else oret ()) (\<lambda>_.
         oret \<lparr>rc_revision = revision + 1, rc_event_id = event_id, rc_idempotent_replay = False\<rparr>))))))))"

definition execute_command ::
  "hash_env \<Rightarrow> string \<Rightarrow> string \<Rightarrow> string \<Rightarrow> string \<Rightarrow> pymap \<Rightarrow> string \<Rightarrow> int \<Rightarrow> bool \<Rightarrow> string \<Rightarrow> int option \<Rightarrow>
    (Ledger, Receipt) op"
where
  "execute_command H scope_id actor command key payload stream_id expected_revision enqueue producer producer_seq =
     (if dict_get payload ''approved'' = Some (PBool True)
      then olift (raise ''WRONG_PURPOSE'' ''payload fields never grant approval'')
      else
        obind (olift (request_digest_of H actor command payload expected_revision)) (\<lambda>rd.
        tx (obind (require_scope scope_id stream_id) (\<lambda>_.
          obind oget (\<lambda>s.
            case dict_get (lg_requests s) (scope_id, actor, command, key) of
              Some (old, response) \<Rightarrow>
                if old \<noteq> rd then olift (raise ''IDEMPOTENCY_CONFLICT'' key)
                else oret \<lparr>rc_revision = revision_of s stream_id, rc_event_id = [], rc_idempotent_replay = True\<rparr>
            | None \<Rightarrow>
                fresh_command H scope_id actor command key payload stream_id expected_revision enqueue producer
                  producer_seq rd)))))"

section \<open>Observations\<close>

definition record_observation_in ::
  "hash_env \<Rightarrow> string \<Rightarrow> string \<Rightarrow> string \<Rightarrow> int \<Rightarrow> pymap \<Rightarrow> string \<Rightarrow> string \<Rightarrow> (Ledger, int) op"
where
  "record_observation_in H scope_id stream_id producer producer_seq payload kind observation_kind =
     obind (olift (canonical_bytes H (obj_dict payload))) (\<lambda>data.
     obind (require_scope scope_id stream_id) (\<lambda>_.
     obind oget (\<lambda>s.
       case List.find (\<lambda>e. ev_producer e = producer \<and> ev_producer_seq e = producer_seq) (lg_events s) of
         Some old \<Rightarrow>
           if ev_payload_digest old \<noteq> raw_digest H data
           then olift (raise ''IDEMPOTENCY_CONFLICT'' ''same producer_seq, different payload'')
           else oret (ev_seq old)
       | None \<Rightarrow>
           obind (put_artifact H scope_id data) (\<lambda>artifact.
           obind (olift (digest H (obj_dict [(''producer'', PStr producer), (''seq'', PInt producer_seq),
             (''payload'', obj_dict payload)]))) (\<lambda>event_id.
           insert_event \<lparr>ev_seq = 0, ev_event_id = event_id, ev_stream_id = stream_id,
             ev_position = next_position s stream_id, ev_producer = producer, ev_producer_seq = producer_seq,
             ev_kind = kind, ev_payload_digest = artifact, ev_observation_kind = observation_kind\<rparr>)))))"

definition record_observation ::
  "hash_env \<Rightarrow> string \<Rightarrow> string \<Rightarrow> string \<Rightarrow> int \<Rightarrow> pymap \<Rightarrow> string \<Rightarrow> string \<Rightarrow> (Ledger, int) op"
where
  "record_observation H scope_id stream_id producer producer_seq payload kind observation_kind =
     tx (record_observation_in H scope_id stream_id producer producer_seq payload kind observation_kind)"

definition list_events :: "string \<Rightarrow> string \<Rightarrow> (Ledger, string list) op" where
  "list_events scope_id stream_id =
     obind (require_scope scope_id stream_id) (\<lambda>_ s.
       (Ok [ar_path a. e \<leftarrow> sort_key ev_position [e \<leftarrow> lg_events s. ev_stream_id e = stream_id],
          a \<leftarrow> (case dict_get (lg_artifacts s) (ev_payload_digest e) of None \<Rightarrow> [] | Some a \<Rightarrow> [a])], s))"

section \<open>Audit, deletion and restore\<close>

definition audit :: "string \<Rightarrow> string \<Rightarrow> (Ledger, unit) op" where
  "audit stream_id detail = tx (oput (\<lambda>s. s\<lparr>lg_audit := lg_audit s @ [(stream_id, detail)]\<rparr>))"

definition mark_blocked :: "string \<Rightarrow> string \<Rightarrow> (Ledger, unit) op" where
  "mark_blocked stream_id reason = tx (oput (\<lambda>s.
     (case dict_get (lg_streams s) stream_id of
        None \<Rightarrow> s
      | Some r \<Rightarrow> s\<lparr>lg_streams := dict_set stream_id (r\<lparr>st_status := ''blocked''\<rparr>) (lg_streams s)\<rparr>)
     \<lparr>lg_audit := lg_audit s @ [(stream_id, ''blocked:'' @ reason)]\<rparr>))"

text \<open>The three deletes of a stream and its tombstone.\<close>

definition purge_stream :: "string \<Rightarrow> string \<Rightarrow> Ledger \<Rightarrow> Ledger" where
  "purge_stream at stream_id s =
     (let gone = ev_event_id ` set [e \<leftarrow> lg_events s. ev_stream_id e = stream_id] in
      s\<lparr>lg_tombstones := dict_set stream_id at (lg_tombstones s),
        lg_outbox := [(j, r) \<leftarrow> lg_outbox s. jb_event_id r \<notin> gone],
        lg_events := [e \<leftarrow> lg_events s. ev_stream_id e \<noteq> stream_id],
        lg_streams := dict_del stream_id (lg_streams s)\<rparr>)"

definition delete_stream :: "string \<Rightarrow> string \<Rightarrow> (Ledger, unit) op" where
  "delete_stream stream_id at = tx (oput (purge_stream at stream_id))"

definition restore :: "Ledger \<Rightarrow> (Ledger, unit) op" where
  "restore backup s = (Ok (), fold (purge_stream ''restored'') (dict_keys (lg_tombstones s)) backup)"

section \<open>What an accepted call writes\<close>

lemma integrity_error_simps [simp]:
  "integrity_error \<noteq> Inr x" "rbind integrity_error f = integrity_error"
  "case_sum g h integrity_error = g (PyError ''IntegrityError'')"
  by (simp_all add: integrity_error_def)

lemma dict_keys_insert_new [simp]: "set (dict_keys (insert_new k v d)) = insert k (set (dict_keys d))"
  by (auto simp: insert_new_def)

lemma dict_wf_insert_new [simp]: "dict_wf d \<Longrightarrow> dict_wf (insert_new k v d)"
  by (simp add: insert_new_def)

lemma dict_get_insert_new [simp]:
  "dict_get (insert_new k v d) k' = (if k' = k \<and> k \<notin> set (dict_keys d) then Some v else dict_get d k')"
  by (auto simp: insert_new_def map_add_def dict_get_None_iff simp del: set_map split: option.splits)
    (metis dict_get_None_iff option.distinct(1))+

lemma fresh_command_Ok:
  assumes "fresh_command H sc a c k p st rv q pr ps rd s = (Inr rc, t)"
  obtains eid body e where "revision_of s st = rv" "rc = \<lparr>rc_revision = rv + 1, rc_event_id = eid, rc_idempotent_replay = False\<rparr>"
    "digest H (obj_dict [(''stream'', PStr st), (''payload'', obj_dict p), (''key'', PStr k)]) = Inr eid"
    "canonical_bytes H (obj_dict [(''revision'', PInt (rv + 1))]) = Inr body"
    "raw_digest H body \<in> set (dict_keys (lg_artifacts s)) \<or> sc \<in> set (dict_keys (lg_scopes s))"
    "ev_event_id e = eid" "ev_stream_id e = st" "ev_position e = next_position s st"
    "ev_payload_digest e = raw_digest H body" "event_fits e (store_blob H sc body s)"
    "q \<longrightarrow> eid \<notin> set (dict_keys (lg_outbox s))"
    "t = (if q then add_job eid sc (raw_digest H body) else id)
       (add_request (sc, a, c, k) rd (raw_digest H body) (set_revision st (rv + 1) (append_event e (store_blob H sc body s))))"
proof -
  let ?pseq = "case ps of Some n \<Rightarrow> n
    | None \<Rightarrow> max_or (-1) (map ev_producer_seq [e \<leftarrow> lg_events s. ev_producer e = pr]) + 1"
  from assms obtain eid body where ids: "revision_of s st = rv"
    "digest H (obj_dict [(''stream'', PStr st), (''payload'', obj_dict p), (''key'', PStr k)]) = Inr eid"
    "canonical_bytes H (obj_dict [(''revision'', PInt (rv + 1))]) = Inr body"
    by (auto simp: fresh_command_def Let_def result_simps split: if_splits)
  define e where "e = \<lparr>ev_seq = 0, ev_event_id = eid, ev_stream_id = st, ev_position = next_position s st, ev_producer = pr,
    ev_producer_seq = ?pseq, ev_kind = c, ev_payload_digest = raw_digest H body, ev_observation_kind = ''control''\<rparr>"
  let ?u = "set_revision st (rv + 1) (append_event e (store_blob H sc body s))"
  let ?v = "add_request (sc, a, c, k) rd (raw_digest H body) ?u"
  have outbox: "lg_outbox ?v = lg_outbox s"
    by (simp add: add_request_def set_revision_def append_event_def store_blob_def Let_def split: option.split)
  from assms ids have art: "raw_digest H body \<in> set (dict_keys (lg_artifacts s)) \<or> sc \<in> set (dict_keys (lg_scopes s))"
    by (auto simp: fresh_command_def Let_def put_artifact_def obind_def simp del: set_map split: if_splits)
  then have put: "put_artifact H sc body s = (Inr (raw_digest H body), store_blob H sc body s)"
    by (auto simp: put_artifact_def)
  have fits: "event_fits e (store_blob H sc body s)"
    using assms ids put by (auto simp: fresh_command_def Let_def insert_event_def obind_def e_def simp del: set_map split: if_splits)
  then have ins: "insert_event e (store_blob H sc body s) = (Inr (lg_next_seq (store_blob H sc body s)),
      append_event e (store_blob H sc body s))"
    by (simp add: insert_event_def)
  have rest: "obind (if q then enqueue_job eid sc (raw_digest H body) else oret ())
      (\<lambda>_. oret \<lparr>rc_revision = rv + 1, rc_event_id = eid, rc_idempotent_replay = False\<rparr>) ?v = (Inr rc, t)"
    using assms ids put ins by (simp add: fresh_command_def Let_def obind_def e_def)
  then have "q \<longrightarrow> eid \<notin> set (dict_keys (lg_outbox s))"
    by (auto simp: obind_def enqueue_job_def outbox simp del: set_map split: if_splits)
  moreover from this have "t = (if q then add_job eid sc (raw_digest H body) else id) ?v"
    "rc = \<lparr>rc_revision = rv + 1, rc_event_id = eid, rc_idempotent_replay = False\<rparr>"
    using rest by (cases q; auto simp: obind_def enqueue_job_def outbox simp del: set_map)+
  moreover have "ev_event_id e = eid" "ev_stream_id e = st" "ev_position e = next_position s st"
    "ev_payload_digest e = raw_digest H body" by (simp_all add: e_def)
  ultimately show thesis using that [of eid body e] ids art fits by blast
qed

lemma require_scope_Ok [simp]: "require_scope sc st s = (Inr u, t) \<longleftrightarrow> stream_scope s st = Some sc \<and> t = s"
  by (auto simp: require_scope_def split: option.splits)

lemma require_scope_eval: "stream_scope s st = Some sc \<Longrightarrow> require_scope sc st s = (Inr (), s)"
  by simp

text \<open>The three ways a command ends: refused, a replay, or a fresh command; only the last writes.\<close>

lemma execute_command_cases:
  assumes "execute_command H sc a c k p st rv q pr ps s = (r, t)"
  obtains (refused) e where "r = Inl e" "t = s"
  | (replayed) rd resp where "r = Inr \<lparr>rc_revision = revision_of s st, rc_event_id = [], rc_idempotent_replay = True\<rparr>" "t = s"
      "request_digest_of H a c p rv = Inr rd" "dict_get (lg_requests s) (sc, a, c, k) = Some (rd, resp)"
      "stream_scope s st = Some sc"
  | (fresh) rd rc where "r = Inr rc" "fresh_command H sc a c k p st rv q pr ps rd s = (Inr rc, t)"
      "request_digest_of H a c p rv = Inr rd" "dict_get (lg_requests s) (sc, a, c, k) = None" "stream_scope s st = Some sc"
proof (cases r)
  case (Inl e)
  with assms have "t = s"
    by (auto simp: execute_command_def result_simps split: if_splits dest: tx_err_unchanged)
  with Inl refused show thesis by blast
next
  case (Inr rc)
  with assms obtain rd where rd: "request_digest_of H a c p rv = Inr rd" and scope: "stream_scope s st = Some sc"
    and rest: "(case dict_get (lg_requests s) (sc, a, c, k) of
        Some (old, response) \<Rightarrow>
          if old \<noteq> rd then olift (raise ''IDEMPOTENCY_CONFLICT'' k)
          else oret \<lparr>rc_revision = revision_of s st, rc_event_id = [], rc_idempotent_replay = True\<rparr>
      | None \<Rightarrow> fresh_command H sc a c k p st rv q pr ps rd) s = (Inr rc, t)"
    by (auto simp: execute_command_def tx_Ok_iff result_simps simp del: not_None_eq split: if_splits)
  show thesis
  proof (cases "dict_get (lg_requests s) (sc, a, c, k)")
    case None
    with rest fresh [OF Inr _ rd None scope] show thesis by simp
  next
    case (Some old)
    then obtain od resp where old: "dict_get (lg_requests s) (sc, a, c, k) = Some (od, resp)" by (cases old) simp
    with rest have "od = rd" "rc = \<lparr>rc_revision = revision_of s st, rc_event_id = [], rc_idempotent_replay = True\<rparr>" "t = s"
      by (auto split: if_splits)
    with replayed [OF _ _ rd _ scope] old Inr show thesis by blast
  qed
qed

lemma record_observation_cases:
  assumes "record_observation_in H sc st pr ps p k ok s = (Inr n, t)"
  obtains (seen) e where "e \<in> set (lg_events s)" "n = ev_seq e" "t = s"
  | (appended) e body where "n = lg_next_seq s" "stream_scope s st = Some sc"
      "raw_digest H body \<in> set (dict_keys (lg_artifacts s)) \<or> sc \<in> set (dict_keys (lg_scopes s))"
      "ev_stream_id e = st" "ev_position e = next_position s st" "event_fits e (store_blob H sc body s)"
      "t = append_event e (store_blob H sc body s)"
proof -
  from assms obtain data where data: "canonical_bytes H (obj_dict p) = Inr data" and scope: "stream_scope s st = Some sc"
    by (auto simp: record_observation_in_def result_simps split: if_splits)
  show thesis
  proof (cases "List.find (\<lambda>e. ev_producer e = pr \<and> ev_producer_seq e = ps) (lg_events s)")
    case (Some e)
    then have "e \<in> set (lg_events s)" by (auto dest: find_Some_in)
    moreover from assms Some data scope have "n = ev_seq e" "t = s"
      by (auto simp: record_observation_in_def obind_def require_scope_eval split: if_splits)
    ultimately show thesis using seen by blast
  next
    case None
    with assms data scope obtain eid where eid:
      "digest H (obj_dict [(''producer'', PStr pr), (''seq'', PInt ps), (''payload'', obj_dict p)]) = Inr eid"
      by (auto simp: record_observation_in_def require_scope_eval obind_Ok_iff)
    define e where "e = \<lparr>ev_seq = 0, ev_event_id = eid, ev_stream_id = st, ev_position = next_position s st,
      ev_producer = pr, ev_producer_seq = ps, ev_kind = k, ev_payload_digest = raw_digest H data, ev_observation_kind = ok\<rparr>"
    from assms None data scope eid have art:
      "raw_digest H data \<in> set (dict_keys (lg_artifacts s)) \<or> sc \<in> set (dict_keys (lg_scopes s))"
      by (auto simp: record_observation_in_def require_scope_eval put_artifact_def obind_def simp del: set_map split: if_splits)
    then have put: "put_artifact H sc data s = (Inr (raw_digest H data), store_blob H sc data s)"
      by (auto simp: put_artifact_def)
    have ins: "insert_event e (store_blob H sc data s) = (Inr n, t)"
      using assms None data scope eid put
      by (simp add: record_observation_in_def require_scope_eval obind_def e_def del: set_map)
    moreover have "lg_next_seq (store_blob H sc data s) = lg_next_seq s" by (simp add: store_blob_def Let_def)
    ultimately have "event_fits e (store_blob H sc data s)" "n = lg_next_seq s" "t = append_event e (store_blob H sc data s)"
      by (auto simp: insert_event_def split: if_splits)
    with appended [of data e] scope art show thesis by (simp add: e_def)
  qed
qed

section \<open>The ledger's invariant\<close>

definition stream_events :: "Event list \<Rightarrow> string \<Rightarrow> Event list" where
  "stream_events es stream_id = [e \<leftarrow> es. ev_stream_id e = stream_id]"

text \<open>
  The event table: unique ids and producer positions, increasing sequence numbers, and in each stream the
  positions one, two, three and so on without a gap.
\<close>

definition log_ok :: "Event list \<Rightarrow> int \<Rightarrow> bool" where
  "log_ok es n \<longleftrightarrow> distinct (map ev_event_id es) \<and> distinct (map (\<lambda>e. (ev_producer e, ev_producer_seq e)) es) \<and>
     sorted_wrt (<) (map ev_seq es) \<and> (\<forall>e \<in> set es. ev_seq e < n) \<and>
     (\<forall>k. map ev_position (stream_events es k) = map int [1..<Suc (length (stream_events es k))])"

definition tables_wf :: "Ledger \<Rightarrow> bool" where
  "tables_wf s \<longleftrightarrow> dict_wf (lg_scopes s) \<and> dict_wf (lg_streams s) \<and> dict_wf (lg_artifacts s) \<and> dict_wf (lg_blobs s) \<and>
     dict_wf (lg_requests s) \<and> dict_wf (lg_outbox s)"

text \<open>Every blob is stored under the digest of its bytes, and every artifact has its blob.\<close>

definition blobs_ok :: "hash_env \<Rightarrow> Ledger \<Rightarrow> bool" where
  "blobs_ok H s \<longleftrightarrow> set (dict_keys (lg_blobs s)) = set (dict_keys (lg_artifacts s)) \<and>
     (\<forall>raw sc body. dict_get (lg_blobs s) raw = Some (sc, body) \<longrightarrow> raw = raw_digest H body)"

text \<open>No row refers to a missing one; a stream's revision never exceeds the number of its events.\<close>

definition refs_ok :: "Ledger \<Rightarrow> bool" where
  "refs_ok s \<longleftrightarrow>
     (\<forall>k r. dict_get (lg_streams s) k = Some r \<longrightarrow> st_scope_id r \<in> set (dict_keys (lg_scopes s)) \<and>
        0 \<le> st_revision r \<and> st_revision r \<le> int (length (stream_events (lg_events s) k))) \<and>
     (\<forall>e \<in> set (lg_events s). ev_stream_id e \<in> set (dict_keys (lg_streams s)) \<and>
        ev_payload_digest e \<in> set (dict_keys (lg_artifacts s))) \<and>
     (\<forall>k rd resp. dict_get (lg_requests s) k = Some (rd, resp) \<longrightarrow> resp \<in> set (dict_keys (lg_artifacts s))) \<and>
     (\<forall>k j. dict_get (lg_outbox s) k = Some j \<longrightarrow> jb_event_id j = k \<and> k \<in> ev_event_id ` set (lg_events s) \<and>
        jb_scope_id j \<in> set (dict_keys (lg_scopes s)) \<and> jb_payload_digest j \<in> set (dict_keys (lg_artifacts s)))"

definition ledger_ok :: "hash_env \<Rightarrow> Ledger \<Rightarrow> bool" where
  "ledger_ok H s \<longleftrightarrow> tables_wf s \<and> blobs_ok H s \<and> log_ok (lg_events s) (lg_next_seq s) \<and> refs_ok s"

lemmas ledger_ok_defs = ledger_ok_def tables_wf_def blobs_ok_def refs_ok_def

lemma empty_ledger_ok [simp]: "ledger_ok H empty_ledger"
  by (simp add: ledger_ok_defs empty_ledger_def log_ok_def stream_events_def)

lemma stream_events_append [simp]:
  "stream_events (es @ [e]) k = stream_events es k @ (if ev_stream_id e = k then [e] else [])"
  by (simp add: stream_events_def)

lemma max_or_upto: "max_or 0 (map int [1..<Suc n]) = int n"
proof (cases n)
  case (Suc m)
  have "Max (int ` set [1..<Suc n]) = int n"
    by (rule Max_eqI) (auto simp: Suc image_iff)
  with Suc show ?thesis by (simp add: max_or_def del: upt_Suc)
qed (simp add: max_or_def)

lemma next_position_eq: "log_ok (lg_events s) n \<Longrightarrow> next_position s k = int (length (stream_events (lg_events s) k)) + 1"
  using max_or_upto by (simp add: next_position_def log_ok_def stream_events_def del: upt_Suc)

lemma log_ok_append:
  assumes "log_ok es n" "ev_event_id e \<notin> ev_event_id ` set es"
    "(ev_producer e, ev_producer_seq e) \<notin> (\<lambda>e. (ev_producer e, ev_producer_seq e)) ` set es"
    "ev_position e = int (length (stream_events es (ev_stream_id e))) + 1" "ev_seq e = n"
  shows "log_ok (es @ [e]) (n + 1)"
  using assms by (auto simp: log_ok_def sorted_wrt_append del: upt_Suc)

lemma store_blob_sel [simp]:
  "lg_scopes (store_blob H sc b s) = lg_scopes s" "lg_streams (store_blob H sc b s) = lg_streams s"
  "lg_events (store_blob H sc b s) = lg_events s" "lg_next_seq (store_blob H sc b s) = lg_next_seq s"
  "lg_requests (store_blob H sc b s) = lg_requests s" "lg_outbox (store_blob H sc b s) = lg_outbox s"
  "set (dict_keys (lg_artifacts (store_blob H sc b s))) = insert (raw_digest H b) (set (dict_keys (lg_artifacts s)))"
  "set (dict_keys (lg_blobs (store_blob H sc b s))) = insert (raw_digest H b) (set (dict_keys (lg_blobs s)))"
  by (simp_all add: store_blob_def Let_def del: set_map)

lemma append_event_sel [simp]:
  "lg_scopes (append_event e s) = lg_scopes s" "lg_streams (append_event e s) = lg_streams s"
  "lg_artifacts (append_event e s) = lg_artifacts s" "lg_blobs (append_event e s) = lg_blobs s"
  "lg_requests (append_event e s) = lg_requests s" "lg_outbox (append_event e s) = lg_outbox s"
  "lg_events (append_event e s) = lg_events s @ [e\<lparr>ev_seq := lg_next_seq s\<rparr>]"
  "lg_next_seq (append_event e s) = lg_next_seq s + 1"
  by (simp_all add: append_event_def)

lemma store_blob_ok: "ledger_ok H s \<Longrightarrow> ledger_ok H (store_blob H sc b s)"
proof -
  assume ok: "ledger_ok H s"
  have "tables_wf (store_blob H sc b s)"
    using ok by (auto simp: ledger_ok_def tables_wf_def store_blob_def Let_def)
  moreover have "dict_get (lg_blobs (store_blob H sc b s)) raw = Some (o', body) \<Longrightarrow> raw = raw_digest H body" for raw o' body
    using ok unfolding store_blob_def Let_def ledger_ok_def blobs_ok_def
    by (cases "raw = raw_digest H b") (auto simp del: set_map split: if_splits)
  then have "blobs_ok H (store_blob H sc b s)" using ok by (simp add: ledger_ok_def blobs_ok_def del: set_map)
  moreover have "refs_ok (store_blob H sc b s)"
    using ok unfolding ledger_ok_def refs_ok_def store_blob_sel by blast
  ultimately show ?thesis using ok by (simp add: ledger_ok_def)
qed

lemma append_event_ok:
  assumes ok: "ledger_ok H s" and fits: "event_fits e s" and pos: "ev_position e = next_position s (ev_stream_id e)"
  shows "ledger_ok H (append_event e s)"
proof -
  let ?e = "e\<lparr>ev_seq := lg_next_seq s\<rparr>"
  have log: "log_ok (lg_events s) (lg_next_seq s)" using ok by (simp add: ledger_ok_def)
  have "log_ok (lg_events s @ [?e]) (lg_next_seq s + 1)"
    using fits pos next_position_eq [OF log] by (intro log_ok_append [OF log]) (simp_all add: event_fits_def)
  moreover have "refs_ok (append_event e s)"
    unfolding refs_ok_def append_event_sel
  proof (intro conjI allI impI ballI)
    fix k r
    assume "dict_get (lg_streams s) k = Some r"
    with ok show "st_scope_id r \<in> set (dict_keys (lg_scopes s))" "0 \<le> st_revision r"
      "st_revision r \<le> int (length (stream_events (lg_events s @ [?e]) k))"
      unfolding ledger_ok_def refs_ok_def by fastforce+
  next
    fix x
    assume "x \<in> set (lg_events s @ [?e])"
    with ok fits show "ev_stream_id x \<in> set (dict_keys (lg_streams s))" "ev_payload_digest x \<in> set (dict_keys (lg_artifacts s))"
      by (auto simp: ledger_ok_def refs_ok_def event_fits_def simp del: set_map)
  qed (use ok in \<open>auto simp: ledger_ok_def refs_ok_def simp del: set_map\<close>)
  ultimately show ?thesis using ok by (simp add: ledger_ok_def tables_wf_def blobs_ok_def)
qed

lemma set_revision_ok:
  assumes "ledger_ok H s" "0 \<le> n" "n \<le> int (length (stream_events (lg_events s) k))"
  shows "ledger_ok H (set_revision k n s)"
proof (cases "dict_get (lg_streams s) k")
  case (Some r)
  then have k: "k \<in> set (dict_keys (lg_streams s))" by (metis dict_get_None_iff option.distinct(1))
  have r: "st_scope_id r \<in> set (dict_keys (lg_scopes s))"
    using assms(1) Some unfolding ledger_ok_def refs_ok_def by blast
  have keys: "set (dict_keys (dict_set k (r\<lparr>st_revision := n\<rparr>) (lg_streams s))) = set (dict_keys (lg_streams s))"
    using k by (auto simp del: set_map)
  from assms(1) have "refs_ok (s\<lparr>lg_streams := dict_set k (r\<lparr>st_revision := n\<rparr>) (lg_streams s)\<rparr>)"
    using assms(2,3) r unfolding ledger_ok_def refs_ok_def by (simp add: keys del: set_map)
  with assms(1) Some show ?thesis by (simp add: set_revision_def ledger_ok_def tables_wf_def blobs_ok_def distinct_update)
qed (simp add: set_revision_def assms)

lemma set_revision_sel [simp]:
  "lg_scopes (set_revision k n s) = lg_scopes s" "lg_artifacts (set_revision k n s) = lg_artifacts s"
  "lg_blobs (set_revision k n s) = lg_blobs s" "lg_events (set_revision k n s) = lg_events s"
  "lg_requests (set_revision k n s) = lg_requests s" "lg_outbox (set_revision k n s) = lg_outbox s"
  "lg_next_seq (set_revision k n s) = lg_next_seq s"
  by (simp_all add: set_revision_def split: option.split)

lemma add_request_ok:
  "ledger_ok H s \<Longrightarrow> resp \<in> set (dict_keys (lg_artifacts s)) \<Longrightarrow> ledger_ok H (add_request key rd resp s)"
  by (simp add: ledger_ok_defs add_request_def distinct_update del: set_map)

lemma add_job_ok:
  "ledger_ok H s \<Longrightarrow> eid \<in> ev_event_id ` set (lg_events s) \<Longrightarrow> sc \<in> set (dict_keys (lg_scopes s)) \<Longrightarrow>
     raw \<in> set (dict_keys (lg_artifacts s)) \<Longrightarrow> ledger_ok H (add_job eid sc raw s)"
  by (simp add: ledger_ok_defs add_job_def distinct_update del: set_map)

lemma scope_registered: "ledger_ok H s \<Longrightarrow> stream_scope s st = Some sc \<Longrightarrow> sc \<in> set (dict_keys (lg_scopes s))"
  by (auto simp: stream_scope_def ledger_ok_def refs_ok_def simp del: set_map)

lemma revision_bound:
  "ledger_ok H s \<Longrightarrow> 0 \<le> revision_of s k \<and> revision_of s k \<le> int (length (stream_events (lg_events s) k))"
  by (auto simp: revision_of_def ledger_ok_def refs_ok_def split: option.split)

lemma execute_command_ok:
  assumes "execute_command H sc a c k p st rv q pr ps s = (r, t)" "ledger_ok H s"
  shows "ledger_ok H t"
  using assms(1)
proof (cases rule: execute_command_cases)
  case (fresh rd rc)
  obtain eid body e where f: "revision_of s st = rv" "ev_event_id e = eid" "ev_stream_id e = st"
    "ev_position e = next_position s st" "ev_payload_digest e = raw_digest H body" "event_fits e (store_blob H sc body s)"
    "t = (if q then add_job eid sc (raw_digest H body) else id)
       (add_request (sc, a, c, k) rd (raw_digest H body) (set_revision st (rv + 1) (append_event e (store_blob H sc body s))))"
    by (rule fresh_command_Ok [OF fresh(2)])
  let ?u = "append_event e (store_blob H sc body s)"
  have "next_position (store_blob H sc body s) st = next_position s st" by (simp add: next_position_def)
  then have "ledger_ok H ?u" using f by (intro append_event_ok store_blob_ok assms(2)) simp_all
  then have "ledger_ok H (set_revision st (rv + 1) ?u)"
    using revision_bound [OF assms(2), of st] f(1,3) by (intro set_revision_ok) auto
  then have "ledger_ok H (add_request (sc, a, c, k) rd (raw_digest H body) (set_revision st (rv + 1) ?u))"
    by (rule add_request_ok) (simp del: set_map)
  then show ?thesis
    unfolding f(7) using f(2) scope_registered [OF assms(2) fresh(5)]
    by (auto intro!: add_job_ok simp: add_request_def simp del: set_map)
qed (use assms in auto)

lemma record_observation_ok:
  assumes "record_observation H sc st pr ps p k ok s = (r, t)" "ledger_ok H s"
  shows "ledger_ok H t"
proof (cases r)
  case (Inr n)
  with assms(1) have "record_observation_in H sc st pr ps p k ok s = (Inr n, t)"
    by (simp add: record_observation_def tx_Ok_iff)
  then show ?thesis
  proof (cases rule: record_observation_cases)
    case (appended e body)
    have "next_position (store_blob H sc body s) st = next_position s st" by (simp add: next_position_def)
    with appended show ?thesis by (auto intro!: append_event_ok store_blob_ok assms(2))
  qed (use assms in simp)
qed (use assms in \<open>auto simp: record_observation_def dest!: tx_err_unchanged\<close>)

lemma stream_events_purged:
  "stream_events [e \<leftarrow> es. ev_stream_id e \<noteq> k] k' = (if k' = k then [] else stream_events es k')"
  by (induction es) (auto simp: stream_events_def)

lemma log_ok_purged: "log_ok es n \<Longrightarrow> log_ok [e \<leftarrow> es. ev_stream_id e \<noteq> k] n"
  unfolding log_ok_def stream_events_purged
  by (auto simp: distinct_map_filter sorted_wrt_map sorted_wrt_filter simp del: upt_Suc)

lemma keys_dict_del: "set (dict_keys (dict_del k d)) = set (dict_keys d) - {k}"
  by (auto simp: AList.delete_eq)

lemma purge_stream_ok:
  assumes ok: "ledger_ok H s"
  shows "ledger_ok H (purge_stream at k s)"
proof -
  let ?t = "purge_stream at k s"
  have sel: "lg_scopes ?t = lg_scopes s" "lg_artifacts ?t = lg_artifacts s" "lg_blobs ?t = lg_blobs s"
    "lg_requests ?t = lg_requests s" "lg_next_seq ?t = lg_next_seq s"
    "lg_events ?t = [e \<leftarrow> lg_events s. ev_stream_id e \<noteq> k]" "lg_streams ?t = dict_del k (lg_streams s)"
    by (simp_all add: purge_stream_def Let_def)
  have outbox: "dict_get (lg_outbox ?t) j = Some r \<Longrightarrow> dict_get (lg_outbox s) j = Some r \<and>
      jb_event_id r \<notin> ev_event_id ` set [e \<leftarrow> lg_events s. ev_stream_id e = k]" for j r
    using ok by (auto simp: purge_stream_def Let_def ledger_ok_def tables_wf_def dict_get_iff_in distinct_map_filter)
  have wf: "tables_wf ?t"
    using ok by (simp add: purge_stream_def Let_def ledger_ok_def tables_wf_def distinct_map_filter distinct_delete)
  have "refs_ok ?t"
    unfolding refs_ok_def sel
  proof (intro conjI allI impI ballI)
    fix k' r
    assume "dict_get (dict_del k (lg_streams s)) k' = Some r"
    then have "dict_get (lg_streams s) k' = Some r" "k' \<noteq> k" by (auto split: if_splits)
    with ok show "st_scope_id r \<in> set (dict_keys (lg_scopes s))" "0 \<le> st_revision r"
      "st_revision r \<le> int (length (stream_events [e \<leftarrow> lg_events s. ev_stream_id e \<noteq> k] k'))"
      unfolding ledger_ok_def refs_ok_def stream_events_purged by auto
  next
    fix e
    assume "e \<in> set [e \<leftarrow> lg_events s. ev_stream_id e \<noteq> k]"
    with ok show "ev_stream_id e \<in> set (dict_keys (dict_del k (lg_streams s)))"
      "ev_payload_digest e \<in> set (dict_keys (lg_artifacts s))"
      unfolding keys_dict_del ledger_ok_def refs_ok_def by auto
  next
    fix j r
    assume "dict_get (lg_outbox ?t) j = Some r"
    from outbox [OF this] ok have r: "jb_event_id r = j" "jb_scope_id r \<in> set (dict_keys (lg_scopes s))"
      "jb_payload_digest r \<in> set (dict_keys (lg_artifacts s))" "j \<in> ev_event_id ` set (lg_events s)"
      "jb_event_id r \<notin> ev_event_id ` set [e \<leftarrow> lg_events s. ev_stream_id e = k]"
      unfolding ledger_ok_def refs_ok_def by blast+
    show "jb_event_id r = j" "jb_scope_id r \<in> set (dict_keys (lg_scopes s))"
      "jb_payload_digest r \<in> set (dict_keys (lg_artifacts s))" by (fact r)+
    from r(4) obtain e where "e \<in> set (lg_events s)" "j = ev_event_id e" by blast
    moreover from this r(1,5) have "ev_stream_id e \<noteq> k" by auto
    ultimately show "j \<in> ev_event_id ` set [e \<leftarrow> lg_events s. ev_stream_id e \<noteq> k]" by auto
  qed (use ok in \<open>auto simp: ledger_ok_def refs_ok_def simp del: set_map\<close>)
  with wf ok show ?thesis by (simp add: ledger_ok_def blobs_ok_def sel log_ok_purged)
qed

lemma create_stream_ok:
  assumes "create_stream sc st ty s = (r, t)" "ledger_ok H s"
  shows "ledger_ok H t"
proof (cases r)
  case (Inr u)
  with assms(1) have sc: "sc \<in> set (dict_keys (lg_scopes s))" and new: "st \<notin> set (dict_keys (lg_streams s))"
    and t: "t = s\<lparr>lg_streams := dict_set st \<lparr>st_scope_id = sc, st_revision = 0, st_entity_type = ty, st_status = ''open''\<rparr>
       (lg_streams s)\<rparr>"
    by (auto simp: create_stream_def tx_Ok_iff simp del: set_map split: if_splits)
  show ?thesis using assms(2) sc unfolding t ledger_ok_defs by (auto simp: distinct_update simp del: set_map split: if_splits)
qed (use assms in \<open>auto simp: create_stream_def dest!: tx_err_unchanged\<close>)

lemma register_scope_ok:
  assumes "register_scope H te us wo s = (r, t)" "ledger_ok H s"
  shows "ledger_ok H t"
proof -
  have "ledger_ok H (s\<lparr>lg_scopes := insert_new k v (lg_scopes s)\<rparr>)" for k v
    using assms(2) unfolding ledger_ok_defs by (simp del: set_map)
  with assms show ?thesis
    by (auto simp: register_scope_def obind_def tx_def split: if_splits sum.splits prod.splits)
qed

lemma mark_blocked_ok:
  assumes "mark_blocked st reason s = (r, t)" "ledger_ok H s"
  shows "ledger_ok H t"
proof -
  have "ledger_ok H (s\<lparr>lg_audit := x\<rparr>)" for x using assms(2) by (simp add: ledger_ok_defs)
  moreover have "ledger_ok H (s\<lparr>lg_streams := dict_set st (q\<lparr>st_status := ''blocked''\<rparr>) (lg_streams s), lg_audit := x\<rparr>)"
    if "dict_get (lg_streams s) st = Some q" for q x
  proof -
    have "st \<in> set (dict_keys (lg_streams s))" using that by (metis dict_get_None_iff option.distinct(1))
    then have "set (dict_keys (dict_set st (q\<lparr>st_status := ''blocked''\<rparr>) (lg_streams s))) = set (dict_keys (lg_streams s))"
      by (auto simp del: set_map)
    with assms(2) that show ?thesis
      unfolding ledger_ok_defs by (auto simp: distinct_update simp del: set_map split: if_splits)
  qed
  ultimately show ?thesis using assms(1) by (auto simp: mark_blocked_def tx_def split: option.splits)
qed

end
