(* ===== verification/Leases.thy ===== *)
theory Leases
  imports Prelude
begin

text \<open>
  The contract of fenced leases, which \<open>Dispatcher\<close> (\<open>workflow/dispatch.py\<close>) and \<open>TeamCoordinator\<close>
  (\<open>workflow/coordination.py\<close>) share. \<open>owner s k\<close> is the worker and the fence that may settle \<open>k\<close> in \<open>s\<close>;
  \<open>issued s k\<close> the highest fence handed out so far. A call only raises \<open>issued\<close>, and whoever becomes owner
  holds a fence above all issued before. What follows: a lease once lost never comes back, and a fence
  names one owner forever.
\<close>

locale fenced_leases =
  fixes owner :: "'s \<Rightarrow> 'k \<Rightarrow> ('w \<times> int) option"
    and issued :: "'s \<Rightarrow> 'k \<Rightarrow> int"
    and call :: "'s \<Rightarrow> 's \<Rightarrow> bool"
  assumes issued_mono: "call s t \<Longrightarrow> issued s k \<le> issued t k"
    and owner_fresh: "call s t \<Longrightarrow> owner t k = Some (w, f) \<Longrightarrow>
      owner s k = Some (w, f) \<or> issued s k < f \<and> f \<le> issued t k"
begin

lemma issued_mono_calls: "call\<^sup>*\<^sup>* s t \<Longrightarrow> issued s k \<le> issued t k"
  by (induction rule: rtranclp_induct) (auto dest: issued_mono [where k = k])

lemma owner_calls:
  "call\<^sup>*\<^sup>* s t \<Longrightarrow> owner t k = Some (w, f) \<Longrightarrow> owner s k = Some (w, f) \<or> issued s k < f \<and> f \<le> issued t k"
proof (induction rule: rtranclp_induct)
  case (step t u)
  have "issued t k \<le> issued u k" using step.hyps(2) by (rule issued_mono)
  moreover have "issued s k \<le> issued t k" using step.hyps(1) by (rule issued_mono_calls)
  moreover have "owner t k = Some (w, f) \<or> issued t k < f \<and> f \<le> issued u k"
    using step.hyps(2) step.prems by (rule owner_fresh)
  ultimately show ?case using step.IH by auto
qed simp

text \<open>A worker that is no longer the owner under its fence never is again.\<close>

lemma lost_forever:
  "call\<^sup>*\<^sup>* s t \<Longrightarrow> f \<le> issued s k \<Longrightarrow> owner s k \<noteq> Some (w, f) \<Longrightarrow> owner t k \<noteq> Some (w, f)"
  by (auto dest!: owner_calls [of s t k w f])

text \<open>A fence that owns something now is never handed to another worker.\<close>

lemma fence_unique:
  "call\<^sup>*\<^sup>* s t \<Longrightarrow> owner s k = Some (w, f) \<Longrightarrow> f \<le> issued s k \<Longrightarrow> owner t k = Some (w', f) \<Longrightarrow> w' = w"
  by (auto dest!: owner_calls [of s t k w' f])

end

end
