(* ===== verification/Outbox.thy ===== *)
theory Outbox
  imports Ledger Leases
begin

text \<open>
  \<open>sqlite/repository.py\<close>, the outbox: leases with fences over the jobs the commands enqueued, results,
  usage, and the reconciliation of unknown outcomes. \<open>lease_until\<close>, a decimal text in the table, is its
  number here.
\<close>

record Lease =
  ls_job_id :: string
  ls_fence :: int
  ls_lease_until :: int

definition set_job :: "string \<Rightarrow> (Job \<Rightarrow> Job) \<Rightarrow> Ledger \<Rightarrow> Ledger" where
  "set_job job_id f s =
     (case dict_get (lg_outbox s) job_id of
        None \<Rightarrow> s | Some j \<Rightarrow> s\<lparr>lg_outbox := dict_set job_id (f j) (lg_outbox s)\<rparr>)"

definition monotonic_floor :: "Ledger \<Rightarrow> int" where
  "monotonic_floor s = (case lg_lease_floor s of None \<Rightarrow> 0 | Some f \<Rightarrow> f)"

text \<open>The two updates of a claim: the job is leased under the next fence and the floor moves.\<close>

definition lease_job :: "string \<Rightarrow> string \<Rightarrow> int \<Rightarrow> Ledger \<Rightarrow> Ledger" where
  "lease_job job_id owner until s =
     (set_job job_id (\<lambda>j. j\<lparr>jb_state := ''leased'', jb_lease_owner := Some owner, jb_lease_until := Some until,
        jb_fence := jb_fence j + 1\<rparr>) s)\<lparr>lg_lease_floor := Some until\<rparr>"

definition claimable :: "string \<Rightarrow> int \<Rightarrow> Job \<Rightarrow> bool" where
  "claimable scope_id now j \<longleftrightarrow> jb_scope_id j = scope_id \<and>
     (jb_state j = ''pending'' \<or>
      jb_state j = ''leased'' \<and> (case jb_lease_until j of None \<Rightarrow> False | Some t \<Rightarrow> t \<le> now))"

definition claim_outbox :: "string \<Rightarrow> string \<Rightarrow> int \<Rightarrow> int \<Rightarrow> (Ledger, Lease option) op" where
  "claim_outbox scope_id owner now ttl_seconds s =
     (if ttl_seconds \<le> 0 then (raise ''INVALID_LEASE'' ''ttl must be positive'', s)
      else
        let base = max now (monotonic_floor s); until = base + ttl_seconds in
        case sort (map fst [(k, j) \<leftarrow> lg_outbox s. claimable scope_id now j]) of
          [] \<Rightarrow> (Ok None, s)
        | job_id # _ \<Rightarrow>
            (Ok (Some \<lparr>ls_job_id = job_id,
               ls_fence = (case dict_get (lg_outbox s) job_id of None \<Rightarrow> 0 | Some j \<Rightarrow> jb_fence j) + 1,
               ls_lease_until = until\<rparr>), lease_job job_id owner until s))"

definition claim_job :: "string \<Rightarrow> string \<Rightarrow> string \<Rightarrow> int \<Rightarrow> int \<Rightarrow> (Ledger, Lease option) op" where
  "claim_job scope_id job_id owner now ttl_seconds s =
     (if ttl_seconds \<le> 0 then (raise ''INVALID_LEASE'' ''ttl must be positive'', s)
      else
        let base = max now (monotonic_floor s); until = base + ttl_seconds in
        case dict_get (lg_outbox s) job_id of
          None \<Rightarrow> (Ok None, s)
        | Some j \<Rightarrow>
            if jb_scope_id j \<noteq> scope_id \<or> jb_state j \<noteq> ''pending'' then (Ok None, s)
            else (Ok (Some \<lparr>ls_job_id = job_id, ls_fence = jb_fence j + 1, ls_lease_until = until\<rparr>),
              lease_job job_id owner until s))"

definition finish_outbox :: "string \<Rightarrow> string \<Rightarrow> int \<Rightarrow> int \<Rightarrow> (Ledger, unit) op" where
  "finish_outbox job_id owner fence now s =
     (case dict_get (lg_outbox s) job_id of
        None \<Rightarrow> (raise ''STALE_LEASE'' job_id, s)
      | Some j \<Rightarrow>
          if jb_lease_owner j = Some owner \<and> jb_fence j = fence \<and> jb_state j = ''leased'' \<and>
            (case jb_lease_until j of None \<Rightarrow> False | Some t \<Rightarrow> t > now)
          then (Ok (), set_job job_id (jb_state_update (\<lambda>_. ''completed'')) s)
          else (raise ''STALE_LEASE'' job_id, s))"

definition bill_usage :: "string \<Rightarrow> int \<Rightarrow> Ledger \<Rightarrow> Ledger" where
  "bill_usage job_id units s = s\<lparr>lg_usage := insert_new job_id units (lg_usage s)\<rparr>"

text \<open>\<open>submit_result\<close> and \<open>fail_job\<close> differ in the state they write and the word they return.\<close>

definition settle_job :: "string \<Rightarrow> string \<Rightarrow> string \<Rightarrow> string \<Rightarrow> int \<Rightarrow> int \<Rightarrow> (Ledger, string) op" where
  "settle_job new_state word job_id owner fence usage_units = tx (\<lambda>s.
     let s = bill_usage job_id usage_units s in
     case dict_get (lg_outbox s) job_id of
       None \<Rightarrow> (raise ''MISSING_JOB'' job_id, s)
     | Some j \<Rightarrow>
         if jb_fence j \<noteq> fence \<or> jb_state j \<noteq> ''leased'' \<or> jb_lease_owner j \<noteq> Some owner then (Ok ''stale'', s)
         else (Ok word, set_job job_id (jb_state_update (\<lambda>_. new_state)) s))"

definition submit_result :: "string \<Rightarrow> string \<Rightarrow> int \<Rightarrow> int \<Rightarrow> (Ledger, string) op" where
  "submit_result = settle_job ''completed'' ''applied''"

definition fail_job :: "string \<Rightarrow> string \<Rightarrow> int \<Rightarrow> int \<Rightarrow> (Ledger, string) op" where
  "fail_job = settle_job ''failed'' ''recorded''"

definition record_usage :: "string \<Rightarrow> int \<Rightarrow> (Ledger, unit) op" where
  "record_usage job_id usage_units = tx (oput (bill_usage job_id usage_units))"

definition cancel_job :: "string \<Rightarrow> string \<Rightarrow> (Ledger, unit) op" where
  "cancel_job scope_id job_id = tx (oput (set_job job_id (\<lambda>j.
     if jb_scope_id j = scope_id then j\<lparr>jb_state := ''cancelled''\<rparr> else j)))"

definition job_state :: "Ledger \<Rightarrow> string \<Rightarrow> string" where
  "job_state s job_id = (case dict_get (lg_outbox s) job_id of None \<Rightarrow> ''missing'' | Some j \<Rightarrow> jb_state j)"

definition mark_job_unknown :: "string \<Rightarrow> (Ledger, unit) op" where
  "mark_job_unknown job_id = tx (oput (set_job job_id (\<lambda>j.
     if jb_state j = ''leased'' then j\<lparr>jb_state := ''unknown''\<rparr> else j)))"

definition reconcile_unknown :: "string \<Rightarrow> string \<Rightarrow> (Ledger, string) op" where
  "reconcile_unknown job_id disposition =
     (if disposition \<notin> {''requeue'', ''discard'', ''kept_unknown''} then olift (raise ''INVALID_DISPOSITION'' disposition)
      else tx (\<lambda>s. (Ok disposition,
        if disposition = ''requeue'' then
          set_job job_id (\<lambda>j. if jb_state j = ''unknown'' then j\<lparr>jb_state := ''pending'', jb_lease_owner := None\<rparr> else j) s
        else if disposition = ''discard'' then
          set_job job_id (\<lambda>j. if jb_state j = ''unknown'' then j\<lparr>jb_state := ''failed''\<rparr> else j) s
        else s)))"

definition export_lag :: "Ledger \<Rightarrow> string \<Rightarrow> int" where
  "export_lag s scope_id = int (length [(k, j) \<leftarrow> lg_outbox s. jb_scope_id j = scope_id \<and>
     jb_state j \<in> {''pending'', ''leased'', ''unknown''}])"

section \<open>Fences\<close>

definition job_owner :: "Ledger \<Rightarrow> string \<Rightarrow> (string \<times> int) option" where
  "job_owner s job_id =
     (case dict_get (lg_outbox s) job_id of
        None \<Rightarrow> None
      | Some j \<Rightarrow> if jb_state j = ''leased'' then map_option (\<lambda>w. (w, jb_fence j)) (jb_lease_owner j) else None)"

definition fence_of :: "Ledger \<Rightarrow> string \<Rightarrow> int" where
  "fence_of s job_id = (case dict_get (lg_outbox s) job_id of None \<Rightarrow> -1 | Some j \<Rightarrow> jb_fence j)"

text \<open>The calls on the ledger; deleting a stream and restoring a backup stand apart.\<close>

inductive ledger_call :: "hash_env \<Rightarrow> Ledger \<Rightarrow> Ledger \<Rightarrow> bool" for H where
  scope: "register_scope H te us wo s = (r, t) \<Longrightarrow> ledger_call H s t"
| stream: "create_stream sc st ty s = (r, t) \<Longrightarrow> ledger_call H s t"
| command: "execute_command H sc a c k p st rv q pr ps s = (r, t) \<Longrightarrow> ledger_call H s t"
| observation: "record_observation H sc st pr ps p k ok s = (r, t) \<Longrightarrow> ledger_call H s t"
| audited: "audit st d s = (r, t) \<Longrightarrow> ledger_call H s t"
| blocked: "mark_blocked st d s = (r, t) \<Longrightarrow> ledger_call H s t"
| claim_any: "claim_outbox sc w now ttl s = (r, t) \<Longrightarrow> ledger_call H s t"
| claim: "claim_job sc j w now ttl s = (r, t) \<Longrightarrow> ledger_call H s t"
| finish: "finish_outbox j w f now s = (r, t) \<Longrightarrow> ledger_call H s t"
| submitted: "submit_result j w f u s = (r, t) \<Longrightarrow> ledger_call H s t"
| failed: "fail_job j w f u s = (r, t) \<Longrightarrow> ledger_call H s t"
| usage: "record_usage j u s = (r, t) \<Longrightarrow> ledger_call H s t"
| cancel: "cancel_job sc j s = (r, t) \<Longrightarrow> ledger_call H s t"
| unknown: "mark_job_unknown j s = (r, t) \<Longrightarrow> ledger_call H s t"
| reconcile: "reconcile_unknown j d s = (r, t) \<Longrightarrow> ledger_call H s t"

text \<open>
  What a call does to the outbox: nothing; a new pending job under fence zero; or one job changed, its
  event, scope and payload kept, either leased under the next fence or moved to another state.
\<close>

definition job_moved :: "Job \<Rightarrow> Job \<Rightarrow> bool" where
  "job_moved j j' \<longleftrightarrow> jb_event_id j' = jb_event_id j \<and> jb_scope_id j' = jb_scope_id j \<and>
     jb_payload_digest j' = jb_payload_digest j \<and>
     (jb_state j' = ''leased'' \<and> jb_fence j' = jb_fence j + 1 \<or>
      jb_fence j' = jb_fence j \<and> (j' = j \<or> jb_state j' \<noteq> ''leased''))"

inductive outbox_step :: "(string, Job) dict \<Rightarrow> (string, Job) dict \<Rightarrow> bool" where
  same: "outbox_step d d"
| added: "k \<notin> set (dict_keys d) \<Longrightarrow> jb_state j = ''pending'' \<Longrightarrow> jb_fence j = 0 \<Longrightarrow> outbox_step d (dict_set k j d)"
| moved: "dict_get d k = Some j \<Longrightarrow> job_moved j j' \<Longrightarrow> outbox_step d (dict_set k j' d)"

lemma set_job_step:
  "(\<And>j. job_moved j (f j)) \<Longrightarrow> outbox_step (lg_outbox s) (lg_outbox (set_job k f s))"
  by (auto simp: set_job_def intro: outbox_step.intros split: option.split)

lemma bill_usage_sel [simp]: "lg_outbox (bill_usage j u s) = lg_outbox s"
  by (simp add: bill_usage_def)

lemma lease_job_step: "outbox_step (lg_outbox s) (lg_outbox (lease_job k w n s))"
  using set_job_step [of "\<lambda>j. j\<lparr>jb_state := ''leased'', jb_lease_owner := Some w, jb_lease_until := Some n,
        jb_fence := jb_fence j + 1\<rparr>" s k]
  by (simp add: lease_job_def job_moved_def)

lemma settle_job_step:
  assumes "settle_job st word j w f u s = (r, t)" "st \<noteq> ''leased''"
  shows "outbox_step (lg_outbox s) (lg_outbox t)"
proof -
  have "outbox_step (lg_outbox s) (lg_outbox (set_job j (jb_state_update (\<lambda>_. st)) (bill_usage j u s)))"
    using assms(2) set_job_step [of "jb_state_update (\<lambda>_. st)" "bill_usage j u s" j] by (simp add: job_moved_def)
  with assms show ?thesis
    by (auto simp: settle_job_def tx_def Let_def raise_def intro: same split: option.splits if_splits sum.splits prod.splits)
qed

lemma command_step:
  assumes "execute_command H sc a c k p st rv q pr ps s = (r, t)"
  shows "outbox_step (lg_outbox s) (lg_outbox t)"
  using assms
proof (cases rule: execute_command_cases)
  case (fresh rd rc)
  obtain eid body e where f: "q \<longrightarrow> eid \<notin> set (dict_keys (lg_outbox s))"
    "t = (if q then add_job eid sc (raw_digest H body) else id)
       (add_request (sc, a, c, k) rd (raw_digest H body) (set_revision st (rv + 1) (append_event e (store_blob H sc body s))))"
    by (rule fresh_command_Ok [OF fresh(2)])
  have t: "lg_outbox t = (if q then lg_outbox (add_job eid sc (raw_digest H body) s) else lg_outbox s)"
    unfolding f(2) by (simp add: add_job_def add_request_def)
  show ?thesis
  proof (cases q)
    case True
    with f(1) have "eid \<notin> set (dict_keys (lg_outbox s))" by blast
    with t True show ?thesis by (simp add: add_job_def added del: set_map)
  qed (use t same in simp)
qed (simp_all add: same)

lemma observation_outbox: "record_observation H sc st pr ps p k ok s = (r, t) \<Longrightarrow> lg_outbox t = lg_outbox s"
proof (cases r)
  case (Inr n)
  assume "record_observation H sc st pr ps p k ok s = (r, t)"
  with Inr have "record_observation_in H sc st pr ps p k ok s = (Inr n, t)" by (simp add: record_observation_def tx_Ok_iff)
  then show ?thesis by (cases rule: record_observation_cases) simp_all
qed (auto simp: record_observation_def dest: tx_err_unchanged)

lemma call_outbox: "ledger_call H s t \<Longrightarrow> outbox_step (lg_outbox s) (lg_outbox t)"
proof (induction rule: ledger_call.induct)
  case (cancel sc j s r t)
  then show ?case
    using set_job_step [of "\<lambda>j. if jb_scope_id j = sc then j\<lparr>jb_state := ''cancelled''\<rparr> else j" s j]
    by (simp add: cancel_job_def tx_def job_moved_def)
next
  case (unknown j s r t)
  then show ?case
    using set_job_step [of "\<lambda>j. if jb_state j = ''leased'' then j\<lparr>jb_state := ''unknown''\<rparr> else j" s j]
    by (simp add: mark_job_unknown_def tx_def job_moved_def)
next
  case (reconcile j d s r t)
  then show ?case
    using set_job_step [of "\<lambda>j. if jb_state j = ''unknown'' then j\<lparr>jb_state := ''pending'', jb_lease_owner := None\<rparr> else j" s j]
      set_job_step [of "\<lambda>j. if jb_state j = ''unknown'' then j\<lparr>jb_state := ''failed''\<rparr> else j" s j]
    by (auto simp: reconcile_unknown_def tx_def job_moved_def intro: same split: if_splits)
next
  case (finish j w f now s r t)
  then show ?case
    using set_job_step [of "jb_state_update (\<lambda>_. ''completed'')" s j]
    by (auto simp: finish_outbox_def job_moved_def intro: same split: option.splits if_splits)
next
  case (claim_any sc w now ttl s r t)
  then show ?case
    by (auto simp: claim_outbox_def Let_def intro: same lease_job_step split: list.splits if_splits)
next
  case (claim sc j w now ttl s r t)
  then show ?case
    by (auto simp: claim_job_def Let_def intro: same lease_job_step split: option.splits if_splits)
next
  case (scope te us wo s r t)
  then have "lg_outbox t = lg_outbox s"
    by (auto simp: register_scope_def obind_def tx_def split: if_splits sum.splits prod.splits)
  then show ?case by (simp add: same)
next
  case (stream sc st ty s r t)
  then have "lg_outbox t = lg_outbox s"
    by (auto simp: create_stream_def tx_def raise_def integrity_error_def split: if_splits sum.splits prod.splits)
  then show ?case by (simp add: same)
next
  case (blocked st d s r t)
  then have "lg_outbox t = lg_outbox s" by (auto simp: mark_blocked_def tx_def split: option.splits)
  then show ?case by (simp add: same)
next
  case (audited st d s r t)
  then show ?case by (auto simp: audit_def tx_def intro: same)
next
  case (usage j u s r t)
  then show ?case by (auto simp: record_usage_def tx_def intro: same)
next
  case (observation sc st pr ps p k ok s r t)
  then show ?case using observation_outbox same by metis
qed (auto simp: submit_result_def fail_job_def intro: settle_job_step command_step)

interpretation outbox: fenced_leases job_owner fence_of "ledger_call H"
proof
  fix s t k
  assume "ledger_call H s t"
  from call_outbox [OF this] show "fence_of s k \<le> fence_of t k"
    by (cases rule: outbox_step.cases)
      (auto simp: fence_of_def job_moved_def dict_get_None_iff [symmetric] simp del: set_map split: option.splits)
next
  fix s t k w f
  assume "ledger_call H s t" "job_owner t k = Some (w, f)"
  from call_outbox [OF this(1)] this(2) show "job_owner s k = Some (w, f) \<or> fence_of s k < f \<and> f \<le> fence_of t k"
    by (cases rule: outbox_step.cases)
      (auto simp: fence_of_def job_owner_def job_moved_def dict_get_None_iff [symmetric] simp del: set_map
        split: option.splits if_splits)
qed

section \<open>The ledger stays consistent\<close>

lemma set_job_sel [simp]:
  "lg_scopes (set_job k f s) = lg_scopes s" "lg_streams (set_job k f s) = lg_streams s"
  "lg_artifacts (set_job k f s) = lg_artifacts s" "lg_blobs (set_job k f s) = lg_blobs s"
  "lg_events (set_job k f s) = lg_events s" "lg_next_seq (set_job k f s) = lg_next_seq s"
  "lg_requests (set_job k f s) = lg_requests s" "lg_usage (set_job k f s) = lg_usage s"
  by (simp_all add: set_job_def split: option.split)

text \<open>Two ledgers that differ only in the outbox, the usage log, the lease floor and the audit log.\<close>

definition same_record :: "Ledger \<Rightarrow> Ledger \<Rightarrow> bool" where
  "same_record s t \<longleftrightarrow> lg_scopes t = lg_scopes s \<and> lg_streams t = lg_streams s \<and> lg_artifacts t = lg_artifacts s \<and>
     lg_blobs t = lg_blobs s \<and> lg_events t = lg_events s \<and> lg_next_seq t = lg_next_seq s \<and> lg_requests t = lg_requests s"

inductive outbox_call :: "Ledger \<Rightarrow> Ledger \<Rightarrow> bool" where
  audited: "audit st d s = (r, t) \<Longrightarrow> outbox_call s t"
| claim_any: "claim_outbox sc w now ttl s = (r, t) \<Longrightarrow> outbox_call s t"
| claim: "claim_job sc j w now ttl s = (r, t) \<Longrightarrow> outbox_call s t"
| finish: "finish_outbox j w f now s = (r, t) \<Longrightarrow> outbox_call s t"
| settled: "settle_job st word j w f u s = (r, t) \<Longrightarrow> outbox_call s t"
| usage: "record_usage j u s = (r, t) \<Longrightarrow> outbox_call s t"
| cancel: "cancel_job sc j s = (r, t) \<Longrightarrow> outbox_call s t"
| unknown: "mark_job_unknown j s = (r, t) \<Longrightarrow> outbox_call s t"
| reconcile: "reconcile_unknown j d s = (r, t) \<Longrightarrow> outbox_call s t"

lemma outbox_call_record: "outbox_call s t \<Longrightarrow> same_record s t"
proof (induction rule: outbox_call.induct)
  case (settled st word j w f u s r t)
  then show ?case
    by (auto simp: settle_job_def tx_def Let_def raise_def same_record_def bill_usage_def split: option.splits if_splits sum.splits prod.splits)
next
  case (claim_any sc w now ttl s r t)
  then show ?case
    by (auto simp: claim_outbox_def Let_def lease_job_def same_record_def split: list.splits if_splits)
qed (auto simp: audit_def tx_def claim_job_def finish_outbox_def record_usage_def bill_usage_def
    cancel_job_def mark_job_unknown_def reconcile_unknown_def lease_job_def Let_def same_record_def split: option.splits if_splits)

lemma ledger_call_split:
  assumes "ledger_call H s t"
  obtains (scope) te us wo r where "register_scope H te us wo s = (r, t)"
  | (stream) sc st ty r where "create_stream sc st ty s = (r, t)"
  | (command) sc a c k p st rv q pr ps r where "execute_command H sc a c k p st rv q pr ps s = (r, t)"
  | (observation) sc st pr ps p k ok r where "record_observation H sc st pr ps p k ok s = (r, t)"
  | (blocked) st d r where "mark_blocked st d s = (r, t)"
  | (outbox) "outbox_call s t"
  using assms by (cases rule: ledger_call.cases) (auto simp: submit_result_def fail_job_def intro: outbox_call.intros)

lemma same_record_ok:
  assumes rec: "same_record s t" and step: "outbox_step (lg_outbox s) (lg_outbox t)" and ok: "ledger_ok H s"
    and keys: "set (dict_keys (lg_outbox t)) = set (dict_keys (lg_outbox s))"
  shows "ledger_ok H t"
  using step
proof (cases rule: outbox_step.cases)
  case same
  with rec ok show ?thesis by (simp add: same_record_def ledger_ok_defs)
next
  case (added k j)
  with keys show ?thesis by (auto simp del: set_map)
next
  case (moved k j j')
  have k: "jb_event_id j = k \<and> k \<in> ev_event_id ` set (lg_events s) \<and>
      jb_scope_id j \<in> set (dict_keys (lg_scopes s)) \<and> jb_payload_digest j \<in> set (dict_keys (lg_artifacts s))"
    using ok moved(2) unfolding ledger_ok_def refs_ok_def by blast
  have "dict_wf (lg_outbox t)" using ok moved(1) by (simp add: ledger_ok_def tables_wf_def distinct_update)
  moreover have "refs_ok t"
    using rec ok k moved unfolding same_record_def ledger_ok_def refs_ok_def job_moved_def by (simp del: set_map)
  ultimately show ?thesis using rec ok by (simp add: same_record_def ledger_ok_def tables_wf_def blobs_ok_def)
qed

lemma outbox_call_keys: "outbox_call s t \<Longrightarrow> set (dict_keys (lg_outbox t)) = set (dict_keys (lg_outbox s))"
proof -
  have keys: "set (dict_keys (lg_outbox (set_job k f s))) = set (dict_keys (lg_outbox s))" for k f s
    by (auto simp: set_job_def dict_get_None_iff [symmetric] simp del: set_map split: option.split)
      (metis dict_get_None_iff option.distinct(1))
  assume "outbox_call s t"
  then show ?thesis
  proof (induction rule: outbox_call.induct)
    case (settled st word j w f u s r t)
    then show ?case
      by (auto simp: settle_job_def tx_def Let_def raise_def keys simp del: set_map split: option.splits if_splits sum.splits prod.splits)
  next
    case (claim_any sc w now ttl s r t)
    then show ?case
      by (auto simp: claim_outbox_def Let_def lease_job_def keys simp del: set_map split: list.splits if_splits)
  qed (auto simp: audit_def tx_def claim_job_def finish_outbox_def record_usage_def cancel_job_def mark_job_unknown_def
      reconcile_unknown_def lease_job_def Let_def keys simp del: set_map split: option.splits if_splits)
qed

lemma ledger_call_ok: "ledger_call H s t \<Longrightarrow> ledger_ok H s \<Longrightarrow> ledger_ok H t"
proof -
  assume call: "ledger_call H s t" and ok: "ledger_ok H s"
  from call show ?thesis
  proof (cases rule: ledger_call_split)
    case outbox
    then show ?thesis using same_record_ok [OF outbox_call_record call_outbox ok outbox_call_keys] call by blast
  next
    case scope
    from this ok show ?thesis by (rule register_scope_ok)
  next
    case stream
    from this ok show ?thesis by (rule create_stream_ok)
  next
    case command
    from this ok show ?thesis by (rule execute_command_ok)
  next
    case observation
    from this ok show ?thesis by (rule record_observation_ok)
  next
    case blocked
    from this ok show ?thesis by (rule mark_blocked_ok)
  qed
qed

lemma purge_all_ok: "ledger_ok H s \<Longrightarrow> ledger_ok H (fold (purge_stream at) ks s)"
  by (induction ks arbitrary: s) (simp_all add: purge_stream_ok)

text \<open>Everything that can happen to a ledger: its calls, deletions, and restoring a backup.\<close>

inductive ledger_reachable :: "hash_env \<Rightarrow> Ledger \<Rightarrow> bool" for H where
  created: "ledger_reachable H empty_ledger"
| called: "ledger_reachable H s \<Longrightarrow> ledger_call H s t \<Longrightarrow> ledger_reachable H t"
| deleted: "ledger_reachable H s \<Longrightarrow> delete_stream st at s = (r, t) \<Longrightarrow> ledger_reachable H t"
| restored: "ledger_reachable H s \<Longrightarrow> ledger_reachable H b \<Longrightarrow> restore b s = (r, t) \<Longrightarrow> ledger_reachable H t"

text \<open>
  Claim C8. A ledger reached by any sequence of its operations, refused ones, deletions and restored backups
  included, is consistent: keys and event ids are unique, sequence numbers increase, the events of a stream
  are numbered from one without a gap, every blob is stored under the digest of its bytes, no row refers to a
  missing one, and no stream's revision exceeds the number of its events.
\<close>

theorem ledger_consistent:
  assumes "ledger_reachable H s"
  shows "ledger_ok H s"
  using assms
proof (induction rule: ledger_reachable.induct)
  case (deleted s st at r t)
  then show ?case by (auto simp: delete_stream_def tx_def purge_stream_ok)
next
  case (restored s b r t)
  then show ?case by (auto simp: restore_def purge_all_ok)
qed (simp_all add: ledger_call_ok)

section \<open>Commands are idempotent and their revisions are won once\<close>

text \<open>What no call takes back.\<close>

definition ledger_extends :: "Ledger \<Rightarrow> Ledger \<Rightarrow> bool" where
  "ledger_extends s t \<longleftrightarrow>
     (\<forall>k v. dict_get (lg_requests s) k = Some v \<longrightarrow> dict_get (lg_requests t) k = Some v) \<and>
     (\<forall>k sc. stream_scope s k = Some sc \<longrightarrow> stream_scope t k = Some sc \<and> revision_of s k \<le> revision_of t k)"

lemma ledger_extends_trans: "ledger_extends s t \<Longrightarrow> ledger_extends t u \<Longrightarrow> ledger_extends s u"
  unfolding ledger_extends_def by (blast intro: order_trans)

lemma same_streams_extends:
  "lg_streams t = lg_streams s \<Longrightarrow> lg_requests t = lg_requests s \<Longrightarrow> ledger_extends s t"
  by (simp add: ledger_extends_def stream_scope_def revision_of_def)

lemma stream_scope_set_revision [simp]: "stream_scope (set_revision k n s) k' = stream_scope s k'"
  by (auto simp: set_revision_def stream_scope_def split: option.split)

lemma revision_of_set_revision: "stream_scope s k = Some sc \<Longrightarrow>
    revision_of (set_revision k n s) k' = (if k' = k then n else revision_of s k')"
  by (auto simp: set_revision_def stream_scope_def revision_of_def)

lemma stream_scope_store [simp]:
  "stream_scope (append_event e s) k = stream_scope s k" "stream_scope (store_blob H sc b s) k = stream_scope s k"
  "stream_scope (add_request rk rd resp s) k = stream_scope s k" "stream_scope (add_job eid sc raw s) k = stream_scope s k"
  "revision_of (append_event e s) k = revision_of s k" "revision_of (store_blob H sc b s) k = revision_of s k"
  "revision_of (add_request rk rd resp s) k = revision_of s k" "revision_of (add_job eid sc raw s) k = revision_of s k"
  by (simp_all add: stream_scope_def revision_of_def add_request_def add_job_def)

lemma fresh_command_effect:
  assumes "fresh_command H sc a c k p st rv q pr ps rd s = (Inr rc, t)" "stream_scope s st = Some sc"
  shows "stream_scope t k' = stream_scope s k'" "revision_of s st = rv"
    "revision_of t k' = (if k' = st then rv + 1 else revision_of s k')" "rc_revision rc = rv + 1"
    "\<exists>resp. lg_requests t = dict_set (sc, a, c, k) (rd, resp) (lg_requests s)" "\<not> rc_idempotent_replay rc"
proof -
  obtain eid body e where f: "revision_of s st = rv"
    "rc = \<lparr>rc_revision = rv + 1, rc_event_id = eid, rc_idempotent_replay = False\<rparr>"
    "t = (if q then add_job eid sc (raw_digest H body) else id)
       (add_request (sc, a, c, k) rd (raw_digest H body) (set_revision st (rv + 1) (append_event e (store_blob H sc body s))))"
    by (rule fresh_command_Ok [OF assms(1)])
  show "revision_of s st = rv" "rc_revision rc = rv + 1" "\<not> rc_idempotent_replay rc" using f by simp_all
  show "stream_scope t k' = stream_scope s k'" unfolding f(3) by (cases q) simp_all
  show "revision_of t k' = (if k' = st then rv + 1 else revision_of s k')"
    unfolding f(3) using assms(2) revision_of_set_revision [of "append_event e (store_blob H sc body s)" st sc "rv + 1" k']
    by (cases q) simp_all
  show "\<exists>resp. lg_requests t = dict_set (sc, a, c, k) (rd, resp) (lg_requests s)"
    unfolding f(3) by (cases q) (auto simp: add_job_def add_request_def)
qed

lemma call_extends: "ledger_call H s t \<Longrightarrow> ledger_extends s t"
proof -
  assume "ledger_call H s t"
  then show ?thesis
  proof (cases rule: ledger_call_split)
    case (scope te us wo r)
    then show ?thesis
      by (intro same_streams_extends) (auto simp: register_scope_def obind_def tx_def split: if_splits sum.splits prod.splits)
  next
    case (stream sc st ty r)
    then show ?thesis
      by (auto simp: create_stream_def tx_def raise_def integrity_error_def ledger_extends_def stream_scope_def revision_of_def
          dict_get_None_iff [symmetric] simp del: set_map split: if_splits)
  next
    case (command sc a c k p st rv q pr ps r)
    from this show ?thesis
    proof (cases rule: execute_command_cases)
      case (fresh rd rc)
      note f = fresh_command_effect [OF fresh(2,5)]
      from f(5) fresh(4) show ?thesis by (auto simp: ledger_extends_def f(1,3) f(2) [symmetric])
    qed (simp_all add: ledger_extends_def)
  next
    case (observation sc st pr ps p k ok r)
    have "lg_streams t = lg_streams s \<and> lg_requests t = lg_requests s"
    proof (cases r)
      case (Inr n)
      with observation have "record_observation_in H sc st pr ps p k ok s = (Inr n, t)"
        by (simp add: record_observation_def tx_Ok_iff)
      then show ?thesis by (cases rule: record_observation_cases) simp_all
    qed (use observation in \<open>auto simp: record_observation_def dest!: tx_err_unchanged\<close>)
    then show ?thesis by (intro same_streams_extends) simp_all
  next
    case (blocked st d r)
    then show ?thesis
      by (auto simp: mark_blocked_def tx_def ledger_extends_def stream_scope_def revision_of_def split: option.splits if_splits)
  next
    case outbox
    with outbox_call_record show ?thesis by (intro same_streams_extends) (auto simp: same_record_def)
  qed
qed

lemma calls_extend: "(ledger_call H)\<^sup>*\<^sup>* s t \<Longrightarrow> ledger_extends s t"
proof (induction rule: rtranclp_induct)
  case (step t u)
  have "ledger_extends t u" by (rule call_extends [OF step.hyps(2)])
  with step.IH show ?case by (rule ledger_extends_trans)
qed (simp add: ledger_extends_def)

lemma execute_replay:
  assumes "dict_get p ''approved'' \<noteq> Some (PBool True)" "request_digest_of H a c p rv = Inr rd"
    "stream_scope s st = Some sc" "dict_get (lg_requests s) (sc, a, c, k) = Some (rd, resp)"
  shows "execute_command H sc a c k p st rv q pr ps s =
    (Inr \<lparr>rc_revision = revision_of s st, rc_event_id = [], rc_idempotent_replay = True\<rparr>, s)"
  using assms by (simp add: execute_command_def tx_def obind_def require_scope_eval)

lemma execute_recorded:
  assumes "execute_command H sc a c k p st rv q pr ps s = (Inr rc, t)"
  obtains rd resp where "dict_get p ''approved'' \<noteq> Some (PBool True)" "request_digest_of H a c p rv = Inr rd"
    "stream_scope t st = Some sc" "dict_get (lg_requests t) (sc, a, c, k) = Some (rd, resp)"
proof -
  have p: "dict_get p ''approved'' \<noteq> Some (PBool True)" using assms by (auto simp: execute_command_def)
  from assms show thesis
  proof (cases rule: execute_command_cases)
    case (replayed rd resp)
    with p that show thesis by blast
  next
    case (fresh rd rc')
    from fresh_command_effect(5) [OF fresh(2,5)] obtain resp where
      "lg_requests t = dict_set (sc, a, c, k) (rd, resp) (lg_requests s)" by blast
    with p fresh fresh_command_effect(1) [OF fresh(2,5)] that show thesis by simp
  qed simp
qed


text \<open>
  Claim C25. Each control revision is won once: after a command moved a stream from the revision it expected,
  no later command that expects the same revision is accepted; it is refused or answered as a replay, and
  writes nothing.
\<close>

theorem revision_race:
  assumes "execute_command H sc a c k p st rv q pr ps s = (Inr rc, t)" "\<not> rc_idempotent_replay rc"
    and "(ledger_call H)\<^sup>*\<^sup>* t u"
  shows "rc_revision rc = rv + 1 \<and>
    (case execute_command H sc' a' c' k' p' st rv q' pr' ps' u of
       (Inl e, v) \<Rightarrow> v = u | (Inr rc', v) \<Rightarrow> rc_idempotent_replay rc' \<and> v = u)"
proof -
  from assms(1) obtain rd where f: "fresh_command H sc a c k p st rv q pr ps rd s = (Inr rc, t)" "stream_scope s st = Some sc"
    by (cases rule: execute_command_cases) (use assms(2) in auto)
  note eff = fresh_command_effect [OF f]
  have "stream_scope t st = Some sc" "revision_of t st = rv + 1" using eff(1,3) f(2) by simp_all
  with calls_extend [OF assms(3)] have later: "rv < revision_of u st" by (fastforce simp: ledger_extends_def)
  obtain r v where r: "execute_command H sc' a' c' k' p' st rv q' pr' ps' u = (r, v)" by fastforce
  then have "case r of Inl e \<Rightarrow> v = u | Inr rc' \<Rightarrow> rc_idempotent_replay rc' \<and> v = u"
  proof (cases rule: execute_command_cases)
    case (fresh rd' rc')
    from fresh_command_effect(2) [OF fresh(2,5)] later show ?thesis by simp
  qed simp_all
  with r eff(4) show ?thesis by (cases r) simp_all
qed

section \<open>A lost lease settles nothing\<close>

lemma settle_needs_owner:
  "settle_job st word j w f n s = (Inr x, t) \<Longrightarrow> x = ''stale'' \<and> lg_outbox t = lg_outbox s \<or> job_owner s j = Some (w, f)"
  by (auto simp: settle_job_def tx_Ok_iff Let_def job_owner_def split: option.splits if_splits)

lemma claimed_owner:
  assumes "claim_job sc j w now ttl s = (Inr (Some l), t)"
  shows "job_owner t j = Some (w, ls_fence l)" "fence_of t j = ls_fence l" "ls_job_id l = j"
  using assms by (auto simp: claim_job_def Let_def lease_job_def set_job_def job_owner_def fence_of_def
      split: if_splits option.splits)

text \<open>
  Claim C24. A lost lease settles nothing: when a worker that claimed a job no longer owns it under its fence,
  because the job was finished, cancelled, marked unknown, reconciled or claimed again, then after any further
  calls its result, its failure and its completion are all refused and no job changes.
\<close>

theorem stale_fence_loses:
  assumes "claim_job sc j w now ttl s = (Inr (Some l), t)" "(ledger_call H)\<^sup>*\<^sup>* t u"
    and "job_owner u j \<noteq> Some (w, ls_fence l)" "(ledger_call H)\<^sup>*\<^sup>* u v"
  shows "(\<forall>x. fst (submit_result j w (ls_fence l) n v) = Inr x \<longrightarrow> x = ''stale'') \<and>
    (\<forall>x. fst (fail_job j w (ls_fence l) n v) = Inr x \<longrightarrow> x = ''stale'') \<and>
    fst (finish_outbox j w (ls_fence l) now' v) \<noteq> Inr () \<and>
    lg_outbox (snd (submit_result j w (ls_fence l) n v)) = lg_outbox v \<and>
    lg_outbox (snd (fail_job j w (ls_fence l) n v)) = lg_outbox v"
proof -
  have "ls_fence l \<le> fence_of u j" using claimed_owner(2) [OF assms(1)] outbox.issued_mono_calls [OF assms(2), of j] by simp
  from outbox.lost_forever [OF assms(4) this assms(3)] have lost: "job_owner v j \<noteq> Some (w, ls_fence l)" .
  have settle: "(\<forall>x. fst (settle_job st word j w (ls_fence l) n v) = Inr x \<longrightarrow> x = ''stale'') \<and>
      lg_outbox (snd (settle_job st word j w (ls_fence l) n v)) = lg_outbox v" for st word
  proof (cases "settle_job st word j w (ls_fence l) n v")
    case (Pair r z)
    show ?thesis
    proof (cases r)
      case (Inr x)
      with Pair settle_needs_owner lost show ?thesis by fastforce
    next
      case (Inl e)
      with Pair have "z = v" by (auto simp: settle_job_def dest: tx_err_unchanged)
      with Inl Pair show ?thesis by simp
    qed
  qed
  have "fst (finish_outbox j w (ls_fence l) now' v) \<noteq> Inr ()"
    using lost by (auto simp: finish_outbox_def job_owner_def raise_def split: option.splits if_splits)
  with settle show ?thesis by (simp add: submit_result_def fail_job_def)
qed

text \<open>Usage is billed once: a later report of the same job leaves the first amount.\<close>

lemma usage_billed_once: "dict_get (lg_usage s) j = Some n \<Longrightarrow> dict_get (lg_usage (bill_usage j m s)) j = Some n"
  by (auto simp: bill_usage_def dict_get_None_iff [symmetric] simp del: set_map)

section \<open>A run on a concrete ledger\<close>

definition sample_scope :: string where
  "sample_scope = (case register_scope plain_hash ''t'' ''u'' ''w'' empty_ledger of (Inr sc, s) \<Rightarrow> sc | _ \<Rightarrow> [])"

definition sample_open :: Ledger where
  "sample_open = snd (create_stream sample_scope ''s1'' ''run'' (snd (register_scope plain_hash ''t'' ''u'' ''w'' empty_ledger)))"

definition sample_command :: "string \<Rightarrow> string \<Rightarrow> int \<Rightarrow> (Ledger, Receipt) op" where
  "sample_command actor k rv =
     execute_command plain_hash sample_scope actor ''run_work'' k [] ''s1'' rv True ''cli'' None"

definition sample_job :: string where
  "sample_job = (case sample_command ''a'' ''k'' 0 sample_open of (Inr rc, t) \<Rightarrow> rc_event_id rc | _ \<Rightarrow> [])"

definition sample_queued :: Ledger where
  "sample_queued = snd (sample_command ''a'' ''k'' 0 sample_open)"

definition sample_leased :: Ledger where
  "sample_leased = snd (claim_job sample_scope sample_job ''w1'' 0 300 sample_queued)"

lemma sample_runs:
  "case sample_command ''a'' ''k'' 0 sample_open of (Inl e, t) \<Rightarrow> False | (Inr rc, t) \<Rightarrow> \<not> rc_idempotent_replay rc"
  "case claim_job sample_scope sample_job ''w1'' 0 300 sample_queued of
     (Inr (Some l), t) \<Rightarrow> ls_fence l = 1 | _ \<Rightarrow> False"
  "job_owner (snd (mark_job_unknown sample_job sample_leased)) sample_job \<noteq> Some (''w1'', 1)"
  by code_simp+

lemma sample_executes:
  obtains rc where "sample_command ''a'' ''k'' 0 sample_open = (Inr rc, sample_queued)" "\<not> rc_idempotent_replay rc"
  using sample_runs(1) by (cases "sample_command ''a'' ''k'' 0 sample_open"; cases "fst (sample_command ''a'' ''k'' 0 sample_open)")
    (simp_all add: sample_queued_def)

lemma sample_claims:
  obtains l where "claim_job sample_scope sample_job ''w1'' 0 300 sample_queued = (Inr (Some l), sample_leased)" "ls_fence l = 1"
  using sample_runs(2) by (cases "claim_job sample_scope sample_job ''w1'' 0 300 sample_queued")
    (auto simp: sample_leased_def split: sum.splits option.splits)

lemma ledger_consistent_witness: "ledger_ok plain_hash sample_queued"
proof -
  have "ledger_reachable plain_hash sample_open"
    unfolding sample_open_def
    by (rule called [OF called [OF created scope [OF prod.collapse [symmetric]]] stream [OF prod.collapse [symmetric]]])
  then have "ledger_reachable plain_hash sample_queued"
    unfolding sample_queued_def sample_command_def by (rule called [OF _ command [OF prod.collapse [symmetric]]])
  then show ?thesis by (rule ledger_consistent)
qed


lemma revision_race_witness: "snd (sample_command ''b'' ''other'' 0 sample_queued) = sample_queued"
proof -
  obtain rc where rc: "sample_command ''a'' ''k'' 0 sample_open = (Inr rc, sample_queued)" "\<not> rc_idempotent_replay rc"
    by (rule sample_executes)
  from revision_race [OF rc(1) [unfolded sample_command_def] rc(2) rtranclp.rtrancl_refl, of sample_scope "''b''"
      "''run_work''" "''other''" "[]" True "''cli''" None]
  show ?thesis by (auto simp: sample_command_def split: prod.splits sum.splits)
qed

lemma stale_fence_loses_witness:
  "lg_outbox (snd (submit_result sample_job ''w1'' 1 5 (snd (mark_job_unknown sample_job sample_leased)))) =
     lg_outbox (snd (mark_job_unknown sample_job sample_leased))"
proof -
  let ?u = "snd (mark_job_unknown sample_job sample_leased)"
  obtain l where l: "claim_job sample_scope sample_job ''w1'' 0 300 sample_queued = (Inr (Some l), sample_leased)" "ls_fence l = 1"
    by (rule sample_claims)
  have "ledger_call plain_hash sample_leased ?u" by (rule ledger_call.unknown [OF prod.collapse [symmetric]])
  then have "(ledger_call plain_hash)\<^sup>*\<^sup>* sample_leased ?u" by (rule r_into_rtranclp)
  from stale_fence_loses [OF l(1) this _ rtranclp.rtrancl_refl] sample_runs(3) show ?thesis by (simp add: l(2))
qed

section \<open>Where the ledger is weaker than it looks\<close>

text \<open>
  Blobs are shared between scopes by their digest, but belong to the scope that stored them first: the
  response of another scope's command is kept, yet that scope may not read it.
\<close>

lemma shared_blob_denied:
  "case register_scope plain_hash ''t2'' ''u'' ''w'' sample_queued of
     (Inr sc, s) \<Rightarrow>
       (case execute_command plain_hash sc ''a'' ''c'' ''k2'' [] ''s2'' 0 False ''cli2'' None (snd (create_stream sc ''s2'' ''run'' s)) of
          (Inr rc, t) \<Rightarrow>
            (case dict_get (lg_requests t) (sc, ''a'', ''c'', ''k2'') of
               Some (rd, resp) \<Rightarrow> resp \<in> set (dict_keys (lg_blobs t)) \<and> read_artifact t sc resp = None
             | None \<Rightarrow> False)
        | _ \<Rightarrow> False)
   | _ \<Rightarrow> False"
  by code_simp

text \<open>The event id leaves out actor and command: a second actor's command under the same key is an integrity error.\<close>

lemma actors_collide: "fst (sample_command ''b'' ''k'' 1 sample_queued) = Inl (PyError ''IntegrityError'')"
  by code_simp

text \<open>The lease floor adds up: two claims at the same time, each for 300 seconds, and the second lasts 600.\<close>

lemma lease_floor_adds_up:
  "case claim_job sample_scope sample_job ''w1'' 0 300 sample_queued of
     (Inr (Some l), t) \<Rightarrow> ls_lease_until l = 300 \<and>
       (case reconcile_unknown sample_job ''requeue'' (snd (mark_job_unknown sample_job t)) of
          (_, u) \<Rightarrow> (case claim_job sample_scope sample_job ''w2'' 0 300 u of
             (Inr (Some l'), v) \<Rightarrow> ls_lease_until l' = 600 | _ \<Rightarrow> False))
   | _ \<Rightarrow> False"
  by code_simp

text \<open>A cancellation overwrites a completed job.\<close>

lemma cancel_overwrites_completed:
  "job_state (snd (submit_result sample_job ''w1'' 1 5 sample_leased)) sample_job = ''completed'' \<and>
   job_state (snd (cancel_job sample_scope sample_job (snd (submit_result sample_job ''w1'' 1 5 sample_leased)))) sample_job =
     ''cancelled''"
  by code_simp

text \<open>\<open>submit_result\<close> looks at the fence but not at the expiry, which \<open>finish_outbox\<close> does check.\<close>

lemma expired_result_applied:
  "fst (finish_outbox sample_job ''w1'' 1 300 sample_leased) = raise ''STALE_LEASE'' sample_job \<and>
   fst (submit_result sample_job ''w1'' 1 5 sample_leased) = Inr ''applied''"
  by code_simp

text \<open>A stream created again under a tombstoned id is deleted by the next restore, whatever the backup holds.\<close>

lemma restore_deletes_recreated:
  "let gone = snd (delete_stream ''s1'' ''now'' sample_open); back = snd (create_stream sample_scope ''s1'' ''run'' gone) in
   stream_scope back ''s1'' = Some sample_scope \<and> stream_scope (snd (restore back back)) ''s1'' = None"
  by code_simp

text \<open>Deleted streams stay deleted over a restore.\<close>

lemma purge_keeps_tombstones:
  "k' \<in> set (dict_keys (lg_tombstones s)) \<Longrightarrow> k' \<in> set (dict_keys (lg_tombstones (purge_stream at k s)))"
  "k' \<notin> set (dict_keys (lg_streams s)) \<Longrightarrow> k' \<notin> set (dict_keys (lg_streams (purge_stream at k s)))"
  "k' \<notin> ev_stream_id ` set (lg_events s) \<Longrightarrow> k' \<notin> ev_stream_id ` set (lg_events (purge_stream at k s))"
  by (auto simp: purge_stream_def Let_def keys_dict_del simp del: set_map)

lemma deletion_wins:
  assumes "k \<in> set (dict_keys (lg_tombstones s))"
  shows "k \<notin> set (dict_keys (lg_streams (snd (restore b s))))" "k \<notin> ev_stream_id ` set (lg_events (snd (restore b s)))"
proof -
  have keep: "k \<notin> set (dict_keys (lg_streams b)) \<and> k \<notin> ev_stream_id ` set (lg_events b) \<Longrightarrow>
      k \<notin> set (dict_keys (lg_streams (fold (purge_stream at) ks b))) \<and>
      k \<notin> ev_stream_id ` set (lg_events (fold (purge_stream at) ks b))" for at ks b
    by (induction ks arbitrary: b) (simp_all add: purge_keeps_tombstones del: set_map)
  have "k \<notin> set (dict_keys (lg_streams (fold (purge_stream at) ks b))) \<and>
      k \<notin> ev_stream_id ` set (lg_events (fold (purge_stream at) ks b))" if "k \<in> set ks" for at ks b
    using that
  proof (induction ks arbitrary: b)
    case (Cons x xs)
    have "k \<notin> set (dict_keys (lg_streams (purge_stream at k b))) \<and> k \<notin> ev_stream_id ` set (lg_events (purge_stream at k b))"
      by (auto simp: purge_stream_def Let_def keys_dict_del simp del: set_map)
    with Cons keep show ?case by (cases "x = k") simp_all
  qed simp
  with assms show "k \<notin> set (dict_keys (lg_streams (snd (restore b s))))" "k \<notin> ev_stream_id ` set (lg_events (snd (restore b s)))"
    by (simp_all add: restore_def del: set_map)
qed

end
