(* ===== verification/Memory.thy ===== *)
theory Memory
  imports Outbox
begin

text \<open>
  \<open>memory/models.py\<close>, \<open>memory/repository.py\<close>, \<open>memory/invalidation.py\<close>, \<open>memory/recall.py\<close>,
  \<open>memory/deletion.py\<close> and \<open>memory/service.py\<close>: durable memory records of a scope, from proposal over activation to
  deletion, and what recall, export and search may see of them. The record table is a dictionary from its primary
  key beside the ledger whose audit log it shares; \<open>evidence_refs\<close>, a JSON text in the table, is that list.
\<close>

section \<open>Records\<close>

record MemoryRecord =
  me_memory_id :: string
  me_revision :: int
  me_scope_id :: string
  me_kind :: string
  me_status :: string
  me_content_digest :: string
  me_source_digest :: string
  me_evidence_refs :: "string list"
  me_created_at :: int
  me_expires_at :: "int option"
  me_supersedes :: "string option"
  me_rank :: int

record DeletionReceipt =
  dr_memory_id :: string
  dr_tombstone_id :: string
  dr_pending_purge :: "string list"

type_synonym memory_key = "string \<times> string"

record MemoryRepository =
  mr_ledger :: Ledger
  mr_rows :: "(memory_key, MemoryRecord \<times> string) dict"

section \<open>The repository\<close>

definition get_memory :: "MemoryRepository \<Rightarrow> string \<Rightarrow> string \<Rightarrow> MemoryRecord option" where
  "get_memory s scope_id memory_id = map_option fst (dict_get (mr_rows s) (scope_id, memory_id))"

text \<open>Rows with one digest hold one content; the first is returned.\<close>

definition get_content :: "MemoryRepository \<Rightarrow> string \<Rightarrow> string \<Rightarrow> string option" where
  "get_content s scope_id content_digest =
     map_option (\<lambda>(k, r, content). content)
       (List.find (\<lambda>(k, r, content). me_scope_id r = scope_id \<and> me_content_digest r = content_digest) (mr_rows s))"

definition restore_content :: "string \<Rightarrow> string \<Rightarrow> string \<Rightarrow> string \<Rightarrow> (MemoryRepository, bool) op" where
  "restore_content scope_id memory_id content_digest blob s =
     (case dict_get (mr_rows s) (scope_id, memory_id) of
        None \<Rightarrow> (Ok False, s)
      | Some (r, content) \<Rightarrow>
          if me_content_digest r \<noteq> content_digest then (Ok False, s)
          else (Ok True, s\<lparr>mr_rows := dict_set (scope_id, memory_id) (r, blob) (mr_rows s)\<rparr>))"

definition list_scope :: "MemoryRepository \<Rightarrow> string \<Rightarrow> MemoryRecord list" where
  "list_scope s scope_id = sort_key me_memory_id [r \<leftarrow> map (fst \<circ> snd) (mr_rows s). me_scope_id r = scope_id]"

definition audit_row :: "string \<Rightarrow> string \<Rightarrow> MemoryRepository \<Rightarrow> MemoryRepository" where
  "audit_row memory_id detail s = s\<lparr>mr_ledger := (mr_ledger s)\<lparr>lg_audit := lg_audit (mr_ledger s) @ [(memory_id, detail)]\<rparr>\<rparr>"

definition put_candidate :: "MemoryRecord \<Rightarrow> string \<Rightarrow> (MemoryRepository, unit) op" where
  "put_candidate r content =
     (if me_status r \<noteq> ''candidate'' then olift (raise ''INPUT_INVALID'' ''proposals land as candidates'')
      else tx (\<lambda>s.
        if get_memory s (me_scope_id r) (me_memory_id r) \<noteq> None
        then (raise ''IDEMPOTENCY_CONFLICT'' (''memory '' @ py_repr (me_memory_id r) @ '' exists''), s)
        else (Ok (), audit_row (me_memory_id r) ''proposed''
          (s\<lparr>mr_rows := dict_set (me_scope_id r, me_memory_id r) (r, content) (mr_rows s)\<rparr>))))"

text \<open>The \<open>UPDATE\<close> of a transition; \<open>new_revision or row[0]\<close> and \<open>COALESCE(?, supersedes)\<close>.\<close>

definition moved_record :: "string \<Rightarrow> int option \<Rightarrow> string option \<Rightarrow> MemoryRecord \<Rightarrow> MemoryRecord" where
  "moved_record to_status new_revision supersedes r =
     r\<lparr>me_status := to_status,
       me_revision := (case new_revision of Some n \<Rightarrow> if n \<noteq> 0 then n else me_revision r | None \<Rightarrow> me_revision r),
       me_supersedes := (case supersedes of Some x \<Rightarrow> Some x | None \<Rightarrow> me_supersedes r)\<rparr>"

definition memory_transition ::
  "string \<Rightarrow> string \<Rightarrow> string \<Rightarrow> int \<Rightarrow> int option \<Rightarrow> string option \<Rightarrow> (MemoryRepository, MemoryRecord) op"
where
  "memory_transition scope_id memory_id to_status expected_revision new_revision supersedes =
     tx (\<lambda>s.
       (case dict_get (mr_rows s) (scope_id, memory_id) of
          None \<Rightarrow> (raise ''SCOPE_DENIED'' ''memory not readable in this scope'', s)
        | Some (r, content) \<Rightarrow>
            if me_revision r \<noteq> expected_revision
            then (raise ''STALE_REVISION'' (memory_id @ '' at r'' @ str_int (me_revision r) @ '', expected r''
              @ str_int expected_revision), s)
            else
              let r' = moved_record to_status new_revision supersedes r in
              (Ok r', audit_row memory_id (''status:'' @ to_status)
                (s\<lparr>mr_rows := dict_set (scope_id, memory_id) (r', content) (mr_rows s)\<rparr>))))"

text \<open>\<open>for x in xs: body(x)\<close> over a state, stopping at the first exception.\<close>

fun each :: "('a \<Rightarrow> ('s, unit) op) \<Rightarrow> 'a list \<Rightarrow> ('s, unit) op" where
  "each body [] = oret ()"
| "each body (x # xs) = obind (body x) (\<lambda>_. each body xs)"

text \<open>Demoting a record at its own revision.\<close>

definition demote :: "string \<Rightarrow> string \<Rightarrow> int \<Rightarrow> (MemoryRepository, unit) op" where
  "demote scope_id memory_id revision =
     obind (memory_transition scope_id memory_id ''stale'' revision None None) (\<lambda>_. oret ())"

text \<open>The rows the \<open>NOT EXISTS\<close> query finds, and the body of the loop over them.\<close>

definition ghost_ids :: "MemoryRepository \<Rightarrow> string \<Rightarrow> string list" where
  "ghost_ids s scope_id = map me_memory_id [r \<leftarrow> map (fst \<circ> snd) (mr_rows s). me_scope_id r = scope_id \<and>
     me_status r = ''active'' \<and> (me_memory_id r, ''status:active'') \<notin> set (lg_audit (mr_ledger s))]"

definition demote_ghost :: "string \<Rightarrow> string \<Rightarrow> (MemoryRepository, unit) op" where
  "demote_ghost scope_id memory_id s =
     (case get_memory s scope_id memory_id of None \<Rightarrow> (Ok (), s) | Some r \<Rightarrow> demote scope_id memory_id (me_revision r) s)"

definition reconcile_ghosts :: "string \<Rightarrow> (MemoryRepository, string list) op" where
  "reconcile_ghosts scope_id =
     obind oget (\<lambda>s. obind (each (demote_ghost scope_id) (ghost_ids s scope_id)) (\<lambda>_. oret (ghost_ids s scope_id)))"

section \<open>Invalidation\<close>

text \<open>
  \<open>while frontier: current = frontier.pop(); for record in records.values(): \<dots>\<close>; the head of the list is the
  end of the Python list, which \<open>pop\<close> takes.
\<close>

fun take_derived :: "string \<Rightarrow> MemoryRecord list \<Rightarrow> string list \<Rightarrow> string list" where
  "take_derived current [] closure = []"
| "take_derived current (r # rs) closure =
     (if me_supersedes r = Some current \<and> me_memory_id r \<notin> set closure
      then me_memory_id r # take_derived current rs (closure @ [me_memory_id r])
      else take_derived current rs closure)"

lemma set_take_derived:
  "set (take_derived c rs closure) = me_memory_id ` {r \<in> set rs. me_supersedes r = Some c} - set closure"
  by (induction c rs closure rule: take_derived.induct) auto

function derived_loop :: "MemoryRecord list \<Rightarrow> string list \<Rightarrow> string list \<Rightarrow> string list" where
  "derived_loop rs closure [] = closure"
| "derived_loop rs closure (current # frontier) =
     (let new = take_derived current rs closure in derived_loop rs (closure @ new) (rev new @ frontier))"
  by pat_completeness auto
termination
proof (relation "measures [\<lambda>(rs, cl, fr). card (me_memory_id ` set rs - set cl), \<lambda>(rs, cl, fr). length fr]", goal_cases)
  case 1
  then show ?case by simp
next
  case (2 rs cl c fr new)
  show ?case
  proof (cases "new = []")
    case True
    then show ?thesis by simp
  next
    case False
    have "set new \<subseteq> me_memory_id ` set rs - set cl" using 2 by (auto simp: set_take_derived)
    with False have "me_memory_id ` set rs - set (cl @ new) \<subset> me_memory_id ` set rs - set cl"
      by (cases new) auto
    then have "card (me_memory_id ` set rs - set (cl @ new)) < card (me_memory_id ` set rs - set cl)"
      by (intro psubset_card_mono) auto
    then show ?thesis by simp
  qed
qed

definition dependency_closure :: "MemoryRepository \<Rightarrow> string \<Rightarrow> string \<Rightarrow> string list" where
  "dependency_closure s scope_id root_id = derived_loop (list_scope s scope_id) [] [root_id]"

definition stale_if_active :: "string \<Rightarrow> string \<Rightarrow> (MemoryRepository, unit) op" where
  "stale_if_active scope_id mid s =
     (case get_memory s scope_id mid of
        None \<Rightarrow> (Ok (), s)
      | Some current \<Rightarrow>
          if me_status current = ''active'' then demote scope_id mid (me_revision current) s else (Ok (), s))"

definition invalidate_memory :: "string \<Rightarrow> string \<Rightarrow> (MemoryRepository, string list) op" where
  "invalidate_memory scope_id memory_id =
     obind oget (\<lambda>s.
       if get_memory s scope_id memory_id = None then oret []
       else
         let affected = memory_id # dependency_closure s scope_id memory_id in
         obind (each (stale_if_active scope_id) affected) (\<lambda>_. oret affected))"

section \<open>Recall\<close>

record RecallResult =
  rr_records :: "MemoryRecord list"
  rr_reason :: string
  rr_excluded :: "string list"

definition serves :: "int \<Rightarrow> string list \<Rightarrow> MemoryRecord \<Rightarrow> bool" where
  "serves now available r \<longleftrightarrow> me_status r = ''active'' \<and>
     (case me_expires_at r of None \<Rightarrow> True | Some e \<Rightarrow> now < e) \<and>
     me_source_digest r \<in> set available \<and> me_evidence_refs r \<noteq> []"

text \<open>\<open>needle in text\<close>\<close>

fun occurs_in :: "string \<Rightarrow> string \<Rightarrow> bool" where
  "occurs_in needle [] = (needle = [])"
| "occurs_in needle (c # cs) = (take (length needle) (c # cs) = needle \<or> occurs_in needle cs)"

definition eligible_records :: "MemoryRecord list \<Rightarrow> string \<Rightarrow> int \<Rightarrow> string list \<Rightarrow> string list option \<Rightarrow> MemoryRecord list" where
  "eligible_records records scope_id now available query_terms =
     [r \<leftarrow> [r \<leftarrow> records. me_scope_id r = scope_id]. serves now available r \<and>
       (case query_terms of None \<Rightarrow> True | Some terms \<Rightarrow> list_ex (\<lambda>term. occurs_in term (me_kind r)) terms)]"

definition ranked :: "MemoryRecord list \<Rightarrow> MemoryRecord list" where
  "ranked records = sort_key (\<lambda>r. - me_rank r) (sort_key me_memory_id records)"

definition select_recall ::
  "MemoryRecord list \<Rightarrow> string \<Rightarrow> int \<Rightarrow> string list \<Rightarrow> string list option \<Rightarrow> int \<Rightarrow> RecallResult result"
where
  "select_recall records scope_id now available query_terms limit =
     (if limit < 0 then raise ''INVALID_LIMIT'' ''limit must be nonnegative''
      else
        let chosen = take (nat limit) (ranked (eligible_records records scope_id now available query_terms));
            excluded = map me_memory_id [r \<leftarrow> records. me_scope_id r = scope_id \<and> \<not> serves now available r]
        in Ok \<lparr>rr_records = chosen, rr_reason = (if chosen \<noteq> [] then ''ok'' else ''no_recall''), rr_excluded = sort excluded\<rparr>)"

section \<open>The service\<close>

text \<open>
  \<open>json.dumps\<close> with its default separators and \<open>ensure_ascii\<close>, of what the service digests.
\<close>

definition ascii_char :: "char \<Rightarrow> string" where
  "ascii_char c =
     (let n = of_char c :: nat in
      if n < 127 then esc_char c else backslash # ''u00'' @ [hex_digit (n div 16), hex_digit (n mod 16)])"

definition ascii_quote :: "string \<Rightarrow> string" where
  "ascii_quote s = CHR 0x22 # concat (map ascii_char s) @ [CHR 0x22]"

definition tombstone_text :: "string \<Rightarrow> int \<Rightarrow> string \<Rightarrow> string" where
  "tombstone_text memory_id at scope_id =
     CHR 0x7B # ascii_quote ''at'' @ '': '' @ str_int at @ '', '' @ ascii_quote ''memory_id'' @ '': '' @ ascii_quote memory_id
       @ '', '' @ ascii_quote ''scope'' @ '': '' @ ascii_quote scope_id @ [CHR 0x7D]"

record MemoryService =
  ms_repo :: MemoryRepository
  ms_quarantine_log :: "string list"

definition new_memory_service :: "MemoryRepository \<Rightarrow> MemoryService" where
  "new_memory_service repository = \<lparr>ms_repo = repository, ms_quarantine_log = []\<rparr>"

definition on_memory :: "(MemoryRepository, 'a) op \<Rightarrow> (MemoryService, 'a) op" where
  "on_memory m s = (let (r, t) = m (ms_repo s) in (r, s\<lparr>ms_repo := t\<rparr>))"

definition propose_memory ::
  "hash_env \<Rightarrow> string \<Rightarrow> string \<Rightarrow> string \<Rightarrow> string \<Rightarrow> string \<Rightarrow> string list \<Rightarrow> int \<Rightarrow> int option \<Rightarrow> int \<Rightarrow>
    (MemoryRepository, MemoryRecord) op"
where
  "propose_memory H scope_id memory_id kind content source_digest evidence_refs at expires_at rank =
     (let r = \<lparr>me_memory_id = memory_id, me_revision = 1, me_scope_id = scope_id, me_kind = kind, me_status = ''candidate'',
        me_content_digest = raw_digest H content, me_source_digest = source_digest, me_evidence_refs = evidence_refs,
        me_created_at = at, me_expires_at = expires_at, me_supersedes = None, me_rank = rank\<rparr>
      in obind (put_candidate r content) (\<lambda>_. oret r))"

definition active_conflicts :: "MemoryRepository \<Rightarrow> string \<Rightarrow> MemoryRecord \<Rightarrow> string \<Rightarrow> string option \<Rightarrow> string list" where
  "active_conflicts s scope_id r memory_id supersedes =
     [me_memory_id q. q \<leftarrow> list_scope s scope_id, me_status q = ''active'' \<and> me_kind q = me_kind r \<and>
        me_memory_id q \<noteq> memory_id \<and> supersedes \<noteq> Some (me_memory_id q)]"

text \<open>The record an activation supersedes is invalidated before the transition.\<close>

definition superseding :: "string \<Rightarrow> string option \<Rightarrow> (MemoryRepository, string list) op" where
  "superseding scope_id supersedes s =
     (case supersedes of
        None \<Rightarrow> (Ok [], s)
      | Some old_id \<Rightarrow>
          (case get_memory s scope_id old_id of
             None \<Rightarrow> (Ok [], s)
           | Some old \<Rightarrow> if me_status old = ''active'' then invalidate_memory scope_id old_id s else (Ok [], s)))"

definition activate_memory :: "string \<Rightarrow> string \<Rightarrow> int \<Rightarrow> string option \<Rightarrow> (MemoryRepository, MemoryRecord) op" where
  "activate_memory scope_id memory_id expected_revision supersedes =
     obind oget (\<lambda>s.
       case get_memory s scope_id memory_id of
         None \<Rightarrow> olift (raise ''SCOPE_DENIED'' ''memory not readable in this scope'')
       | Some r \<Rightarrow>
           if me_status r \<notin> {''candidate'', ''stale''}
           then olift (raise ''INPUT_INVALID'' (''cannot activate status '' @ me_status r))
           else
             let conflict = active_conflicts s scope_id r memory_id supersedes in
             if conflict \<noteq> []
             then olift (raise ''MEMORY_CONFLICT'' (''active '' @ repr_list conflict @ '' share kind '' @ py_repr (me_kind r)
               @ ''; explicit supersedes required''))
             else
               obind (superseding scope_id supersedes)
                 (\<lambda>_. memory_transition scope_id memory_id ''active'' expected_revision (Some (me_revision r + 1)) supersedes))"

definition delete_memory :: "hash_env \<Rightarrow> string \<Rightarrow> string \<Rightarrow> int \<Rightarrow> string list \<Rightarrow> (MemoryRepository, DeletionReceipt) op" where
  "delete_memory H scope_id memory_id at pending_projections =
     obind oget (\<lambda>s.
       case get_memory s scope_id memory_id of
         None \<Rightarrow> olift (raise ''SCOPE_DENIED'' ''memory not readable in this scope'')
       | Some r \<Rightarrow>
           obind (memory_transition scope_id memory_id ''deleted'' (me_revision r) None None) (\<lambda>_.
           oret \<lparr>dr_memory_id = memory_id, dr_tombstone_id = raw_digest H (tombstone_text memory_id at scope_id),
             dr_pending_purge = pending_projections\<rparr>))"

definition query_memory ::
  "MemoryRepository \<Rightarrow> string \<Rightarrow> int \<Rightarrow> string list \<Rightarrow> string list option \<Rightarrow> int \<Rightarrow> RecallResult result"
where
  "query_memory s scope_id = select_recall (list_scope s scope_id) scope_id"

definition mark_stale_if_source_moved :: "string \<Rightarrow> string list \<Rightarrow> (MemoryRepository, string list) op" where
  "mark_stale_if_source_moved scope_id current_source_digests =
     obind oget (\<lambda>s.
       let moved = [r \<leftarrow> list_scope s scope_id. me_status r = ''active'' \<and> me_source_digest r \<notin> set current_source_digests] in
       obind (each (\<lambda>r. demote scope_id (me_memory_id r) (me_revision r)) moved) (\<lambda>_. oret (map me_memory_id moved)))"

definition quarantine :: "string \<Rightarrow> string \<Rightarrow> (MemoryService, unit) op" where
  "quarantine scope_id memory_id =
     obind oget (\<lambda>s.
       case get_memory (ms_repo s) scope_id memory_id of
         None \<Rightarrow> olift (raise ''SCOPE_DENIED'' ''memory not readable in this scope'')
       | Some r \<Rightarrow>
           obind (on_memory (memory_transition scope_id memory_id ''quarantined'' (me_revision r) None None)) (\<lambda>_.
           oput (\<lambda>s. s\<lparr>ms_quarantine_log := ms_quarantine_log s @ [memory_id]\<rparr>)))"

record ExportManifest =
  em_entries :: "(string \<times> string) list"
  em_digest :: string

definition manifest_text :: "(string \<times> string) list \<Rightarrow> string" where
  "manifest_text entries = ''['' @ py_join '', '' (map (\<lambda>(k, d). ''['' @ ascii_quote k @ '', '' @ ascii_quote d @ '']'') entries) @ '']''"

definition export_corpus :: "hash_env \<Rightarrow> MemoryRepository \<Rightarrow> string \<Rightarrow> string list \<Rightarrow> ExportManifest" where
  "export_corpus H s scope_id refs =
     (let entries = [(me_memory_id r, me_content_digest r). r \<leftarrow> list_scope s scope_id,
            me_status r = ''active'' \<and> me_content_digest r \<in> set refs];
          sorted_entries = sort_key fst (sort_key snd entries)
      in \<lparr>em_entries = sorted_entries, em_digest = raw_digest H (manifest_text sorted_entries)\<rparr>)"

definition import_entry ::
  "hash_env \<Rightarrow> string \<Rightarrow> (string, string) dict \<Rightarrow> string \<times> string \<Rightarrow> (MemoryRepository, unit) op"
where
  "import_entry H scope_id blobs e =
     (case dict_get blobs (snd e) of
        None \<Rightarrow> olift (raise ''IMPORT_BLOB_MISSING'' (''no blob for '' @ fst e))
      | Some blob \<Rightarrow>
          if raw_digest H blob \<noteq> snd e
          then olift (raise ''IMPORT_DIGEST_MISMATCH'' (''import digest mismatch for '' @ fst e))
          else
            obind (restore_content scope_id (fst e) (snd e) blob) (\<lambda>restored.
            if \<not> restored then olift (raise ''IMPORT_BLOB_MISSING'' (''no in-scope row for '' @ fst e)) else oret ()))"

definition import_index :: "hash_env \<Rightarrow> string \<Rightarrow> ExportManifest \<Rightarrow> (string, string) dict \<Rightarrow> (MemoryRepository, unit) op" where
  "import_index H scope_id manifest blobs = each (import_entry H scope_id blobs) (em_entries manifest)"

definition search_documents ::
  "MemoryRepository \<Rightarrow> string \<Rightarrow> string \<Rightarrow> int \<Rightarrow> string list \<Rightarrow> bool \<Rightarrow> (string \<times> string) list"
where
  "search_documents s scope_id query now available revalidate =
     [(me_memory_id r, me_content_digest r). r \<leftarrow> list_scope s scope_id,
        me_status r = ''active'' \<and>
        (if revalidate then me_source_digest r \<in> set available \<and> (case me_expires_at r of None \<Rightarrow> True | Some e \<Rightarrow> now < e) else True) \<and>
        (occurs_in (utf8 query) (case get_content s scope_id (me_content_digest r) of None \<Rightarrow> [] | Some body \<Rightarrow> body) \<or>
         occurs_in query (me_kind r))]"

section \<open>What an operation does to the rows\<close>

abbreviation row_of :: "MemoryRepository \<Rightarrow> memory_key \<Rightarrow> (MemoryRecord \<times> string) option" where
  "row_of s k \<equiv> dict_get (mr_rows s) k"

lemma audit_row_rows [simp]: "mr_rows (audit_row m d s) = mr_rows s"
  by (simp add: audit_row_def)

lemma memory_transition_cases:
  assumes "memory_transition sc m st rev' nr sp s = (r, t)"
  obtains (refused) e where "r = Inl e" "t = s"
  | (moved) q c where "row_of s (sc, m) = Some (q, c)" "me_revision q = rev'" "r = Inr (moved_record st nr sp q)"
      "mr_rows t = dict_set (sc, m) (moved_record st nr sp q, c) (mr_rows s)"
proof (cases "row_of s (sc, m)")
  case None
  with assms refused show thesis by (auto simp: memory_transition_def tx_def raise_def)
next
  case (Some x)
  obtain q c where x: "x = (q, c)" by (cases x)
  show thesis
  proof (cases "me_revision q = rev'")
    case True
    with Some x assms show thesis
      by (intro moved [of q c]) (auto simp: memory_transition_def tx_def Let_def)
  next
    case False
    with Some x assms refused show thesis by (auto simp: memory_transition_def tx_def raise_def)
  qed
qed

lemma moved_stale [simp]: "moved_record st None None q = q\<lparr>me_status := st\<rparr>"
  by (cases q) (simp add: moved_record_def)

text \<open>Some active or stale rows become stale, everything else stays.\<close>

definition demotable :: "MemoryRecord \<Rightarrow> bool" where
  "demotable q \<longleftrightarrow> me_status q = ''active'' \<or> me_status q = ''stale''"

inductive demoted :: "(MemoryRecord \<times> string) option \<Rightarrow> (MemoryRecord \<times> string) option \<Rightarrow> bool" where
  kept: "demoted x x"
| staled: "demotable q \<Longrightarrow> demoted (Some (q, c)) (Some (q\<lparr>me_status := ''stale''\<rparr>, c))"

lemma demotable_stale [simp]: "demotable (q\<lparr>me_status := ''stale''\<rparr>)"
  by (simp add: demotable_def)

lemma demoted_trans: "demoted x y \<Longrightarrow> demoted y z \<Longrightarrow> demoted x z"
  by (induction rule: demoted.induct) (auto elim!: demoted.cases intro: demoted.intros)

definition demotes :: "MemoryRepository \<Rightarrow> MemoryRepository \<Rightarrow> bool" where
  "demotes s t \<longleftrightarrow> (\<forall>k. demoted (row_of s k) (row_of t k)) \<and> (dict_wf (mr_rows s) \<longrightarrow> dict_wf (mr_rows t))"

lemma demotes_refl [simp]: "demotes s s"
  by (simp add: demotes_def kept)

lemma demotes_trans: "demotes s t \<Longrightarrow> demotes t u \<Longrightarrow> demotes s u"
  unfolding demotes_def by (blast intro: demoted_trans)

lemma transp_demotes: "transp demotes" "reflp demotes"
  by (auto intro: transpI reflpI demotes_trans)

lemma demote_demotes:
  assumes "get_memory s sc m = Some q" "demotable q"
  shows "demotes s (snd (demote sc m n s))"
proof -
  obtain r t where d: "memory_transition sc m ''stale'' n None None s = (r, t)"
    by (cases "memory_transition sc m ''stale'' n None None s")
  have "demotes s t"
    using d
  proof (cases rule: memory_transition_cases)
    case (moved p c)
    with assms have "p = q" by (simp add: get_memory_def)
    with moved assms(2) show ?thesis by (simp add: demotes_def kept staled)
  qed simp
  moreover have "snd (demote sc m n s) = t" using d by (cases r) (simp_all add: demote_def obind_def)
  ultimately show ?thesis by simp
qed

lemma each_moves:
  assumes "transp R" "reflp R" "\<And>x. x \<in> set xs \<Longrightarrow> moves R (body x)"
  shows "moves R (each body xs)"
  using assms(3) by (induction xs) (auto intro!: moves_obind assms(1) moves_pure assms(2))

lemma stale_if_active_demotes: "moves demotes (stale_if_active sc m)"
  unfolding moves_def
proof
  fix s
  show "demotes s (snd (stale_if_active sc m s))"
    using demote_demotes [of s sc m] by (auto simp: stale_if_active_def demotable_def split: option.split)
qed

lemma invalidate_demotes: "moves demotes (invalidate_memory sc m)"
  unfolding invalidate_memory_def Let_def
  by (intro moves_obind transp_demotes moves_pure moves_if each_moves stale_if_active_demotes)

text \<open>A loop that demotes records which are active when it starts.\<close>

lemma each_demotes:
  assumes "\<And>x s'. x \<in> set xs \<Longrightarrow> demotes s s' \<Longrightarrow> demotes s' (snd (body x s'))"
  shows "demotes s (snd (each body xs s))"
  using assms
proof (induction xs arbitrary: s)
  case (Cons x xs)
  obtain r t where b: "body x s = (r, t)" by (cases "body x s")
  have st: "demotes s t" using Cons.prems [of x s] b by simp
  have "demotes t (snd (each body xs t))"
    by (rule Cons.IH) (use Cons.prems st demotes_trans in auto)
  with st b show ?case by (cases r) (auto simp: obind_def intro: demotes_trans)
qed simp

definition store_ok :: "hash_env \<Rightarrow> MemoryRepository \<Rightarrow> bool" where
  "store_ok H s \<longleftrightarrow> dict_wf (mr_rows s) \<and>
     (\<forall>k q c. row_of s k = Some (q, c) \<longrightarrow> k = (me_scope_id q, me_memory_id q) \<and> me_content_digest q = raw_digest H c)"

lemma list_scope_row:
  assumes "store_ok H s" "q \<in> set (list_scope s sc)"
  shows "get_memory s sc (me_memory_id q) = Some q" "me_scope_id q = sc"
proof -
  from assms(2) obtain k c where row: "(k, q, c) \<in> set (mr_rows s)" and sc: "me_scope_id q = sc"
    by (auto simp: list_scope_def)
  with assms(1) have found: "row_of s k = Some (q, c)" by (simp add: store_ok_def)
  with assms(1) have "k = (me_scope_id q, me_memory_id q)" unfolding store_ok_def by blast
  with found sc show "get_memory s sc (me_memory_id q) = Some q" "me_scope_id q = sc"
    by (simp_all add: get_memory_def)
qed

lemma get_memory_listed: "store_ok H s \<Longrightarrow> get_memory s sc m = Some q \<Longrightarrow> q \<in> set (list_scope s sc) \<and> me_memory_id q = m"
  by (force simp: get_memory_def list_scope_def store_ok_def dest: map_of_SomeD)

lemma demotes_status:
  assumes "demotes s t" "get_memory s sc m = Some q" "demotable q"
  shows "\<exists>p. get_memory t sc m = Some p \<and> demotable p"
proof -
  from assms(2) obtain c where "row_of s (sc, m) = Some (q, c)" by (auto simp: get_memory_def)
  with assms(1) have "demoted (Some (q, c)) (row_of t (sc, m))" by (metis demotes_def)
  then show ?thesis using assms(3) by cases (auto simp: get_memory_def)
qed

lemma reads_then_each:
  "snd (obind oget (\<lambda>s'. obind (each (body s') (ids s')) (\<lambda>u. oret (result s'))) s) = snd (each (body s) (ids s) s)"
  by (simp add: obind_def split: prod.split sum.split)

lemma demote_listed:
  assumes "store_ok H s" "q \<in> set (list_scope s sc)" "me_status q = ''active''" "demotes s s'"
  shows "demotes s' (snd (demote sc (me_memory_id q) n s'))"
proof -
  have "demotable q" using assms(3) by (simp add: demotable_def)
  then obtain p where "get_memory s' sc (me_memory_id q) = Some p" "demotable p"
    using demotes_status [OF assms(4) list_scope_row(1) [OF assms(1,2)]] by blast
  then show ?thesis by (rule demote_demotes)
qed

lemma reconcile_demotes:
  assumes "store_ok H s"
  shows "demotes s (snd (reconcile_ghosts sc s))"
proof -
  have "demotes s' (snd (demote_ghost sc m s'))" if "m \<in> set (ghost_ids s sc)" "demotes s s'" for m s'
  proof -
    from that(1) obtain q where "q \<in> set (list_scope s sc)" "me_status q = ''active''" "m = me_memory_id q"
      by (auto simp: list_scope_def ghost_ids_def)
    with demote_listed [OF assms _ _ that(2)] show ?thesis by (simp add: demote_ghost_def split: option.split)
  qed
  then show ?thesis unfolding reconcile_ghosts_def reads_then_each by (rule each_demotes)
qed

lemma stale_moved_demotes:
  assumes "store_ok H s"
  shows "demotes s (snd (mark_stale_if_source_moved sc ds s))"
  unfolding mark_stale_if_source_moved_def Let_def reads_then_each
  by (rule each_demotes) (use demote_listed [OF assms] in auto)

section \<open>The dependency closure\<close>

definition derived :: "MemoryRecord list \<Rightarrow> (string \<times> string) set" where
  "derived rs = {(x, me_memory_id r) | x r. r \<in> set rs \<and> me_supersedes r = Some x}"

lemma set_take_derived': "set (take_derived c rs closure) = derived rs `` {c} - set closure"
  by (auto simp: set_take_derived derived_def)

lemma derived_loop_mono: "set cl \<subseteq> set (derived_loop rs cl fr)"
  by (induction rs cl fr rule: derived_loop.induct) (auto simp: Let_def)

lemma derived_loop_sound: "set (derived_loop rs cl fr) \<subseteq> set cl \<union> (derived rs)\<^sup>+ `` set fr"
proof (induction rs cl fr rule: derived_loop.induct)
  case (2 rs cl c fr)
  have "(derived rs)\<^sup>+ `` set (rev (take_derived c rs cl) @ fr) \<union> set (take_derived c rs cl) \<subseteq> (derived rs)\<^sup>+ `` set (c # fr)"
    by (auto simp: set_take_derived' intro: trancl_into_trancl2)
  with 2 show ?case by (simp add: Let_def) blast
qed simp

lemma derived_loop_closed:
  assumes "derived rs `` (set cl - set fr) \<subseteq> set cl"
  shows "derived rs `` (set fr \<union> set (derived_loop rs cl fr)) \<subseteq> set (derived_loop rs cl fr)"
  using assms
proof (induction rs cl fr rule: derived_loop.induct)
  case (2 rs cl c fr)
  let ?new = "take_derived c rs cl"
  let ?out = "derived_loop rs (cl @ ?new) (rev ?new @ fr)"
  have "derived rs `` {c} \<subseteq> set (cl @ ?new)" by (auto simp: set_take_derived')
  moreover have "derived rs `` (set (cl @ ?new) - set (rev ?new @ fr)) \<subseteq> set (cl @ ?new)"
  proof -
    have "set (cl @ ?new) - set (rev ?new @ fr) \<subseteq> (set cl - set (c # fr)) \<union> {c}" by auto
    then have "derived rs `` (set (cl @ ?new) - set (rev ?new @ fr)) \<subseteq> derived rs `` (set cl - set (c # fr)) \<union> derived rs `` {c}"
      by blast
    with 2(2) show ?thesis using \<open>derived rs `` {c} \<subseteq> set (cl @ ?new)\<close> by auto
  qed
  ultimately show ?case using 2(1) [OF refl] derived_loop_mono [of "cl @ ?new" rs "rev ?new @ fr"] by (auto simp: Let_def)
qed simp

theorem set_dependency_closure: "set (dependency_closure s sc m) = (derived (list_scope s sc))\<^sup>+ `` {m}"
proof
  show "set (dependency_closure s sc m) \<subseteq> (derived (list_scope s sc))\<^sup>+ `` {m}"
    using derived_loop_sound [of "list_scope s sc" "[]" "[m]"] by (simp add: dependency_closure_def)
  have closed: "derived (list_scope s sc) `` (insert m (set (dependency_closure s sc m))) \<subseteq> set (dependency_closure s sc m)"
    using derived_loop_closed [of "list_scope s sc" "[]" "[m]"] by (simp add: dependency_closure_def)
  have "n \<in> set (dependency_closure s sc m)" if "(m, n) \<in> (derived (list_scope s sc))\<^sup>+" for n
    using that by (induction rule: trancl_induct) (use closed in blast)+
  then show "(derived (list_scope s sc))\<^sup>+ `` {m} \<subseteq> set (dependency_closure s sc m)" by blast
qed

lemma invalidated_ids:
  "invalidate_memory sc m s = (Ok ids, t) \<Longrightarrow> get_memory s sc m \<noteq> None \<Longrightarrow>
     set ids = (derived (list_scope s sc))\<^sup>* `` {m} \<and> each (stale_if_active sc) ids s = (Ok (), t)"
  by (auto simp: invalidate_memory_def obind_Ok_iff Let_def rtrancl_eq_or_trancl set_dependency_closure)

section \<open>What invalidation does\<close>

definition with_status :: "string \<Rightarrow> MemoryRecord \<times> string \<Rightarrow> MemoryRecord \<times> string" where
  "with_status st x = ((fst x)\<lparr>me_status := st\<rparr>, snd x)"

definition staled_row :: "MemoryRecord \<times> string \<Rightarrow> MemoryRecord \<times> string" where
  "staled_row x = (if me_status (fst x) = ''active'' then with_status ''stale'' x else x)"

lemma staled_row_idem [simp]: "staled_row (staled_row x) = staled_row x" "me_status (fst (staled_row x)) \<noteq> ''active''"
  by (auto simp: staled_row_def with_status_def)

lemma stale_if_active_row:
  "stale_if_active sc m s = (r, t) \<Longrightarrow> r = Ok () \<and>
     row_of t k = (if k = (sc, m) then map_option staled_row (row_of s k) else row_of s k)"
  by (cases "row_of s (sc, m)")
     (auto simp: stale_if_active_def get_memory_def demote_def memory_transition_def tx_def obind_def Let_def
        staled_row_def with_status_def split: if_splits)

lemma each_staled:
  "each (stale_if_active sc) ms s = (r, t) \<Longrightarrow> r = Ok () \<and>
     row_of t k = (if fst k = sc \<and> snd k \<in> set ms then map_option staled_row (row_of s k) else row_of s k)"
proof (induction ms arbitrary: s)
  case (Cons m ms)
  obtain q u where one: "stale_if_active sc m s = (q, u)" by (cases "stale_if_active sc m s")
  note here = stale_if_active_row [OF one, of k]
  with Cons.prems one have "each (stale_if_active sc) ms u = (r, t)" by (auto simp: obind_def)
  from Cons.IH [OF this] here show ?case by (cases k) (auto simp: option.map_comp comp_def)
qed simp

lemma invalidate_rows:
  assumes "invalidate_memory sc m s = (r, t)" "get_memory s sc m = Some q"
  shows "\<exists>ids. r = Ok ids \<and> set ids = (derived (list_scope s sc))\<^sup>* `` {m} \<and>
    (\<forall>k. row_of t k = (if fst k = sc \<and> snd k \<in> set ids then map_option staled_row (row_of s k) else row_of s k))"
proof -
  let ?ids = "m # dependency_closure s sc m"
  obtain e u where all: "each (stale_if_active sc) ?ids s = (e, u)" by (cases "each (stale_if_active sc) ?ids s")
  note rows = each_staled [OF all]
  with all assms have "r = Ok ?ids" "t = u" by (auto simp: invalidate_memory_def obind_def Let_def)
  moreover have "set ?ids = (derived (list_scope s sc))\<^sup>* `` {m}"
    by (auto simp: rtrancl_eq_or_trancl set_dependency_closure)
  ultimately show ?thesis using rows by blast
qed

section \<open>Every run of the service\<close>

inductive memory_call :: "hash_env \<Rightarrow> MemoryRepository \<Rightarrow> MemoryRepository \<Rightarrow> bool" for H where
  proposes: "propose_memory H sc m kind content src refs at exp rank s = (r, t) \<Longrightarrow> memory_call H s t"
| activates: "activate_memory sc m n sup_id s = (r', t) \<Longrightarrow> memory_call H s t"
| invalidates: "invalidate_memory sc m s = (ids, t) \<Longrightarrow> memory_call H s t"
| deletes: "delete_memory H sc m at pending s = (d, t) \<Longrightarrow> memory_call H s t"
| marks: "mark_stale_if_source_moved sc ds s = (ids, t) \<Longrightarrow> memory_call H s t"
| reconciles: "reconcile_ghosts sc s = (ids, t) \<Longrightarrow> memory_call H s t"
| quarantines: "quarantine sc m \<lparr>ms_repo = s, ms_quarantine_log = ql\<rparr> = (u, v) \<Longrightarrow> memory_call H s (ms_repo v)"
| loads: "import_index H sc manifest blobs s = (u, t) \<Longrightarrow> memory_call H s t"

text \<open>What a call does to the rows, as one of four changes.\<close>

definition one_active :: "MemoryRepository \<Rightarrow> bool" where
  "one_active s \<longleftrightarrow> (\<forall>sc m n q p. get_memory s sc m = Some q \<and> get_memory s sc n = Some p \<and>
     me_status q = ''active'' \<and> me_status p = ''active'' \<and> me_kind q = me_kind p \<longrightarrow> m = n)"

definition buried :: "MemoryRecord \<Rightarrow> bool" where
  "buried q \<longleftrightarrow> me_status q = ''deleted'' \<or> me_status q = ''quarantined''"

inductive row_change :: "hash_env \<Rightarrow> MemoryRepository \<Rightarrow> MemoryRepository \<Rightarrow> bool" for H where
  demoting: "demotes s t \<Longrightarrow> row_change H s t"
| proposing: "row_of s k = None \<Longrightarrow> k = (me_scope_id q, me_memory_id q) \<Longrightarrow> me_status q = ''candidate'' \<Longrightarrow>
    me_content_digest q = raw_digest H c \<Longrightarrow> mr_rows t = dict_set k (q, c) (mr_rows s) \<Longrightarrow> row_change H s t"
| burying: "row_of s k = Some (q, c) \<Longrightarrow> buried q' \<Longrightarrow> q' = moved_record (me_status q') None None q \<Longrightarrow>
    mr_rows t = dict_set k (q', c) (mr_rows s) \<Longrightarrow> row_change H s t"
| activating: "row_of s (sc, m) = Some (q, c) \<Longrightarrow> \<not> buried q \<Longrightarrow>
    (\<And>n p. get_memory s sc n = Some p \<Longrightarrow> me_status p = ''active'' \<Longrightarrow> me_kind p = me_kind q \<Longrightarrow> n = m) \<Longrightarrow>
    mr_rows t = dict_set (sc, m) (moved_record ''active'' v sp q, c) (mr_rows s) \<Longrightarrow> row_change H s t"
| restoring: "row_of s k = Some (q, c) \<Longrightarrow> me_content_digest q = raw_digest H c' \<Longrightarrow>
    mr_rows t = dict_set k (q, c') (mr_rows s) \<Longrightarrow> row_change H s t"

lemma moved_record_same [simp]:
  "me_scope_id (moved_record st v sp q) = me_scope_id q" "me_memory_id (moved_record st v sp q) = me_memory_id q"
  "me_content_digest (moved_record st v sp q) = me_content_digest q" "me_kind (moved_record st v sp q) = me_kind q"
  "me_status (moved_record st v sp q) = st"
  by (simp_all add: moved_record_def)

lemma demoted_row:
  "demoted x (Some (q, c)) \<Longrightarrow> \<exists>p. x = Some (p, c) \<and> (q = p \<or> demotable p \<and> q = p\<lparr>me_status := ''stale''\<rparr>)"
  by (auto elim: demoted.cases)

lemma demoting_keeps:
  assumes "demotes s t"
  shows "store_ok H s \<Longrightarrow> store_ok H t" "one_active s \<Longrightarrow> one_active t"
    "get_memory s sc m = Some q \<Longrightarrow> buried q \<Longrightarrow> get_memory t sc m = Some q"
proof -
  have row: "\<exists>p. row_of s k = Some (p, c) \<and> (q = p \<or> demotable p \<and> q = p\<lparr>me_status := ''stale''\<rparr>)" if "row_of t k = Some (q, c)" for k q c
    using assms that demoted_row by (metis demotes_def)
  show "store_ok H t" if "store_ok H s"
    unfolding store_ok_def
  proof (intro conjI allI impI)
    show "dict_wf (mr_rows t)" using assms that by (simp add: demotes_def store_ok_def)
    fix k q c
    assume "row_of t k = Some (q, c)"
    from row [OF this] obtain p where p: "row_of s k = Some (p, c)" "q = p \<or> demotable p \<and> q = p\<lparr>me_status := ''stale''\<rparr>" by blast
    with that have "k = (me_scope_id p, me_memory_id p) \<and> me_content_digest p = raw_digest H c" unfolding store_ok_def by blast
    with p(2) show "k = (me_scope_id q, me_memory_id q)" "me_content_digest q = raw_digest H c" by auto
  qed
  have active: "get_memory s sc m = Some q" if "get_memory t sc m = Some q" "me_status q = ''active''" for sc m q
    using that row [of "(sc, m)" q] by (fastforce simp: get_memory_def)
  show "one_active t" if "one_active s" using that active unfolding one_active_def by metis
  show "get_memory t sc m = Some q" if "get_memory s sc m = Some q" "buried q"
  proof -
    from that(1) obtain c where "row_of s (sc, m) = Some (q, c)" by (auto simp: get_memory_def)
    with assms have "demoted (Some (q, c)) (row_of t (sc, m))" by (metis demotes_def)
    then show ?thesis using that by cases (auto simp: get_memory_def buried_def demotable_def)
  qed
qed

lemma store_ok_set:
  "store_ok H s \<Longrightarrow> mr_rows t = dict_set k (q, c) (mr_rows s) \<Longrightarrow> k = (me_scope_id q, me_memory_id q) \<Longrightarrow>
     me_content_digest q = raw_digest H c \<Longrightarrow> store_ok H t"
  by (simp add: store_ok_def)

lemma store_okD: "store_ok H s \<Longrightarrow> row_of s k = Some (q, c) \<Longrightarrow> k = (me_scope_id q, me_memory_id q) \<and> me_content_digest q = raw_digest H c"
  unfolding store_ok_def by blast

lemma one_active_set:
  assumes "one_active s" "mr_rows t = dict_set (sc, m) (q, c) (mr_rows s)"
    "\<And>n p. me_status q = ''active'' \<Longrightarrow> get_memory s sc n = Some p \<Longrightarrow> me_status p = ''active'' \<Longrightarrow> me_kind p = me_kind q \<Longrightarrow> n = m"
  shows "one_active t"
proof -
  have get: "get_memory t sc' n = (if sc' = sc \<and> n = m then Some q else get_memory s sc' n)" for sc' n
    using assms(2) by (simp add: get_memory_def)
  show ?thesis
    unfolding one_active_def get using assms(1) [unfolded one_active_def, rule_format] assms(3) by (metis option.inject)
qed

lemma get_memory_set:
  "mr_rows t = dict_set (sc, m) (q, c) (mr_rows s) \<Longrightarrow>
     get_memory t sc' n = (if sc' = sc \<and> n = m then Some q else get_memory s sc' n)"
  by (simp add: get_memory_def)

text \<open>The invariant of the store: unique keys, content that matches its digest, and one active record per kind and scope.\<close>

definition memory_inv :: "hash_env \<Rightarrow> MemoryRepository \<Rightarrow> bool" where
  "memory_inv H s \<longleftrightarrow> store_ok H s \<and> one_active s"

lemma row_change_inv:
  assumes "row_change H s t" "memory_inv H s"
  shows "memory_inv H t"
proof -
  from assms(2) have ok: "store_ok H s" and one: "one_active s" by (simp_all add: memory_inv_def)
  have "store_ok H t \<and> one_active t"
    using assms(1)
  proof cases
    case demoting
    with ok one show ?thesis using demoting_keeps(1,2) by blast
  next
    case (proposing k q c)
    with ok one show ?thesis using store_ok_set one_active_set [of s t "fst k" "snd k" q c] by auto
  next
    case (burying k q c q')
    note here = store_okD [OF ok burying(1)]
    from burying(3) have same: "me_scope_id q' = me_scope_id q" "me_memory_id q' = me_memory_id q"
      "me_content_digest q' = me_content_digest q" by (metis moved_record_same)+
    have "me_status q' \<noteq> ''active''" using burying(2) by (auto simp: buried_def)
    with ok one here same burying(4) show ?thesis
      using store_ok_set [of H s t k q' c] one_active_set [of s t "fst k" "snd k" q' c] by auto
  next
    case (activating sc m q c v sp)
    note here = store_okD [OF ok activating(1)]
    let ?q = "moved_record ''active'' v sp q"
    have "one_active t" by (rule one_active_set [OF one activating(4)]) (simp add: activating(3))
    with here show ?thesis using store_ok_set [OF ok activating(4)] by simp
  next
    case (restoring k q c c')
    note here = store_okD [OF ok restoring(1)]
    then have k: "k = (me_scope_id q, me_memory_id q)" by simp
    have got: "get_memory s (fst k) (snd k) = Some q" using restoring(1) by (simp add: get_memory_def)
    have "one_active t"
    proof (rule one_active_set [OF one, of t "fst k" "snd k" q c'])
      show "mr_rows t = dict_set (fst k, snd k) (q, c') (mr_rows s)" using restoring(3) by simp
      fix n p
      assume "me_status q = ''active''" "get_memory s (fst k) n = Some p" "me_status p = ''active''" "me_kind p = me_kind q"
      with one got show "n = snd k" unfolding one_active_def by metis
    qed
    with k restoring(2) show ?thesis using store_ok_set [OF ok restoring(3)] by simp
  qed
  then show ?thesis by (simp add: memory_inv_def)
qed

text \<open>A deleted or quarantined record stays one of the two; nothing brings it back.\<close>

lemma row_change_buried:
  assumes "row_change H s t" "get_memory s sc m = Some q" "buried q"
  shows "\<exists>p. get_memory t sc m = Some p \<and> buried p"
  using assms(1)
proof cases
  case demoting
  with assms(2,3) show ?thesis using demoting_keeps(3) by blast
next
  case (proposing k p c)
  then have "(sc, m) \<noteq> k" using assms(2) by (auto simp: get_memory_def)
  with proposing assms(2,3) show ?thesis by (auto simp: get_memory_def)
next
  case (burying k p c q')
  then show ?thesis using assms(2,3) by (auto simp: get_memory_def)
next
  case (activating sc' m' p c v sp)
  then show ?thesis using assms(2,3) by (auto simp: get_memory_def)
next
  case (restoring k p c c')
  then show ?thesis using assms(2,3) by (auto simp: get_memory_def)
qed

lemma rtranclp_laws: "transp R\<^sup>*\<^sup>*" "reflp R\<^sup>*\<^sup>*"
  by (auto intro: transpI reflpI)

lemma transition_buries:
  assumes "memory_transition sc m st n None None s = (r, t)" "st = ''deleted'' \<or> st = ''quarantined''"
  shows "(row_change H)\<^sup>*\<^sup>* s t"
  using assms(1)
proof (cases rule: memory_transition_cases)
  case (moved q c)
  let ?q = "moved_record st None None q"
  have "row_change H s t"
    by (rule burying [OF moved(1), of ?q]) (use assms(2) moved(4) in \<open>simp_all add: buried_def moved_record_def\<close>)
  then show ?thesis by (rule r_into_rtranclp)
qed simp

lemma propose_change:
  assumes "propose_memory H sc m kind content src refs at exp rank s = (r, t)"
  shows "(row_change H)\<^sup>*\<^sup>* s t"
proof -
  let ?q = "\<lparr>me_memory_id = m, me_revision = 1, me_scope_id = sc, me_kind = kind, me_status = ''candidate'',
    me_content_digest = raw_digest H content, me_source_digest = src, me_evidence_refs = refs, me_created_at = at,
    me_expires_at = exp, me_supersedes = None, me_rank = rank\<rparr>"
  have t: "t = snd (put_candidate ?q content s)"
    using assms by (auto simp: propose_memory_def Let_def obind_def split: prod.splits sum.splits)
  show ?thesis
  proof (cases "row_of s (sc, m)")
    case None
    then have "mr_rows t = dict_set (sc, m) (?q, content) (mr_rows s)"
      by (simp add: t put_candidate_def tx_def get_memory_def)
    then have "row_change H s t" by (intro proposing [OF None, where q = ?q and c = content]) simp_all
    then show ?thesis by (rule r_into_rtranclp)
  next
    case (Some x)
    then have "t = s" by (simp add: t put_candidate_def tx_def get_memory_def raise_def)
    then show ?thesis by simp
  qed
qed

lemma import_change: "moves (row_change H)\<^sup>*\<^sup>* (import_index H sc manifest blobs)"
proof -
  have restored: "(row_change H)\<^sup>*\<^sup>* s (snd (restore_content sc m (raw_digest H blob) blob s))" for m blob s
  proof (cases "row_of s (sc, m)")
    case (Some x)
    obtain q c where x: "x = (q, c)" by (cases x)
    show ?thesis
    proof (cases "me_content_digest q = raw_digest H blob")
      case True
      let ?t = "snd (restore_content sc m (raw_digest H blob) blob s)"
      have "mr_rows ?t = dict_set (sc, m) (q, blob) (mr_rows s)" using Some x True by (simp add: restore_content_def)
      with Some x True have "row_change H s ?t" by (auto intro: restoring)
      then show ?thesis by (rule r_into_rtranclp)
    next
      case False
      with Some x show ?thesis by (simp add: restore_content_def)
    qed
  qed (simp add: restore_content_def)
  have "moves (row_change H)\<^sup>*\<^sup>* (import_entry H sc blobs e)" for e
    unfolding moves_def import_entry_def using restored
    by (auto simp: obind_def split: option.split prod.splits sum.splits) (metis snd_conv)+
  then show ?thesis unfolding import_index_def by (intro each_moves rtranclp_laws)
qed

lemma superseding_spec:
  assumes "superseding sc sup_id s = (r, u)"
  shows "\<exists>ids. r = Ok ids" "demotes s u"
    "sup_id = Some n \<Longrightarrow> get_memory u sc n = Some p \<Longrightarrow> me_status p \<noteq> ''active''"
proof -
  consider (plain) "r = Ok []" "u = s" "\<forall>n p. sup_id = Some n \<longrightarrow> get_memory s sc n = Some p \<longrightarrow> me_status p \<noteq> ''active''"
    | (stales) m q where "sup_id = Some m" "get_memory s sc m = Some q" "invalidate_memory sc m s = (r, u)"
  proof (cases sup_id)
    case None
    with assms that(1) show thesis by (simp add: superseding_def)
  next
    case (Some m)
    note m = Some
    show thesis
    proof (cases "get_memory s sc m")
      case None
      with assms m that(1) show thesis by (simp add: superseding_def)
    next
      case (Some q)
      with assms m that show thesis by (cases "me_status q = ''active''") (simp_all add: superseding_def)
    qed
  qed
  then have "(\<exists>ids. r = Ok ids) \<and> demotes s u \<and>
    (sup_id = Some n \<longrightarrow> get_memory u sc n = Some p \<longrightarrow> me_status p \<noteq> ''active'')"
  proof cases
    case stales
    from invalidate_rows [OF stales(3,2)] obtain ids where ids: "r = Ok ids" "m \<in> set ids"
      "\<And>k. row_of u k = (if fst k = sc \<and> snd k \<in> set ids then map_option staled_row (row_of s k) else row_of s k)" by auto
    from ids(2,3) have "get_memory u sc m = map_option (fst \<circ> staled_row) (row_of s (sc, m))"
      by (simp add: get_memory_def option.map_comp)
    then have "me_status p \<noteq> ''active''" if "get_memory u sc m = Some p" for p
      using that by (cases "row_of s (sc, m)") auto
    moreover have "demotes s u" using invalidate_demotes stales(3) movesD by metis
    ultimately show ?thesis using ids(1) stales(1) by auto
  qed simp
  then show "\<exists>ids. r = Ok ids" "demotes s u"
    "sup_id = Some n \<Longrightarrow> get_memory u sc n = Some p \<Longrightarrow> me_status p \<noteq> ''active''" by auto
qed

lemma demotes_active:
  assumes "demotes s u" "get_memory u sc n = Some p" "me_status p = ''active''"
  shows "get_memory s sc n = Some p"
proof -
  from assms(2) obtain c where "row_of u (sc, n) = Some (p, c)" by (auto simp: get_memory_def)
  with assms(1) obtain q where "row_of s (sc, n) = Some (q, c)" "p = q \<or> demotable q \<and> p = q\<lparr>me_status := ''stale''\<rparr>"
    by (metis demotes_def demoted_row)
  with assms(3) show ?thesis by (auto simp: get_memory_def)
qed

lemma demotes_kind:
  assumes "demotes s u" "get_memory s sc n = Some q" "get_memory u sc n = Some p" "\<not> buried q"
  shows "me_kind p = me_kind q" "\<not> buried p"
proof -
  from assms(3) obtain c where "row_of u (sc, n) = Some (p, c)" by (auto simp: get_memory_def)
  with assms(1) obtain q' where "row_of s (sc, n) = Some (q', c)" "p = q' \<or> demotable q' \<and> p = q'\<lparr>me_status := ''stale''\<rparr>"
    by (metis demotes_def demoted_row)
  with assms(2,4) show "me_kind p = me_kind q" "\<not> buried p" by (auto simp: get_memory_def buried_def)
qed

lemma activate_cases:
  assumes "activate_memory sc m n sup_id s = (r, t)"
  obtains (refused) e where "r = Inl e" "t = s"
  | (goes) q ids u where "get_memory s sc m = Some q" "me_status q = ''candidate'' \<or> me_status q = ''stale''"
      "active_conflicts s sc q m sup_id = []" "superseding sc sup_id s = (Ok ids, u)"
      "memory_transition sc m ''active'' n (Some (me_revision q + 1)) sup_id u = (r, t)"
proof (cases "get_memory s sc m")
  case None
  with assms show thesis by (intro refused) (auto simp: activate_memory_def obind_def raise_def)
next
  case (Some q)
  obtain e u where u: "superseding sc sup_id s = (e, u)" by (cases "superseding sc sup_id s")
  from superseding_spec(1) [OF u] obtain ids where ids: "e = Ok ids" by blast
  consider "\<not> (me_status q = ''candidate'' \<or> me_status q = ''stale'')" | "active_conflicts s sc q m sup_id \<noteq> []"
    | (both) "me_status q = ''candidate'' \<or> me_status q = ''stale''" "active_conflicts s sc q m sup_id = []" by blast
  then show thesis
  proof cases
    case 1
    then have "activate_memory sc m n sup_id s = (raise ''INPUT_INVALID'' (''cannot activate status '' @ me_status q), s)"
      using Some by (simp add: activate_memory_def obind_def)
    with assms show thesis by (intro refused) (auto simp: raise_def)
  next
    case 2
    then have "\<exists>c msg. activate_memory sc m n sup_id s = (raise c msg, s)"
      using Some by (simp add: activate_memory_def obind_def Let_def)
    with assms show thesis by (auto simp: raise_def intro: refused)
  next
    case both
    then have "activate_memory sc m n sup_id s = memory_transition sc m ''active'' n (Some (me_revision q + 1)) sup_id u"
      using Some u ids by (simp add: activate_memory_def obind_def)
    with assms show thesis by (intro goes [OF Some both u [unfolded ids]]) simp
  qed
qed

lemma activate_change:
  assumes "activate_memory sc m n sup_id s = (r, t)" "store_ok H s"
  shows "(row_change H)\<^sup>*\<^sup>* s t"
  using assms(1)
proof (cases rule: activate_cases)
  case (goes q ids u)
  note q = goes(1,2) and free = goes(3) and u = goes(4) and moved = goes(5)
  note dem = superseding_spec(2) [OF u]
  have first: "(row_change H)\<^sup>*\<^sup>* s u" using demoting [OF dem] by (rule r_into_rtranclp)
  from moved show ?thesis
  proof (cases rule: memory_transition_cases)
    case (moved p c)
    have got: "get_memory u sc m = Some p" using moved(1) by (simp add: get_memory_def)
    have "\<not> buried q" using q(2) by (auto simp: buried_def)
    note p = demotes_kind [OF dem q(1) got this]
    have "k = m" if "get_memory u sc k = Some x" "me_status x = ''active''" "me_kind x = me_kind p" for k x
    proof (rule ccontr)
      assume "k \<noteq> m"
      have x: "get_memory s sc k = Some x" by (rule demotes_active [OF dem that(1,2)])
      from get_memory_listed [OF assms(2) this] have "x \<in> set (list_scope s sc)" "me_memory_id x = k" by auto
      moreover have "sup_id \<noteq> Some k" using superseding_spec(3) [OF u _ that(1)] that(2) by auto
      ultimately have "k \<in> set (active_conflicts s sc q m sup_id)"
        using that p(1) \<open>k \<noteq> m\<close> by (auto simp: active_conflicts_def)
      with free show False by simp
    qed
    from activating [OF moved(1) p(2) this moved(4)] have "row_change H u t" .
    with first show ?thesis by (rule rtranclp.rtrancl_into_rtrancl)
  qed (use first in simp)
qed simp

lemma memory_call_changes:
  assumes "memory_call H s t" "memory_inv H s"
  shows "(row_change H)\<^sup>*\<^sup>* s t"
  using assms(1)
proof cases
  case proposes
  then show ?thesis by (rule propose_change)
next
  case activates
  then show ?thesis using assms(2) by (auto simp: memory_inv_def intro: activate_change)
next
  case invalidates
  with invalidate_demotes have "demotes s t" by (metis movesD)
  then show ?thesis by (intro r_into_rtranclp demoting)
next
  case (deletes sc m at pending d)
  then show ?thesis
    by (auto simp: delete_memory_def obind_def split: option.splits prod.splits sum.splits intro: transition_buries)
next
  case (marks sc ds ids)
  with stale_moved_demotes [of H s sc ds] assms(2) show ?thesis
    by (auto simp: memory_inv_def intro!: r_into_rtranclp demoting)
next
  case (reconciles sc ids)
  with reconcile_demotes [of H s sc] assms(2) show ?thesis
    by (auto simp: memory_inv_def intro!: r_into_rtranclp demoting)
next
  case (quarantines sc m ql u v)
  then show ?thesis
    by (auto simp: quarantine_def obind_def on_memory_def split: option.splits prod.splits sum.splits intro: transition_buries)
next
  case loads
  with import_change show ?thesis by (metis movesD)
qed

lemma row_changes_inv: "(row_change H)\<^sup>*\<^sup>* s t \<Longrightarrow> memory_inv H s \<Longrightarrow> memory_inv H t"
  by (induction rule: rtranclp_induct) (auto intro: row_change_inv)

lemma row_changes_buried:
  "(row_change H)\<^sup>*\<^sup>* s t \<Longrightarrow> get_memory s sc m = Some q \<Longrightarrow> buried q \<Longrightarrow> \<exists>p. get_memory t sc m = Some p \<and> buried p"
  by (induction rule: rtranclp_induct) (auto dest: row_change_buried)

lemma memory_run_changes: "(memory_call H)\<^sup>*\<^sup>* s t \<Longrightarrow> memory_inv H s \<Longrightarrow> (row_change H)\<^sup>*\<^sup>* s t"
proof (induction rule: rtranclp_induct)
  case (step u t)
  then have "memory_inv H u" using row_changes_inv by blast
  with step show ?case using memory_call_changes by (metis rtranclp_trans)
qed simp

lemma get_content_listed:
  assumes "store_ok H s" "q \<in> set (list_scope s sc)"
  shows "\<exists>body. get_content s sc (me_content_digest q) = Some body \<and> raw_digest H body = me_content_digest q"
proof -
  let ?P = "\<lambda>(k, r, content). me_scope_id r = sc \<and> me_content_digest r = me_content_digest q"
  from assms(2) obtain k c where "(k, q, c) \<in> set (mr_rows s)" "me_scope_id q = sc" by (auto simp: list_scope_def)
  then have "\<exists>x \<in> set (mr_rows s). ?P x" by (intro bexI [of _ "(k, q, c)"]) simp_all
  then have "List.find ?P (mr_rows s) \<noteq> None" unfolding find_None_iff by blast
  then obtain x where x: "List.find ?P (mr_rows s) = Some x" by blast
  obtain k' r c' where e: "x = (k', r, c')" by (cases x)
  from x e have row: "(k', r, c') \<in> set (mr_rows s)" "me_content_digest r = me_content_digest q"
    using find_Some_in [OF x] by auto
  with assms(1) have "row_of s k' = Some (r, c')" by (simp add: store_ok_def)
  from store_okD [OF assms(1) this] row(2) x e show ?thesis by (simp add: get_content_def)
qed

text \<open>A stable sort by one key after another orders by the pair of them.\<close>

lemma insort_lex:
  "sorted_wrt (\<lambda>x y. f x < f y \<or> f x = f y \<and> g x \<le> g y) ys \<Longrightarrow> \<forall>y \<in> set ys. g x \<le> g y \<Longrightarrow>
     sorted_wrt (\<lambda>x y. f x < f y \<or> f x = f y \<and> g x \<le> g y) (insort_key f x ys)"
  for f :: "'a \<Rightarrow> 'b::linorder" and g :: "'a \<Rightarrow> 'c::linorder"
proof (induction ys)
  case (Cons y ys)
  show ?case
  proof (cases "f x \<le> f y")
    case True
    with Cons.prems show ?thesis by (fastforce dest: le_less_trans)
  next
    case False
    with Cons show ?thesis by (auto simp: set_insort_key)
  qed
qed simp

lemma sort_key_lex:
  "sorted_wrt (\<lambda>x y. f x < f y \<or> f x = f y \<and> g x \<le> g y) (sort_key f (sort_key g xs))"
  for f :: "'a \<Rightarrow> 'b::linorder" and g :: "'a \<Rightarrow> 'c::linorder"
proof -
  have "sorted (map g ys) \<Longrightarrow> sorted_wrt (\<lambda>x y. f x < f y \<or> f x = f y \<and> g x \<le> g y) (sort_key f ys)" for ys
    by (induction ys) (auto intro!: insort_lex)
  then show ?thesis by simp
qed

lemma query_memory_Ok:
  "query_memory s sc now av terms limit = Ok res \<longleftrightarrow> 0 \<le> limit \<and>
     res = \<lparr>rr_records = take (nat limit) (ranked (eligible_records (list_scope s sc) sc now av terms)),
       rr_reason = (if take (nat limit) (ranked (eligible_records (list_scope s sc) sc now av terms)) \<noteq> [] then ''ok'' else ''no_recall''),
       rr_excluded = sort (map me_memory_id [r \<leftarrow> list_scope s sc. me_scope_id r = sc \<and> \<not> serves now av r])\<rparr>"
  by (auto simp: query_memory_def select_recall_def Let_def raise_def)

lemma query_memory_answer:
  assumes "0 \<le> limit"
  shows "\<exists>res. query_memory s sc now av terms limit = Ok res \<and>
    rr_records res = take (nat limit) (ranked (eligible_records (list_scope s sc) sc now av terms)) \<and>
    (rr_reason res = ''no_recall'' \<longleftrightarrow> rr_records res = []) \<and>
    set (rr_excluded res) = me_memory_id ` {r \<in> set (list_scope s sc). \<not> serves now av r}"
proof -
  let ?xs = "take (nat limit) (ranked (eligible_records (list_scope s sc) sc now av terms))"
  let ?ex = "sort (map me_memory_id [r \<leftarrow> list_scope s sc. me_scope_id r = sc \<and> \<not> serves now av r])"
  have "set ?ex = me_memory_id ` {r \<in> set (list_scope s sc). \<not> serves now av r}" by (auto simp: list_scope_def)
  moreover have "query_memory s sc now av terms limit =
      Ok \<lparr>rr_records = ?xs, rr_reason = (if ?xs \<noteq> [] then ''ok'' else ''no_recall''), rr_excluded = ?ex\<rparr>"
    using assms unfolding query_memory_Ok by blast
  ultimately show ?thesis by (cases "?xs = []") simp_all
qed

lemma set_ranked [simp]: "set (ranked rs) = set rs" "length (ranked rs) = length rs"
  by (simp_all add: ranked_def)

lemma buried_not_served:
  assumes "store_ok H s" "get_memory s sc m = Some q" "buried q"
  shows "query_memory s sc now av terms limit = Ok res \<Longrightarrow> m \<notin> me_memory_id ` set (rr_records res)"
    "m \<notin> fst ` set (em_entries (export_corpus H s sc refs))"
    "m \<notin> fst ` set (search_documents s sc text now av revalidate)"
proof -
  have "r \<in> set (list_scope s sc) \<Longrightarrow> me_status r = ''active'' \<Longrightarrow> me_memory_id r \<noteq> m" for r
    using list_scope_row(1) [OF assms(1), of r sc] assms(2,3) by (auto simp: buried_def)
  then have none: "\<not> (\<exists>r \<in> set (list_scope s sc). me_status r = ''active'' \<and> me_memory_id r = m)" by blast
  show "m \<notin> me_memory_id ` set (rr_records res)" if "query_memory s sc now av terms limit = Ok res"
  proof -
    have "set (rr_records res) \<subseteq> set (eligible_records (list_scope s sc) sc now av terms)"
      using that set_take_subset unfolding query_memory_Ok by fastforce
    then have "set (rr_records res) \<subseteq> {r \<in> set (list_scope s sc). me_status r = ''active''}"
      by (auto simp: eligible_records_def serves_def)
    with none show ?thesis by blast
  qed
  show "m \<notin> fst ` set (em_entries (export_corpus H s sc refs))" using none by (fastforce simp: export_corpus_def Let_def)
  show "m \<notin> fst ` set (search_documents s sc text now av revalidate)" using none by (fastforce simp: search_documents_def)
qed

lemma buried_refuses:
  assumes "get_memory s sc m = Some q" "buried q"
  shows "activate_memory sc m n sup_id s = (raise ''INPUT_INVALID'' (''cannot activate status '' @ me_status q), s)"
    "propose_memory H sc m kind content src refs at exp rank s = (raise ''IDEMPOTENCY_CONFLICT'' (''memory '' @ py_repr m @ '' exists''), s)"
  using assms
  by (auto simp: activate_memory_def propose_memory_def put_candidate_def obind_def tx_def raise_def buried_def Let_def)

lemma taken_of_sorted:
  assumes "sorted_wrt R xs"
  shows "set (take n xs) \<subseteq> set xs" "set (take n xs) = set xs \<or> length (take n xs) = n"
    "\<forall>x \<in> set (take n xs). \<forall>y \<in> set xs - set (take n xs). R x y" "sorted_wrt R (take n xs)"
proof -
  have split: "xs = take n xs @ drop n xs" by simp
  from assms have "sorted_wrt R (take n xs @ drop n xs)" by simp
  then have both: "sorted_wrt R (take n xs)" "\<forall>x \<in> set (take n xs). \<forall>y \<in> set (drop n xs). R x y"
    unfolding sorted_wrt_append by auto
  have "set xs = set (take n xs) \<union> set (drop n xs)" by (metis split set_append)
  with both(2) show "\<forall>x \<in> set (take n xs). \<forall>y \<in> set xs - set (take n xs). R x y" by blast
  show "sorted_wrt R (take n xs)" by (rule both(1))
  show "set (take n xs) \<subseteq> set xs" by (rule set_take_subset)
  show "set (take n xs) = set xs \<or> length (take n xs) = n" by (cases "n \<le> length xs") simp_all
qed

lemma buried_after:
  assumes "delete_memory H sc m at pending s = (Ok d, t) \<or>
    quarantine sc m \<lparr>ms_repo = s, ms_quarantine_log = ql\<rparr> = (Ok (), \<lparr>ms_repo = t, ms_quarantine_log = ql'\<rparr>)"
  shows "\<exists>q. get_memory t sc m = Some q \<and> buried q"
proof -
  from assms have "\<exists>n r. memory_transition sc m ''deleted'' n None None s = (Ok r, t) \<or>
      memory_transition sc m ''quarantined'' n None None s = (Ok r, t)"
  proof
    assume "delete_memory H sc m at pending s = (Ok d, t)"
    then show ?thesis by (auto simp: delete_memory_def obind_Ok_iff raise_def split: option.splits)
  next
    assume "quarantine sc m \<lparr>ms_repo = s, ms_quarantine_log = ql\<rparr> = (Ok (), \<lparr>ms_repo = t, ms_quarantine_log = ql'\<rparr>)"
    then show ?thesis by (auto simp: quarantine_def obind_Ok_iff on_memory_def raise_def split: option.splits prod.splits)
  qed
  then obtain st n r where st: "st = ''deleted'' \<or> st = ''quarantined''"
    and moved: "memory_transition sc m st n None None s = (Ok r, t)" by blast
  from moved show ?thesis
  proof (cases rule: memory_transition_cases)
    case (moved q c)
    with st show ?thesis by (auto simp: get_memory_def buried_def)
  qed simp
qed

section \<open>What the service promises\<close>

text \<open>
  Claim C12. Whatever calls are made of the memory service, every record of a scope reads back a body that has the
  record's content digest, and no scope ever holds two active records of one kind.
\<close>

theorem memory_consistent:
  assumes "mr_rows s = []" "(memory_call H)\<^sup>*\<^sup>* s t"
  shows "\<forall>q \<in> set (list_scope t sc).
    (\<exists>body. get_content t sc (me_content_digest q) = Some body \<and> raw_digest H body = me_content_digest q) \<and>
    (\<forall>p \<in> set (list_scope t sc). me_status q = ''active'' \<and> me_status p = ''active'' \<and> me_kind p = me_kind q \<longrightarrow> p = q)"
proof -
  have "memory_inv H s" using assms(1) by (simp add: memory_inv_def store_ok_def one_active_def get_memory_def)
  with memory_run_changes [OF assms(2)] row_changes_inv have inv: "store_ok H t" "one_active t"
    unfolding memory_inv_def by (metis memory_inv_def)+
  note listed = list_scope_row [OF inv(1)]
  have body: "\<exists>b. get_content t sc (me_content_digest q) = Some b \<and> raw_digest H b = me_content_digest q"
    if "q \<in> set (list_scope t sc)" for q
    using get_content_listed [OF inv(1) that] .
  have "p = q" if "q \<in> set (list_scope t sc)" "p \<in> set (list_scope t sc)"
    "me_status q = ''active''" "me_status p = ''active''" "me_kind p = me_kind q" for p q
  proof -
    have "me_memory_id p = me_memory_id q"
      using inv(2) listed(1) [OF that(1)] listed(1) [OF that(2)] that(3,4,5) unfolding one_active_def by metis
    with listed(1) [OF that(1)] listed(1) [OF that(2)] show ?thesis by simp
  qed
  with body show ?thesis by blast
qed

definition no_memories :: MemoryRepository where
  "no_memories = \<lparr>mr_ledger = empty_ledger, mr_rows = []\<rparr>"

lemma propose_new:
  "get_memory s sc m = None \<Longrightarrow> \<exists>r t. propose_memory H sc m kind content src refs at exp rank s = (Ok r, t) \<and>
     get_memory t sc m = Some r \<and> memory_call H s t"
proof -
  assume new: "get_memory s sc m = None"
  then obtain r t where "propose_memory H sc m kind content src refs at exp rank s = (Ok r, t)" "get_memory t sc m = Some r"
    by (simp add: propose_memory_def Let_def put_candidate_def tx_def obind_def get_memory_def)
  then show ?thesis using proposes by blast
qed

lemma memory_consistent_witness:
  "\<exists>t. memory_call plain_hash no_memories t \<and> (\<forall>q \<in> set (list_scope t ''s'').
    (\<exists>body. get_content t ''s'' (me_content_digest q) = Some body \<and> raw_digest plain_hash body = me_content_digest q) \<and>
    (\<forall>p \<in> set (list_scope t ''s''). me_status q = ''active'' \<and> me_status p = ''active'' \<and> me_kind p = me_kind q \<longrightarrow> p = q))"
proof -
  have "get_memory no_memories ''s'' ''m'' = None" by (simp add: get_memory_def no_memories_def)
  from propose_new [OF this] obtain t where t: "memory_call plain_hash no_memories t" by blast
  then have "(memory_call plain_hash)\<^sup>*\<^sup>* no_memories t" by (rule r_into_rtranclp)
  with t memory_consistent [of no_memories plain_hash t "''s''"] show ?thesis by (simp add: no_memories_def) blast
qed

text \<open>
  Claim C11. A deleted or quarantined memory never returns: whatever calls follow, no recall, export or search of its
  scope shows it, activating it is refused whatever it supersedes, and its id cannot be proposed again.
\<close>

theorem deleted_never_served:
  assumes "mr_rows s0 = []" "(memory_call H)\<^sup>*\<^sup>* s0 s"
    and "delete_memory H sc m at pending s = (Ok d, t) \<or>
      quarantine sc m \<lparr>ms_repo = s, ms_quarantine_log = ql\<rparr> = (Ok (), \<lparr>ms_repo = t, ms_quarantine_log = ql'\<rparr>)"
    and "(memory_call H)\<^sup>*\<^sup>* t u"
  shows "(\<forall>now av terms limit res. query_memory u sc now av terms limit = Ok res \<longrightarrow> m \<notin> me_memory_id ` set (rr_records res)) \<and>
    (\<forall>refs. m \<notin> fst ` set (em_entries (export_corpus H u sc refs))) \<and>
    (\<forall>text now av revalidate. m \<notin> fst ` set (search_documents u sc text now av revalidate)) \<and>
    (\<forall>n sup_id. \<exists>msg. activate_memory sc m n sup_id u = (raise ''INPUT_INVALID'' msg, u)) \<and>
    (\<forall>kind content src refs now exp rank. \<exists>msg.
       propose_memory H sc m kind content src refs now exp rank u = (raise ''IDEMPOTENCY_CONFLICT'' msg, u))"
proof -
  have "memory_inv H s0" using assms(1) by (simp add: memory_inv_def store_ok_def one_active_def get_memory_def)
  with assms(2) have s: "memory_inv H s" using memory_run_changes row_changes_inv by blast
  from assms(3) have "memory_call H s t" using deletes quarantines by (metis MemoryService.select_convs(1))
  with s have t: "memory_inv H t" using memory_call_changes row_changes_inv by blast
  from buried_after [OF assms(3)] obtain q where q: "get_memory t sc m = Some q" "buried q" by blast
  note run = memory_run_changes [OF assms(4) t]
  have u: "store_ok H u" using row_changes_inv [OF run t] by (simp add: memory_inv_def)
  from row_changes_buried [OF run q] obtain p where p: "get_memory u sc m = Some p" "buried p" by blast
  note gone = buried_not_served [OF u p] and refused = buried_refuses [OF p]
  have "\<forall>n sup_id. \<exists>msg. activate_memory sc m n sup_id u = (raise ''INPUT_INVALID'' msg, u)"
    and "\<forall>kind content src refs now exp rank. \<exists>msg.
       propose_memory H sc m kind content src refs now exp rank u = (raise ''IDEMPOTENCY_CONFLICT'' msg, u)"
    using refused by auto
  with gone show ?thesis by simp
qed

lemma deleted_never_served_witness:
  "\<exists>s t d. delete_memory plain_hash ''s'' ''m'' 7 [] s = (Ok d, t) \<and>
     activate_memory ''s'' ''m'' 1 None t = (raise ''INPUT_INVALID'' ''cannot activate status deleted'', t) \<and>
     ''m'' \<notin> fst ` set (search_documents t ''s'' '''' 0 [] False)"
proof -
  have "get_memory no_memories ''s'' ''m'' = None" by (simp add: get_memory_def no_memories_def)
  from propose_new [OF this] obtain r s where s: "get_memory s ''s'' ''m'' = Some r" "memory_call plain_hash no_memories s" by blast
  from s(2) have run: "(memory_call plain_hash)\<^sup>*\<^sup>* no_memories s" by (rule r_into_rtranclp)
  from s(1) obtain c where "row_of s (''s'', ''m'') = Some (r, c)" by (auto simp: get_memory_def)
  then obtain d t where d: "delete_memory plain_hash ''s'' ''m'' 7 [] s = (Ok d, t)"
    and st: "\<exists>q. get_memory t ''s'' ''m'' = Some q \<and> me_status q = ''deleted''"
    by (auto simp: delete_memory_def get_memory_def memory_transition_def tx_def obind_def Let_def)
  have "mr_rows no_memories = []" by (simp add: no_memories_def)
  from deleted_never_served [OF this run disjI1 [OF d] rtranclp.rtrancl_refl]
  have gone: "''m'' \<notin> fst ` set (search_documents t ''s'' '''' 0 [] False)" by blast
  from st have "activate_memory ''s'' ''m'' 1 None t = (raise ''INPUT_INVALID'' ''cannot activate status deleted'', t)"
    by (auto simp: activate_memory_def obind_def)
  with d gone show ?thesis by blast
qed


definition sample_memory :: MemoryRecord where
  "sample_memory = \<lparr>me_memory_id = ''m'', me_revision = 2, me_scope_id = ''s'', me_kind = ''style'', me_status = ''active'',
     me_content_digest = ''sha256:tabs'', me_source_digest = ''d'', me_evidence_refs = [''e''], me_created_at = 0,
     me_expires_at = Some 9, me_supersedes = None, me_rank = 1\<rparr>"

definition sample_memories :: MemoryRepository where
  "sample_memories = no_memories\<lparr>mr_rows := [((''s'', ''m''), sample_memory, ''tabs''),
     ((''s'', ''n''), sample_memory\<lparr>me_memory_id := ''n'', me_status := ''candidate''\<rparr>, ''tabs'')]\<rparr>"


text \<open>
  An activation that its revision check refuses has already invalidated the record it would have superseded: the
  two are separate transactions.
\<close>

lemma refused_activation_demotes:
  assumes "get_memory s sc m = Some q" "me_status q = ''candidate''" "me_revision q \<noteq> n"
    and "active_conflicts s sc q m (Some k) = []" "get_memory s sc k = Some old" "me_status old = ''active''"
  shows "\<exists>t msg p. activate_memory sc m n (Some k) s = (raise ''STALE_REVISION'' msg, t) \<and>
    get_memory t sc k = Some p \<and> me_status p \<noteq> ''active''"
proof -
  obtain r u where u: "superseding sc (Some k) s = (r, u)" by (cases "superseding sc (Some k) s")
  from superseding_spec(1) [OF u] obtain ids where r: "r = Ok ids" by blast
  note dem = superseding_spec(2) [OF u]
  have rev: "\<exists>q' c. row_of u (sc, x) = Some (q', c) \<and> me_revision q' = me_revision p" if p: "get_memory s sc x = Some p" for x p
  proof -
    from p obtain c where "row_of s (sc, x) = Some (p, c)" by (auto simp: get_memory_def)
    with dem have "demoted (Some (p, c)) (row_of u (sc, x))" by (metis demotes_def)
    then show ?thesis by cases auto
  qed
  from rev [OF assms(1)] assms(3) have "\<exists>msg. memory_transition sc m ''active'' n v (Some k) u = (raise ''STALE_REVISION'' msg, u)" for v
    by (auto simp: memory_transition_def tx_def raise_def)
  then have "\<exists>msg. activate_memory sc m n (Some k) s = (raise ''STALE_REVISION'' msg, u)"
    using assms(1,2,4) u r by (simp add: activate_memory_def obind_def)
  moreover from rev [OF assms(5)] obtain p where "get_memory u sc k = Some p" by (auto simp: get_memory_def)
  ultimately show ?thesis using superseding_spec(3) [OF u refl] by blast
qed

end
