(* ===== verification/Verification.thy ===== *)
theory Verification
  imports PyObj
begin

text \<open>
  \<open>workflow/verification.py\<close>: the verdict on one artifact from the outcome of its checks, and what a
  finished run may claim. The run of \<open>pytest\<close> itself is outside: \<open>run_results\<close> starts from the
  \<open>testcase\<close> elements of the report it leaves.
\<close>

definition VERDICTS :: "string list" where
  "VERDICTS = [''verified'', ''failed'', ''not_run'', ''unverifiable'', ''tampered'']"

definition CHECK_STATES :: "string list" where
  "CHECK_STATES = [''passed'', ''failed'', ''skipped'', ''not_run'']"

record CheckResult =
  cr_check_id :: string
  cr_status :: string
  cr_evidence_ref :: string

record VerificationReport =
  vr_artifact_digest :: string
  vr_verdict :: string
  vr_results :: "CheckResult list"
  vr_findings :: "string list"
  vr_raw_evidence_ref :: "string option"

record RawRunReport =
  rr_exit_code :: int
  rr_results :: "CheckResult list"
  rr_raw_ref :: string
  rr_summary :: string

text \<open>\<open>dict.fromkeys(mandatory)\<close>: first occurrences in order.\<close>

definition unique_ids :: "string list \<Rightarrow> string list" where
  "unique_ids xs = rev (remdups (rev xs))"

text \<open>One round of the loop over the mandatory checks, on \<open>(tampered, not_run)\<close>.\<close>

definition check_mandatory ::
  "(string, CheckResult) dict \<Rightarrow> (string, string) dict \<Rightarrow> string \<Rightarrow> string list \<times> string list \<Rightarrow> string list \<times> string list"
where
  "check_mandatory by_id oracles check_id acc =
     (case acc of (tampered, not_run) \<Rightarrow>
       (case dict_get by_id check_id of
          None \<Rightarrow>
            if check_id \<in> set (dict_keys oracles)
            then (tampered @ [''TEST_TAMPERED:'' @ check_id @ '' removed''], not_run)
            else (tampered, not_run @ [check_id])
        | Some seen \<Rightarrow>
            if (case dict_get oracles check_id of None \<Rightarrow> False | Some expected \<Rightarrow> cr_evidence_ref seen \<noteq> expected)
            then (tampered @ [''TEST_TAMPERED:'' @ check_id @ '' oracle changed''], not_run)
            else if cr_status seen \<in> {''skipped'', ''not_run''} then (tampered, not_run @ [check_id])
            else (tampered, not_run)))"

definition verify_artifact ::
  "string \<Rightarrow> CheckResult list \<Rightarrow> string list \<Rightarrow> string option \<Rightarrow> (string, string) dict option \<Rightarrow> VerificationReport"
where
  "verify_artifact artifact_digest checks mandatory raw_evidence_ref expected_oracle =
     (let report = (\<lambda>verdict findings raw. \<lparr>vr_artifact_digest = artifact_digest, vr_verdict = verdict,
            vr_results = checks, vr_findings = findings, vr_raw_evidence_ref = raw\<rparr>) in
      if raw_evidence_ref = None then report ''unverifiable'' [''RAW_EVIDENCE_MISSING''] None
      else if [c \<leftarrow> checks. cr_status c \<in> {''passed'', ''failed''}] = []
      then report ''not_run'' [''NO_CHECKS_EXECUTED''] raw_evidence_ref
      else
        let by_id = index_by cr_check_id checks;
            oracles = (case expected_oracle of None \<Rightarrow> [] | Some d \<Rightarrow> d);
            (tampered, not_run) = fold (check_mandatory by_id oracles) (unique_ids mandatory) ([], []) in
        if tampered \<noteq> [] then report ''tampered'' tampered raw_evidence_ref
        else if not_run \<noteq> [] then report ''not_run'' (map (\<lambda>c. ''MANDATORY_NOT_RUN:'' @ c) not_run) raw_evidence_ref
        else
          let failed = map cr_check_id [c \<leftarrow> checks. cr_status c = ''failed''] in
          if failed \<noteq> [] then report ''failed'' (map (\<lambda>c. ''CHECK_FAILED:'' @ c) failed) raw_evidence_ref
          else report ''verified'' [] raw_evidence_ref)"

definition require_fresh_verification :: "VerificationReport \<Rightarrow> string \<Rightarrow> string \<Rightarrow> unit result" where
  "require_fresh_verification report current_artifact_digest code =
     (if vr_verdict report \<noteq> ''verified'' then raise ''UNVERIFIED'' (vr_verdict report)
      else if vr_artifact_digest report \<noteq> current_artifact_digest
      then raise code ''artifact changed since verification''
      else Ok ())"

text \<open>A \<open>testcase\<close> element: the two attributes and which of the three children it has.\<close>

record TestCase =
  tc_classname :: "string option"
  tc_name :: "string option"
  tc_failure :: bool
  tc_skipped :: bool
  tc_error :: bool

definition str_or_none :: "string option \<Rightarrow> string" where
  "str_or_none s = (case s of None \<Rightarrow> ''None'' | Some x \<Rightarrow> x)"

definition run_results :: "string \<Rightarrow> TestCase list \<Rightarrow> CheckResult list" where
  "run_results junit_path cases = map (\<lambda>c.
     \<lparr>cr_check_id = str_or_none (tc_classname c) @ ''.'' @ str_or_none (tc_name c),
      cr_status = (if tc_failure c then ''failed'' else if tc_skipped c then ''skipped''
                   else if tc_error c then ''failed'' else ''passed''),
      cr_evidence_ref = junit_path\<rparr>) cases"

definition report_from_run :: "RawRunReport \<Rightarrow> string \<Rightarrow> string list \<Rightarrow> VerificationReport" where
  "report_from_run run artifact_digest mandatory =
     (if rr_exit_code run \<in> {2, 3, 4}
      then \<lparr>vr_artifact_digest = artifact_digest, vr_verdict = ''unverifiable'', vr_results = rr_results run,
            vr_findings = [''RUNNER_ERROR'', rr_summary run], vr_raw_evidence_ref = Some (rr_raw_ref run)\<rparr>
      else verify_artifact artifact_digest (rr_results run) mandatory (Some (rr_raw_ref run)) None)"

record CompletionAssessment =
  ca_status :: string
  ca_outcome :: string
  ca_may_apply :: bool
  ca_source_changed :: bool
  ca_learning_status :: string
  ca_findings :: "string list"

definition assess_run ::
  "string \<Rightarrow> string \<Rightarrow> VerificationReport option \<Rightarrow> string option \<Rightarrow> string option \<Rightarrow> bool \<Rightarrow> string \<Rightarrow>
    CompletionAssessment result"
where
  "assess_run request_kind delivery_mode verification reviewed_digest current_digest source_changed lesson_status =
     (let assessment = (\<lambda>status outcome may_apply changed findings.
            \<lparr>ca_status = status, ca_outcome = outcome, ca_may_apply = may_apply, ca_source_changed = changed,
             ca_learning_status = lesson_status, ca_findings = findings\<rparr>) in
      if request_kind = ''analysis'' then Ok (assessment ''answered'' ''answered'' False False [])
      else
        case verification of
          None \<Rightarrow> Ok (assessment ''unverifiable'' ''failed'' False source_changed [''VERIFICATION_MISSING''])
        | Some v \<Rightarrow>
            if vr_verdict v = ''tampered'' then Ok (assessment ''blocked'' ''failed'' False source_changed (vr_findings v))
            else if vr_verdict v \<in> {''not_run'', ''unverifiable''}
            then Ok (assessment ''blocked'' ''failed'' False source_changed
              (if vr_findings v \<noteq> [] then vr_findings v else [''NOT_RUN'']))
            else if reviewed_digest \<noteq> None \<and> current_digest \<noteq> None \<and> reviewed_digest \<noteq> current_digest
            then raise ''STALE_EVIDENCE'' ''code changed after the reviewed digest''
            else if vr_verdict v = ''failed''
            then Ok (assessment ''blocked'' ''failed'' False source_changed (vr_findings v))
            else if \<not> source_changed then Ok (assessment ''complete'' ''verified_no_change'' False False [])
            else Ok (assessment ''complete'' ''changed'' (delivery_mode = ''apply_to_source'') source_changed []))"

section \<open>The verdict\<close>

lemma set_unique_ids [simp]: "set (unique_ids xs) = set xs"
  by (simp add: unique_ids_def)

text \<open>How a mandatory check stands: its last result counts.\<close>

definition tampered_check :: "CheckResult list \<Rightarrow> (string, string) dict \<Rightarrow> string \<Rightarrow> bool" where
  "tampered_check checks oracles m \<longleftrightarrow>
     (case dict_get (index_by cr_check_id checks) m of
        None \<Rightarrow> m \<in> set (dict_keys oracles)
      | Some c \<Rightarrow> (case dict_get oracles m of None \<Rightarrow> False | Some expected \<Rightarrow> cr_evidence_ref c \<noteq> expected))"

definition missing_check :: "CheckResult list \<Rightarrow> string \<Rightarrow> bool" where
  "missing_check checks m \<longleftrightarrow>
     (case dict_get (index_by cr_check_id checks) m of
        None \<Rightarrow> True | Some c \<Rightarrow> cr_status c \<in> {''skipped'', ''not_run''})"

lemma check_mandatory_step:
  "tampered_check checks oracles m \<Longrightarrow>
     \<exists>msg. check_mandatory (index_by cr_check_id checks) oracles m (t, n) = (t @ [msg], n)"
  "\<not> tampered_check checks oracles m \<Longrightarrow>
     check_mandatory (index_by cr_check_id checks) oracles m (t, n) = (t, n @ (if missing_check checks m then [m] else []))"
  by (cases "dict_get (index_by cr_check_id checks) m";
      simp add: check_mandatory_def tampered_check_def missing_check_def del: set_map)+

lemma fold_mandatory:
  "fst (fold (check_mandatory (index_by cr_check_id checks) oracles) ms (t, n)) = [] \<longleftrightarrow>
     t = [] \<and> (\<forall>m \<in> set ms. \<not> tampered_check checks oracles m)"
  "(\<forall>m \<in> set ms. \<not> tampered_check checks oracles m) \<Longrightarrow>
     snd (fold (check_mandatory (index_by cr_check_id checks) oracles) ms (t, n)) = n @ filter (missing_check checks) ms"
proof (induction ms arbitrary: t n)
  case (Cons m ms)
  {
    case 1
    show ?case
    proof (cases "tampered_check checks oracles m")
      case True
      then obtain msg where "check_mandatory (index_by cr_check_id checks) oracles m (t, n) = (t @ [msg], n)"
        using check_mandatory_step(1) by blast
      with True Cons(1) show ?thesis by simp
    qed (simp add: check_mandatory_step(2) Cons(1))
  next
    case 2
    then show ?case by (simp add: check_mandatory_step(2) Cons(2))
  }
qed simp_all

definition verdict_for ::
  "CheckResult list \<Rightarrow> string list \<Rightarrow> string option \<Rightarrow> (string, string) dict \<Rightarrow> string"
where
  "verdict_for checks mandatory raw oracles =
     (if raw = None then ''unverifiable''
      else if \<forall>c \<in> set checks. cr_status c \<notin> {''passed'', ''failed''} then ''not_run''
      else if \<exists>m \<in> set mandatory. tampered_check checks oracles m then ''tampered''
      else if \<exists>m \<in> set mandatory. missing_check checks m then ''not_run''
      else if \<exists>c \<in> set checks. cr_status c = ''failed'' then ''failed''
      else ''verified'')"

lemma verdict_eq:
  "vr_verdict (verify_artifact d checks mandatory raw oracles) =
     verdict_for checks mandatory raw (case oracles of None \<Rightarrow> [] | Some m \<Rightarrow> m) \<and>
   (vr_verdict (verify_artifact d checks mandatory raw oracles) = ''verified'' \<longleftrightarrow>
      vr_findings (verify_artifact d checks mandatory raw oracles) = [])"
proof -
  let ?o = "case oracles of None \<Rightarrow> [] | Some m \<Rightarrow> m"
  obtain t n where tn: "fold (check_mandatory (index_by cr_check_id checks) ?o) (unique_ids mandatory) ([], []) = (t, n)"
    by fastforce
  have t: "t = [] \<longleftrightarrow> (\<forall>m \<in> set mandatory. \<not> tampered_check checks ?o m)"
    using fold_mandatory(1) [of checks ?o "unique_ids mandatory" "[]" "[]"] tn by simp
  have n: "n = [] \<longleftrightarrow> (\<forall>m \<in> set mandatory. \<not> missing_check checks m)" if "t = []"
    using fold_mandatory(2) [of "unique_ids mandatory" checks ?o "[]" "[]"] tn t that by (auto simp: filter_empty_conv)
  have f: "[c \<leftarrow> checks. cr_status c = ''failed''] = [] \<longleftrightarrow> \<not> (\<exists>c \<in> set checks. cr_status c = ''failed'')"
    "[c \<leftarrow> checks. cr_status c \<in> {''passed'', ''failed''}] = [] \<longleftrightarrow>
       (\<forall>c \<in> set checks. cr_status c \<notin> {''passed'', ''failed''})"
    by (auto simp: filter_empty_conv)
  show ?thesis
    unfolding verify_artifact_def Let_def tn prod.case verdict_for_def f using t n f(1) by auto
qed

lemma report_binds:
  "vr_artifact_digest (verify_artifact d checks mandatory raw oracles) = d \<and>
   vr_results (verify_artifact d checks mandatory raw oracles) = checks \<and>
   vr_raw_evidence_ref (verify_artifact d checks mandatory raw oracles) = raw"
  by (simp add: verify_artifact_def Let_def case_prod_unfold)

text \<open>
  The verdict is decided by the evidence in one order: no raw evidence is unverifiable; nothing
  executed is not run; a mandatory check removed or changed against its oracle is tampered; a mandatory
  check absent, skipped or not run is not run; any failed check is failed; and only then verified. The
  report always binds the artifact digest and the results it was given.
\<close>

theorem verdict_exact:
  "vr_verdict (verify_artifact d checks mandatory raw oracles) =
     verdict_for checks mandatory raw (case oracles of None \<Rightarrow> [] | Some m \<Rightarrow> m) \<and>
   vr_artifact_digest (verify_artifact d checks mandatory raw oracles) = d \<and>
   vr_results (verify_artifact d checks mandatory raw oracles) = checks \<and>
   vr_raw_evidence_ref (verify_artifact d checks mandatory raw oracles) = raw \<and>
   (vr_verdict (verify_artifact d checks mandatory raw oracles) = ''verified'' \<longleftrightarrow>
      vr_findings (verify_artifact d checks mandatory raw oracles) = [])"
  using verdict_eq report_binds by blast

section \<open>What a run may claim\<close>

text \<open>
  From the evidence to the claim: a run is complete exactly when it is not an analysis and its checks are
  verified, and may be applied only when it changed the source and was asked to. It is refused exactly when
  the checks ran, nothing was tampered with, and the reviewed digest is not the current one.
\<close>

lemma completion_from_evidence:
  "case assess_run kind mode (Some (verify_artifact d checks mandatory raw oracles)) reviewed current changed lesson of
     Inl e \<Rightarrow> kind \<noteq> ''analysis'' \<and> reviewed \<noteq> None \<and> current \<noteq> None \<and> reviewed \<noteq> current \<and>
       verdict_for checks mandatory raw (case oracles of None \<Rightarrow> [] | Some m \<Rightarrow> m) \<in> {''verified'', ''failed''}
   | Inr a \<Rightarrow>
       (ca_status a = ''complete'' \<longleftrightarrow> kind \<noteq> ''analysis'' \<and>
          verdict_for checks mandatory raw (case oracles of None \<Rightarrow> [] | Some m \<Rightarrow> m) = ''verified'') \<and>
       (ca_may_apply a \<longleftrightarrow> ca_status a = ''complete'' \<and> changed \<and> mode = ''apply_to_source'')"
proof -
  have "verdict_for checks mandatory raw orc \<in> set VERDICTS" for orc
    by (simp add: verdict_for_def VERDICTS_def)
  then show ?thesis
    using verdict_eq [of d checks mandatory raw oracles]
    by (auto simp: assess_run_def Let_def VERDICTS_def raise_def)
qed

lemma fresh_verification_exact:
  "require_fresh_verification r d code = Inr () \<longleftrightarrow> vr_verdict r = ''verified'' \<and> vr_artifact_digest r = d"
  by (simp add: require_fresh_verification_def)

section \<open>Where the evidence is weaker than it looks\<close>

definition sample_check :: "string \<Rightarrow> string \<Rightarrow> CheckResult" where
  "sample_check cid status = \<lparr>cr_check_id = cid, cr_status = status, cr_evidence_ref = ''r.xml''\<rparr>"

text \<open>
  \<open>CHECK_STATES\<close> is not enforced: a mandatory check with any other status neither failed nor was skipped,
  so another passed check lets it through.
\<close>

lemma unknown_status_verified:
  "''error'' \<notin> set CHECK_STATES \<and>
   vr_verdict (verify_artifact ''d'' [sample_check ''must'' ''error'', sample_check ''other'' ''passed''] [''must'']
     (Some ''r.xml'') None) = ''verified''"
  by code_simp

text \<open>A runner killed by a signal (exit code \<open>-9\<close>) is judged by whatever its partial report holds.\<close>

lemma killed_run_verified:
  "vr_verdict (report_from_run \<lparr>rr_exit_code = -9, rr_results = [sample_check ''t'' ''passed''], rr_raw_ref = ''r.xml'',
     rr_summary = ''''\<rparr> ''d'' [''t'']) = ''verified''"
  by code_simp

text \<open>Through a run no oracle is compared: a removed mandatory check is \<open>not_run\<close>, never \<open>tampered\<close>.\<close>

lemma run_never_tampered: "vr_verdict (report_from_run run d mandatory) \<noteq> ''tampered''"
proof -
  have "\<not> tampered_check checks [] m" for checks m by (simp add: tampered_check_def split: option.split)
  then show ?thesis
    using verdict_eq [of d "rr_results run" mandatory "Some (rr_raw_ref run)" None]
    by (simp add: report_from_run_def verdict_for_def)
qed

text \<open>The digest the verdict was reached on is not compared with the current one.\<close>

lemma stale_verification_completes:
  "case assess_run ''change'' ''apply_to_source''
      (Some (verify_artifact ''old'' [sample_check ''t'' ''passed''] [''t''] (Some ''r.xml'') None)) (Some ''new'') (Some ''new'')
      True ''none'' of
     Inl e \<Rightarrow> False | Inr a \<Rightarrow> ca_status a = ''complete'' \<and> ca_may_apply a"
  by code_simp

end
