(* ===== verification/Playbook.thy ===== *)
theory Playbook
  imports Memory Verification
begin

text \<open>
  The pure parts of \<open>memory/\<close>: playbook deltas (\<open>playbook.py\<close>), exact-scope selection (\<open>selection.py\<close>), the
  evidence that a memory was applied (\<open>application.py\<close>), and the binding of a release to a snapshot (\<open>binding.py\<close>).
\<close>

section \<open>Playbook deltas\<close>

text \<open>\<open>DeltaError(code)\<close> is a \<open>ValueError\<close> of its own with nothing but a code.\<close>

datatype delta_error = DeltaError string

record PlaybookEntry =
  pe_entry_id :: string
  pe_revision :: int
  pe_scope :: string
  pe_text :: string
  pe_evidence :: "string list"
  pe_protected :: bool
  pe_deprecated :: bool

record EntryDelta =
  de_operation :: string
  de_entry_id :: string
  de_expected_revision :: pyobj
  de_scope :: string
  de_text :: string
  de_evidence :: "string list"

text \<open>\<open>str.strip()\<close> on the characters of the model.\<close>

definition py_space :: "char \<Rightarrow> bool" where
  "py_space c = (let n = of_char c :: nat in n \<in> {9, 10, 11, 12, 13, 28, 29, 30, 31, 32, 133, 160})"

definition py_strip :: "string \<Rightarrow> string" where
  "py_strip s = List.rev (dropWhile py_space (List.rev (dropWhile py_space s)))"

text \<open>The new entry of a delta, or the exception, after the checks on the request as a whole.\<close>

definition changed_entry :: "PlaybookEntry option \<Rightarrow> EntryDelta \<Rightarrow> string \<Rightarrow> delta_error + PlaybookEntry" where
  "changed_entry old d permitted_scope =
     (if de_operation d = ''add'' then
        if old \<noteq> None \<or> de_expected_revision d \<noteq> PInt 0 then Inl (DeltaError ''ENTRY_EXISTS'')
        else if py_strip (de_text d) = [] then Inl (DeltaError ''EMPTY_ENTRY'')
        else Inr \<lparr>pe_entry_id = de_entry_id d, pe_revision = 1, pe_scope = de_scope d, pe_text = de_text d,
          pe_evidence = de_evidence d, pe_protected = False, pe_deprecated = False\<rparr>
      else if de_operation d \<in> {''refine'', ''deprecate''} then
        (case old of
           None \<Rightarrow> Inl (DeltaError ''STALE_ENTRY'')
         | Some e \<Rightarrow>
             if PInt (pe_revision e) \<noteq> de_expected_revision d then Inl (DeltaError ''STALE_ENTRY'')
             else if pe_scope e \<noteq> permitted_scope \<or> pe_protected e then Inl (DeltaError ''PROTECTED_OR_FOREIGN_ENTRY'')
             else if pe_deprecated e then Inl (DeltaError ''DEPRECATED_ENTRY'')
             else if de_operation d = ''refine'' \<and> py_strip (de_text d) = [] then Inl (DeltaError ''EMPTY_ENTRY'')
             else Inr (e\<lparr>pe_revision := pe_revision e + 1,
               pe_text := (if de_operation d = ''refine'' then de_text d else pe_text e),
               pe_evidence := unique_ids (pe_evidence e @ de_evidence d),
               pe_deprecated := (de_operation d = ''deprecate'')\<rparr>))
      else Inl (DeltaError ''UNKNOWN_DELTA''))"

text \<open>\<open>tuple(current[key] for key in sorted(current))\<close>\<close>

definition in_key_order :: "(string, PlaybookEntry) dict \<Rightarrow> PlaybookEntry list" where
  "in_key_order d = map snd (sort_key fst d)"

definition visible :: "PlaybookEntry list \<Rightarrow> PlaybookEntry list" where
  "visible es = [e \<leftarrow> es. \<not> pe_deprecated e]"

text \<open>The checks made before the entries are indexed, and those made on the candidate.\<close>

definition delta_guard ::
  "PlaybookEntry list \<Rightarrow> EntryDelta \<Rightarrow> string \<Rightarrow> string \<Rightarrow> string \<Rightarrow> string list \<Rightarrow> pyobj \<Rightarrow> delta_error + unit"
where
  "delta_guard entries d expected_release actual_release permitted_scope known_evidence max_chars =
     (if actual_release = [] \<or> expected_release \<noteq> actual_release then Inl (DeltaError ''STALE_RELEASE'')
      else if (case max_chars of PInt n \<Rightarrow> n < 1 | _ \<Rightarrow> True) \<or> de_scope d \<noteq> permitted_scope
      then Inl (DeltaError ''SCOPE_OR_BUDGET'')
      else if (case de_expected_revision d of PInt n \<Rightarrow> False | _ \<Rightarrow> True) then Inl (DeltaError ''INVALID_REVISION'')
      else if list_ex (\<lambda>e. pe_scope e \<noteq> permitted_scope) entries then Inl (DeltaError ''FOREIGN_BASE_ENTRY'')
      else if de_entry_id d = [] \<or> de_evidence d = [] then Inl (DeltaError ''UNGROUNDED_DELTA'')
      else if \<not> set (de_evidence d) \<subseteq> set known_evidence then Inl (DeltaError ''UNKNOWN_EVIDENCE'')
      else Inr ())"

definition delta_fits :: "PlaybookEntry list \<Rightarrow> pyobj \<Rightarrow> delta_error + PlaybookEntry list" where
  "delta_fits result max_chars =
     (let texts = map (py_strip \<circ> pe_text) (visible result) in
      if length (remdups texts) \<noteq> length texts then Inl (DeltaError ''DUPLICATE_CONTENT'')
      else if (case max_chars of PInt n \<Rightarrow> n < int (sum_list (map (length \<circ> pe_text) (visible result))) | _ \<Rightarrow> True)
      then Inl (DeltaError ''CAPACITY_EXCEEDED'')
      else Inr result)"

definition apply_delta ::
  "PlaybookEntry list \<Rightarrow> EntryDelta \<Rightarrow> string \<Rightarrow> string \<Rightarrow> string \<Rightarrow> string list \<Rightarrow> pyobj \<Rightarrow> delta_error + PlaybookEntry list"
where
  "apply_delta entries d expected_release actual_release permitted_scope known_evidence max_chars =
     (case delta_guard entries d expected_release actual_release permitted_scope known_evidence max_chars of
        Inl x \<Rightarrow> Inl x
      | Inr _ \<Rightarrow>
          let current = index_by pe_entry_id entries in
          if length current \<noteq> length entries then Inl (DeltaError ''DUPLICATE_ENTRY'')
          else
            (case changed_entry (dict_get current (de_entry_id d)) d permitted_scope of
               Inl x \<Rightarrow> Inl x
             | Inr new \<Rightarrow> delta_fits (in_key_order (dict_set (de_entry_id d) new current)) max_chars))"

section \<open>Selection\<close>

text \<open>An aware \<open>datetime\<close> is its local clock reading and its offset; comparison is of instants.\<close>

record datetime =
  dt_local :: int
  dt_offset :: "int option"

definition instant :: "datetime \<Rightarrow> int" where
  "instant t = dt_local t - (case dt_offset t of None \<Rightarrow> 0 | Some z \<Rightarrow> z)"

record 'scope SelectedMemory =
  sm_memory_id :: string
  sm_scope :: 'scope
  sm_status :: string
  sm_valid_until :: datetime
  sm_required_digests :: "string list"
  sm_evidence_refs :: "string list"
  sm_content_ref :: string
  sm_rank :: int

definition selectable :: "'scope \<Rightarrow> datetime \<Rightarrow> string list \<Rightarrow> 'scope SelectedMemory \<Rightarrow> bool" where
  "selectable scope now available r \<longleftrightarrow> sm_scope r = scope \<and> sm_status r = ''active'' \<and>
     instant now < instant (sm_valid_until r) \<and> sm_evidence_refs r \<noteq> [] \<and> set (sm_required_digests r) \<subseteq> set available"

definition select_memories ::
  "'scope SelectedMemory list \<Rightarrow> 'scope \<Rightarrow> datetime \<Rightarrow> string list \<Rightarrow> int \<Rightarrow> 'scope SelectedMemory list result"
where
  "select_memories records scope now available limit =
     (if dt_offset now = None \<or> (\<exists>r \<in> set records. dt_offset (sm_valid_until r) = None)
      then raise ''NAIVE_TIME'' ''timestamps need an explicit UTC offset''
      else if limit < 0 then raise ''INVALID_LIMIT'' ''limit must be nonnegative''
      else Ok (take (nat limit)
        (sort_key (\<lambda>r. - sm_rank r) (sort_key sm_memory_id (filter (selectable scope now available) records)))))"

section \<open>Application evidence and bindings\<close>

record ApplicationVerdict =
  av_state :: string
  av_evidence_refs :: "string list"

record Exposure =
  xp_memory_id :: string
  xp_revision :: int
  xp_exposure_ref :: string

definition record_application ::
  "Exposure \<Rightarrow> string list \<Rightarrow> string list \<Rightarrow> string list \<Rightarrow> string list \<Rightarrow> ApplicationVerdict"
where
  "record_application exposure plan_evidence tool_evidence test_evidence unknowns =
     (if unknowns \<noteq> [] then \<lparr>av_state = ''unknown'', av_evidence_refs = unknowns\<rparr>
      else if plan_evidence \<noteq> [] \<and> tool_evidence \<noteq> [] \<and> test_evidence \<noteq> []
      then \<lparr>av_state = ''applied'', av_evidence_refs = unique_ids (plan_evidence @ tool_evidence @ test_evidence)\<rparr>
      else \<lparr>av_state = ''referenced'', av_evidence_refs = [xp_exposure_ref exposure]\<rparr>)"

record CoreBinding =
  cb_release_id :: string
  cb_snapshot_digest :: string
  cb_epoch :: string
  cb_required_rules :: "string list"

definition view_text :: "CoreBinding \<Rightarrow> string" where
  "view_text b =
     CHR 0x7B # ascii_quote ''epoch'' @ '': '' @ ascii_quote (cb_epoch b) @ '', '' @ ascii_quote ''release'' @ '': ''
       @ ascii_quote (cb_release_id b) @ '', '' @ ascii_quote ''rules'' @ '': ['' @ py_join '', '' (map ascii_quote (cb_required_rules b))
       @ ''], '' @ ascii_quote ''snapshot'' @ '': '' @ ascii_quote (cb_snapshot_digest b) @ [CHR 0x7D]"

definition view_digest :: "hash_env \<Rightarrow> CoreBinding \<Rightarrow> string" where
  "view_digest H b = raw_digest H (view_text b)"

definition bind_core :: "string \<Rightarrow> string \<Rightarrow> string \<Rightarrow> string list \<Rightarrow> string \<Rightarrow> CoreBinding result" where
  "bind_core release_id snapshot_digest epoch required_rules current_snapshot =
     (if snapshot_digest \<noteq> current_snapshot then raise ''STALE_SNAPSHOT'' ''release bound to a superseded source snapshot''
      else Ok \<lparr>cb_release_id = release_id, cb_snapshot_digest = snapshot_digest, cb_epoch = epoch, cb_required_rules = required_rules\<rparr>)"

section \<open>Accepted deltas\<close>

lemma index_by_full:
  assumes "length (index_by f es) = length es"
  shows "distinct (map f es)" "dict_get (index_by f es) k = Some e \<longleftrightarrow> e \<in> set es \<and> f e = k"
proof -
  have "card (f ` set es) = length (index_by f es)"
    using distinct_card [OF index_by_wf [of f es]] index_by_keys [of f es] by (simp del: set_map)
  with assms show d: "distinct (map f es)" by (simp add: card_distinct)
  show "dict_get (index_by f es) k = Some e \<longleftrightarrow> e \<in> set es \<and> f e = k"
    using index_by_get_in [of f es k e] index_by_distinct_get [OF d] by auto
qed

definition keyed :: "(string, PlaybookEntry) dict \<Rightarrow> bool" where
  "keyed d \<longleftrightarrow> dict_wf d \<and> (\<forall>k e. dict_get d k = Some e \<longrightarrow> pe_entry_id e = k)"

lemma in_key_order_keyed:
  assumes "keyed d"
  shows "sorted_wrt (<) (map pe_entry_id (in_key_order d))" "e \<in> set (in_key_order d) \<longleftrightarrow> dict_get d (pe_entry_id e) = Some e"
proof -
  have wf: "dict_wf d" using assms by (simp add: keyed_def)
  have row: "(k, e) \<in> set d \<longleftrightarrow> dict_get d k = Some e" for k e using dict_get_iff_in [OF wf, of k e] by simp
  have "map pe_entry_id (in_key_order d) = map fst (sort_key fst d)"
    using assms row by (auto simp: in_key_order_def keyed_def)
  moreover have "sorted (map fst (sort_key fst d))" by simp
  moreover have "distinct (map fst (sort_key fst d))" using wf by (simp add: distinct_map)
  ultimately show "sorted_wrt (<) (map pe_entry_id (in_key_order d))" by (simp add: strict_sorted_iff)
  show "e \<in> set (in_key_order d) \<longleftrightarrow> dict_get d (pe_entry_id e) = Some e"
  proof
    assume "e \<in> set (in_key_order d)"
    then obtain k where "(k, e) \<in> set d" by (auto simp: in_key_order_def)
    with row have k: "dict_get d k = Some e" by blast
    with assms have "pe_entry_id e = k" unfolding keyed_def by blast
    with k show "dict_get d (pe_entry_id e) = Some e" by simp
  next
    assume "dict_get d (pe_entry_id e) = Some e"
    with row have "(pe_entry_id e, e) \<in> set d" by blast
    then show "e \<in> set (in_key_order d)" by (force simp: in_key_order_def)
  qed
qed

lemma delta_guard_passed:
  "delta_guard es d er ar sc ev mc = Inr u \<Longrightarrow> ar \<noteq> [] \<and> er = ar \<and> de_scope d = sc \<and> (\<forall>e \<in> set es. pe_scope e = sc) \<and>
     de_entry_id d \<noteq> [] \<and> de_evidence d \<noteq> [] \<and> set (de_evidence d) \<subseteq> set ev"
  unfolding delta_guard_def by (simp add: list_ex_iff split: if_split_asm)

lemma delta_fits_accepted:
  "delta_fits es mc = Inr es' \<Longrightarrow> es' = es \<and> distinct (map (py_strip \<circ> pe_text) (visible es)) \<and>
     (\<exists>n. mc = PInt n \<and> int (sum_list (map (length \<circ> pe_text) (visible es))) \<le> n)"
  by (cases mc) (auto simp: delta_fits_def Let_def split: if_splits)

lemma apply_delta_accepted:
  assumes "apply_delta es d er ar sc ev mc = Inr es'"
  shows "\<exists>new. delta_guard es d er ar sc ev mc = Inr () \<and> length (index_by pe_entry_id es) = length es \<and>
    changed_entry (dict_get (index_by pe_entry_id es) (de_entry_id d)) d sc = Inr new \<and>
    delta_fits (in_key_order (dict_set (de_entry_id d) new (index_by pe_entry_id es))) mc = Inr es'"
  using assms by (simp add: apply_delta_def Let_def split: if_splits sum.splits)

lemma changed_entry_accepted:
  assumes "changed_entry old d sc = Inr new"
  obtains (adds) "de_operation d = ''add''" "old = None"
      "new = \<lparr>pe_entry_id = de_entry_id d, pe_revision = 1, pe_scope = de_scope d, pe_text = de_text d,
          pe_evidence = de_evidence d, pe_protected = False, pe_deprecated = False\<rparr>"
  | (edits) e where "old = Some e" "\<not> pe_protected e" "\<not> pe_deprecated e" "de_expected_revision d = PInt (pe_revision e)"
      "pe_entry_id new = pe_entry_id e" "pe_revision new = pe_revision e + 1" "pe_scope new = pe_scope e"
      "set (pe_evidence new) = set (pe_evidence e) \<union> set (de_evidence d)" "pe_protected new = pe_protected e"
      "pe_deprecated new \<longleftrightarrow> de_operation d = ''deprecate''"
      "pe_text new = (if de_operation d = ''refine'' then de_text d else pe_text e)"
  using assms by (auto simp: changed_entry_def split: if_splits option.splits intro: that)

lemma changed_entry_id: "changed_entry old d sc = Inr new \<Longrightarrow> (\<And>e. old = Some e \<Longrightarrow> pe_entry_id e = de_entry_id d) \<Longrightarrow> pe_entry_id new = de_entry_id d"
  by (erule changed_entry_accepted) auto

text \<open>What an accepted delta does to the entries.\<close>

lemma apply_delta_entries:
  assumes "apply_delta es d er ar sc ev mc = Inr es'"
  shows "\<exists>new. changed_entry (dict_get (index_by pe_entry_id es) (de_entry_id d)) d sc = Inr new \<and> pe_entry_id new = de_entry_id d \<and>
    set es' = insert new {e \<in> set es. pe_entry_id e \<noteq> de_entry_id d} \<and> sorted_wrt (<) (map pe_entry_id es') \<and>
    (\<forall>k e. dict_get (index_by pe_entry_id es) k = Some e \<longleftrightarrow> e \<in> set es \<and> pe_entry_id e = k)"
proof -
  from apply_delta_accepted [OF assms] obtain new where
    full: "length (index_by pe_entry_id es) = length es" and
    new: "changed_entry (dict_get (index_by pe_entry_id es) (de_entry_id d)) d sc = Inr new" and
    fits: "delta_fits (in_key_order (dict_set (de_entry_id d) new (index_by pe_entry_id es))) mc = Inr es'" by blast
  note found = index_by_full(2) [OF full]
  have id: "pe_entry_id new = de_entry_id d" by (rule changed_entry_id [OF new]) (simp add: found)
  let ?d = "dict_set (de_entry_id d) new (index_by pe_entry_id es)"
  have "keyed ?d" using id found by (simp add: keyed_def)
  note order = in_key_order_keyed [OF this]
  have es': "es' = in_key_order ?d" using delta_fits_accepted [OF fits] by simp
  have "e \<in> set es' \<longleftrightarrow> e \<in> insert new {e \<in> set es. pe_entry_id e \<noteq> de_entry_id d}" for e
    unfolding es' order(2) using id found by auto
  then have "set es' = insert new {e \<in> set es. pe_entry_id e \<noteq> de_entry_id d}" by blast
  with new id order(1) es' found show ?thesis by blast
qed


definition sample_delta :: EntryDelta where
  "sample_delta = \<lparr>de_operation = ''add'', de_entry_id = ''a'', de_expected_revision = PInt 0, de_scope = ''s'', de_text = ''x'',
     de_evidence = [''e'']\<rparr>"

definition sample_entry :: PlaybookEntry where
  "sample_entry = \<lparr>pe_entry_id = ''a'', pe_revision = 1, pe_scope = ''s'', pe_text = ''x'', pe_evidence = [''e''],
     pe_protected = False, pe_deprecated = False\<rparr>"

lemma sample_delta_accepted: "apply_delta [] sample_delta ''r'' ''r'' ''s'' [''e''] (PInt 4) = Inr [sample_entry]"
  by code_simp


text \<open>A playbook grown from nothing by accepted deltas.\<close>

inductive playbook_run :: "EntryDelta list \<Rightarrow> PlaybookEntry list \<Rightarrow> bool" where
  empty_book: "playbook_run [] []"
| accepts: "playbook_run ds es \<Longrightarrow> apply_delta es d er ar sc ev mc = Inr es' \<Longrightarrow> playbook_run (ds @ [d]) es'"

definition deltas_of :: "EntryDelta list \<Rightarrow> string \<Rightarrow> EntryDelta list" where
  "deltas_of ds k = [d \<leftarrow> ds. de_entry_id d = k]"

lemma deltas_of_snoc: "deltas_of (ds @ [d]) k = (if de_entry_id d = k then deltas_of ds k @ [d] else deltas_of ds k)"
  by (simp add: deltas_of_def)

text \<open>
  Claim C29. A playbook grown by accepted deltas accounts for itself: it has one entry for each id a delta named, whose
  revision is the number of deltas accepted for it, whose evidence is exactly what they brought, and whose last
  word, if it is deprecated, was its deprecation.
\<close>

theorem playbook_lineage:
  assumes "playbook_run ds es"
  shows "distinct (map pe_entry_id es) \<and> pe_entry_id ` set es = de_entry_id ` set ds \<and>
    (\<forall>e \<in> set es. pe_revision e = int (length (deltas_of ds (pe_entry_id e))) \<and>
       set (pe_evidence e) = (\<Union>d \<in> set (deltas_of ds (pe_entry_id e)). set (de_evidence d)) \<and>
       (pe_deprecated e \<longleftrightarrow> de_operation (last (deltas_of ds (pe_entry_id e))) = ''deprecate'') \<and> \<not> pe_protected e)"
  using assms
proof (induction rule: playbook_run.induct)
  case (accepts ds es d er ar sc ev mc es')
  from apply_delta_entries [OF accepts.hyps(2)] obtain new where
    new: "changed_entry (dict_get (index_by pe_entry_id es) (de_entry_id d)) d sc = Inr new" "pe_entry_id new = de_entry_id d" and
    set': "set es' = insert new {e \<in> set es. pe_entry_id e \<noteq> de_entry_id d}" and order: "sorted_wrt (<) (map pe_entry_id es')" and
    found: "\<And>k e. dict_get (index_by pe_entry_id es) k = Some e \<longleftrightarrow> e \<in> set es \<and> pe_entry_id e = k" by blast
  have "pe_revision new = int (length (deltas_of ds (de_entry_id d))) + 1 \<and>
       set (pe_evidence new) = (\<Union>d \<in> set (deltas_of ds (de_entry_id d)). set (de_evidence d)) \<union> set (de_evidence d) \<and>
       (pe_deprecated new \<longleftrightarrow> de_operation d = ''deprecate'') \<and> \<not> pe_protected new"
    using new(1)
  proof (cases rule: changed_entry_accepted)
    case adds
    then have "de_entry_id d \<notin> pe_entry_id ` set es" using found by (metis image_iff option.distinct(1))
    with accepts.IH have "de_entry_id d \<notin> de_entry_id ` set ds" by metis
    then have "deltas_of ds (de_entry_id d) = []" unfolding deltas_of_def filter_empty_conv by (metis image_eqI)
    with adds show ?thesis by simp
  next
    case (edits e)
    with found have "e \<in> set es" "pe_entry_id e = de_entry_id d" by auto
    with accepts.IH edits show ?thesis by auto
  qed
  then have "\<forall>e \<in> set es'. pe_revision e = int (length (deltas_of (ds @ [d]) (pe_entry_id e))) \<and>
       set (pe_evidence e) = (\<Union>d \<in> set (deltas_of (ds @ [d]) (pe_entry_id e)). set (de_evidence d)) \<and>
       (pe_deprecated e \<longleftrightarrow> de_operation (last (deltas_of (ds @ [d]) (pe_entry_id e))) = ''deprecate'') \<and> \<not> pe_protected e"
    unfolding set' deltas_of_snoc using new(2) accepts.IH by auto
  moreover have "pe_entry_id ` set es' = de_entry_id ` set (ds @ [d])"
  proof -
    have "pe_entry_id ` set es' = insert (de_entry_id d) (pe_entry_id ` set es - {de_entry_id d})"
      unfolding set' using new(2) by auto
    with accepts.IH show ?thesis by auto
  qed
  moreover have "distinct (map pe_entry_id es')" using order by (simp add: strict_sorted_iff)
  ultimately show ?case by blast
qed simp

lemma playbook_lineage_witness:
  "playbook_run [sample_delta] [sample_entry] \<and> pe_revision sample_entry = int (length (deltas_of [sample_delta] ''a''))"
proof -
  have run: "playbook_run [sample_delta] [sample_entry]"
    using accepts [OF empty_book sample_delta_accepted] by simp
  have "pe_entry_id sample_entry = ''a''" by (simp add: sample_entry_def)
  with run playbook_lineage [OF run] show ?thesis by simp
qed

section \<open>Selection and application\<close>

text \<open>Selection answers the best of the records that are selectable, and times without an offset are refused.\<close>

lemma select_memories_selects:
  assumes "select_memories records scope now available limit = Ok xs"
  shows "set xs \<subseteq> {r \<in> set records. selectable scope now available r}"
    "sorted_wrt (\<lambda>r q. - sm_rank r < - sm_rank q \<or> - sm_rank r = - sm_rank q \<and> sm_memory_id r \<le> sm_memory_id q) xs"
    "set xs = {r \<in> set records. selectable scope now available r} \<or> int (length xs) = limit"
    "dt_offset now \<noteq> None \<and> (\<forall>r \<in> set records. dt_offset (sm_valid_until r) \<noteq> None)"
proof -
  let ?ys = "sort_key (\<lambda>r. - sm_rank r) (sort_key sm_memory_id (filter (selectable scope now available) records))"
  from assms have xs: "xs = take (nat limit) ?ys" "0 \<le> limit"
    and aware: "dt_offset now \<noteq> None \<and> (\<forall>r \<in> set records. dt_offset (sm_valid_until r) \<noteq> None)"
    by (auto simp: select_memories_def split: if_splits)
  note sorted = taken_of_sorted [OF sort_key_lex [of "\<lambda>r. - sm_rank r" sm_memory_id "filter (selectable scope now available) records"],
      of "nat limit"]
  from sorted xs show "set xs \<subseteq> {r \<in> set records. selectable scope now available r}"
    "sorted_wrt (\<lambda>r q. - sm_rank r < - sm_rank q \<or> - sm_rank r = - sm_rank q \<and> sm_memory_id r \<le> sm_memory_id q) xs"
    "set xs = {r \<in> set records. selectable scope now available r} \<or> int (length xs) = limit" by auto
  show "dt_offset now \<noteq> None \<and> (\<forall>r \<in> set records. dt_offset (sm_valid_until r) \<noteq> None)" by (rule aware)
qed

lemma applied_needs_every_link:
  "av_state (record_application x p t s u) = ''applied'' \<longleftrightarrow> u = [] \<and> p \<noteq> [] \<and> t \<noteq> [] \<and> s \<noteq> []"
  by (simp add: record_application_def)

end
