(* ===== verification/Lifecycle.thy ===== *)
theory Lifecycle
  imports Prelude
begin

text \<open>
  Runs of requests against a state machine, as interfaces: a \<open>machine\<close> answers a request in one of
  its states with one of its states or refuses it, a \<open>lifecycle\<close> answers it with the state the
  request names. A run that leaves a set of states leaves it in one step, from inside the set: the
  place where a gate is checked.
\<close>

locale machine =
  fixes step :: "'s \<Rightarrow> 'r \<Rightarrow> 's result"
    and states :: "'s set"
  assumes step_closed: "step s r = Inr s' \<Longrightarrow> s \<in> states \<and> s' \<in> states"
begin

fun run :: "'s \<Rightarrow> 'r list \<Rightarrow> 's result" where
  "run s [] = Ok s"
| "run s (r # rs) = rbind (step s r) (\<lambda>s'. run s' rs)"

lemma run_append: "run s (rs @ qs) = rbind (run s rs) (\<lambda>s'. run s' qs)"
  by (induction rs arbitrary: s) (auto split: rbind_split simp: rbind_def split: sum.splits)

lemma run_closed: "run s rs = Inr s' \<Longrightarrow> s \<in> states \<Longrightarrow> s' \<in> states"
  by (induction rs arbitrary: s) (auto simp: rbind_eq_Ok_iff dest: step_closed)

lemma run_cut:
  assumes "run s rs = Inr s'" "s \<in> A" "s' \<notin> A"
  shows "\<exists>xs r ys t u. rs = xs @ r # ys \<and> run s xs = Inr t \<and> t \<in> A \<and> u \<in> states - A \<and>
           step t r = Inr u \<and> run u ys = Inr s'"
  using assms
proof (induction rs arbitrary: s)
  case Nil
  then show ?case by simp
next
  case (Cons r rs)
  then obtain u where u: "step s r = Inr u" "run u rs = Inr s'" by (auto simp: rbind_eq_Ok_iff)
  show ?case
  proof (cases "u \<in> A")
    case True
    from Cons.IH [OF u(2) True Cons.prems(3)] obtain xs q ys t v where
      "rs = xs @ q # ys" "run u xs = Inr t" "t \<in> A" "v \<in> states - A" "step t q = Inr v"
      "run v ys = Inr s'" by blast
    with u(1) have "r # rs = (r # xs) @ q # ys \<and> run s (r # xs) = Inr t \<and> t \<in> A \<and> v \<in> states - A \<and>
        step t q = Inr v \<and> run v ys = Inr s'" by simp
    then show ?thesis by blast
  next
    case False
    with u Cons.prems(2) step_closed [OF u(1)]
    have "r # rs = [] @ r # rs \<and> run s [] = Inr s \<and> s \<in> A \<and> u \<in> states - A \<and>
        step s r = Inr u \<and> run u rs = Inr s'" by simp
    then show ?thesis by blast
  qed
qed

lemma run_stuck: "(\<And>r. \<not> succeeds (step s r)) \<Longrightarrow> run s rs = Inr s' \<Longrightarrow> rs = [] \<and> s' = s"
  by (cases rs) (auto simp: rbind_eq_Ok_iff succeeds_iff)

end

locale lifecycle = machine +
  fixes goal :: "'b \<Rightarrow> 'a"
  assumes step_goal: "step s r = Inr s' \<Longrightarrow> s' = goal r"
begin

lemma run_leaves:
  assumes "run s rs = Inr s'" "s \<in> A" "s' \<notin> A"
  shows "\<exists>xs r ys t. rs = xs @ r # ys \<and> run s xs = Inr t \<and> t \<in> A \<and> goal r \<notin> A \<and>
           step t r = Inr (goal r) \<and> run (goal r) ys = Inr s'"
  using run_cut [OF assms] by (metis DiffD2 step_goal)

end

end
