(* ===== verification/SessionMachine.thy ===== *)
theory SessionMachine
  imports PyText Lifecycle
begin

text \<open>
  \<open>kernel/session_state.py\<close> and \<open>kernel/session_guards.py\<close>: the work-session machine compiled
  from the contract document, its deterministic lookup, the checkpoint rule, the guard predicates
  over kernel evidence, and the shipped contract
  (\<open>cyrano/contracts/v2/session-state-machine.json\<close>) as data. A work step is a lookup whose
  guard holds; what a session must have shown on its way is stated over runs of such steps.
\<close>

section \<open>The machine\<close>

definition TERMINAL_STATES :: "string list" where
  "TERMINAL_STATES = [''COMPLETED'', ''CANCELLED'', ''FAILED'']"

record Transition =
  tr_from_state :: string
  tr_event :: string
  tr_to_state :: string
  tr_guard_id :: string

record SessionMachine =
  sm_states :: "string list"
  sm_transitions :: "Transition list"
  sm_global :: "Transition list"
  sm_explicit :: "(string \<times> string, Transition) dict"

text \<open>\<open>__init__\<close>: the explicit rows are indexed by state and event; a repeated key is refused.\<close>

fun index_explicit ::
  "Transition list \<Rightarrow> (string \<times> string, Transition) dict \<Rightarrow> (string \<times> string, Transition) dict result"
where
  "index_explicit [] d = Ok d"
| "index_explicit (t # ts) d =
     (let key = (tr_from_state t, tr_event t) in
      if dict_get d key \<noteq> None
      then raise ''INVALID_CONTRACT'' (''dup ('' @ py_repr (fst key) @ '', '' @ py_repr (snd key) @ '')'')
      else index_explicit ts (dict_set key t d))"

definition machine_init :: "string list \<Rightarrow> Transition list \<Rightarrow> Transition list \<Rightarrow> SessionMachine result" where
  "machine_init states transitions global_transitions =
     rbind (index_explicit transitions []) (\<lambda>explicit.
       Ok \<lparr>sm_states = states, sm_transitions = transitions, sm_global = global_transitions,
           sm_explicit = explicit\<rparr>)"

text \<open>
  A row of the parsed contract document; a field that is absent is \<^const>\<open>None\<close>, as is a
  \<open>from_set\<close> that is not a list.
\<close>

record raw_row =
  raw_from :: "string option"
  raw_from_set :: "string list option"
  raw_event :: "string option"
  raw_to :: "string option"
  raw_guard :: "string option"

record contract_doc =
  doc_states :: "string list option"
  doc_transitions :: "raw_row list option"
  doc_global_transitions :: "raw_row list option"

definition required :: "'a option \<Rightarrow> 'a result" where
  "required v = (case v of None \<Rightarrow> Inl (PyError ''KeyError'') | Some x \<Rightarrow> Ok x)"

definition expand_row :: "raw_row \<Rightarrow> Transition list result" where
  "expand_row raw =
     rbind (required (raw_guard raw)) (\<lambda>guard.
     rbind (required (raw_to raw)) (\<lambda>to.
     rbind (required (raw_event raw)) (\<lambda>event.
       (case raw_from_set raw of
          Some sources \<Rightarrow>
            Ok (map (\<lambda>src. \<lparr>tr_from_state = src, tr_event = event, tr_to_state = to, tr_guard_id = guard\<rparr>) sources)
        | None \<Rightarrow>
            rbind (required (raw_from raw)) (\<lambda>src.
              Ok [\<lparr>tr_from_state = src, tr_event = event, tr_to_state = to, tr_guard_id = guard\<rparr>])))))"

fun expand_rows :: "raw_row list \<Rightarrow> Transition list result" where
  "expand_rows [] = Ok []"
| "expand_rows (raw # raws) = rbind (expand_row raw) (\<lambda>ts. rbind (expand_rows raws) (\<lambda>us. Ok (ts @ us)))"

definition from_contract :: "contract_doc \<Rightarrow> SessionMachine result" where
  "from_contract doc =
     rbind (required (doc_states doc)) (\<lambda>states.
     rbind (rbind (required (doc_transitions doc)) expand_rows) (\<lambda>transitions.
     rbind (rbind (required (doc_global_transitions doc)) expand_rows) (\<lambda>globals.
       machine_init states transitions globals)))"

definition candidate :: "SessionMachine \<Rightarrow> string \<Rightarrow> string \<Rightarrow> Transition result" where
  "candidate m state event =
     (if state \<notin> set (sm_states m) then raise ''INVALID_TRANSITION'' state
      else (case dict_get (sm_explicit m) (state, event) of
          Some t \<Rightarrow> Ok t
        | None \<Rightarrow>
            (let matches = [t \<leftarrow> sm_global m. tr_from_state t = state \<and> tr_event t = event] in
             if length matches = 1 then Ok (matches ! 0)
             else raise ''INVALID_TRANSITION'' (state @ '':'' @ event))))"

definition is_terminal :: "string \<Rightarrow> bool" where
  "is_terminal state \<longleftrightarrow> state \<in> set TERMINAL_STATES"

definition resume_target :: "SessionMachine \<Rightarrow> string \<Rightarrow> string result" where
  "resume_target m checkpoint =
     (if checkpoint \<in> set TERMINAL_STATES then raise ''TERMINAL_RESUME'' checkpoint
      else if checkpoint \<notin> set (sm_states m) then raise ''INVALID_TRANSITION'' checkpoint
      else Ok checkpoint)"

section \<open>Guards\<close>

record GuardEvidence =
  ge_runtime_policy_bound :: bool
  ge_trusted_input :: bool
  ge_memory_view_ready :: bool
  ge_read_scope_available :: bool
  ge_read_or_probe_authorized :: bool
  ge_redundant_question :: bool
  ge_unresolved_mandatory_obligations :: int
  ge_blockers :: int
  ge_snapshot_provenance_valid :: bool
  ge_trusted_user_event :: bool
  ge_model_reported :: bool
  ge_bundle_content_addressed :: bool
  ge_findings_current :: bool
  ge_reviews_current :: bool
  ge_spec_receipt_verified :: bool
  ge_spec_approval_current :: bool
  ge_spec_still_valid :: bool
  ge_plan_valid :: bool
  ge_plan_receipt_verified :: bool
  ge_display_bound :: bool
  ge_exec_receipt_verified :: bool
  ge_apply_receipt_verified :: bool
  ge_scope_unchanged :: bool
  ge_adapter_governed :: bool
  ge_budget_preimage_valid :: bool
  ge_unknown_effects :: int
  ge_repair_possible :: bool
  ge_postimage_current :: bool
  ge_evidence_complete :: bool
  ge_permit_current :: bool
  ge_completion_gates_passed :: bool
  ge_apply_checks_passed :: bool
  ge_preimage_current :: bool
  ge_manifest_matched :: bool
  ge_final_checks_passed :: bool
  ge_journal_present :: bool
  ge_partial_state_recorded :: bool
  ge_dependents_invalidated :: bool
  ge_permits_revoked :: bool
  ge_new_dispatch_stopped :: bool
  ge_cancel_trusted :: bool
  ge_checkpoint_persisted :: bool

definition no_evidence :: GuardEvidence where
  "no_evidence =
    \<lparr>ge_runtime_policy_bound = False,
     ge_trusted_input = False,
     ge_memory_view_ready = False,
     ge_read_scope_available = False,
     ge_read_or_probe_authorized = False,
     ge_redundant_question = False,
     ge_unresolved_mandatory_obligations = 0,
     ge_blockers = 0,
     ge_snapshot_provenance_valid = False,
     ge_trusted_user_event = False,
     ge_model_reported = False,
     ge_bundle_content_addressed = False,
     ge_findings_current = False,
     ge_reviews_current = False,
     ge_spec_receipt_verified = False,
     ge_spec_approval_current = False,
     ge_spec_still_valid = False,
     ge_plan_valid = False,
     ge_plan_receipt_verified = False,
     ge_display_bound = False,
     ge_exec_receipt_verified = False,
     ge_apply_receipt_verified = False,
     ge_scope_unchanged = False,
     ge_adapter_governed = False,
     ge_budget_preimage_valid = False,
     ge_unknown_effects = 0,
     ge_repair_possible = False,
     ge_postimage_current = False,
     ge_evidence_complete = False,
     ge_permit_current = False,
     ge_completion_gates_passed = False,
     ge_apply_checks_passed = False,
     ge_preimage_current = False,
     ge_manifest_matched = False,
     ge_final_checks_passed = False,
     ge_journal_present = False,
     ge_partial_state_recorded = False,
     ge_dependents_invalidated = False,
     ge_permits_revoked = False,
     ge_new_dispatch_stopped = False,
     ge_cancel_trusted = False,
     ge_checkpoint_persisted = False\<rparr>"

definition GUARDS :: "(string, GuardEvidence \<Rightarrow> bool) dict" where
  "GUARDS =
    [(''workspace_runtime_policy_bound'', \<lambda>e. ge_runtime_policy_bound e),
     (''trusted_input_and_memory_view_ready'', \<lambda>e. ge_trusted_input e \<and> ge_memory_view_ready e),
     (''read_scope_available'', \<lambda>e. ge_read_scope_available e),
     (''no_redundant_question'', \<lambda>e. \<not> ge_redundant_question e),
     (''no_unresolved_mandatory_obligation'', \<lambda>e. ge_unresolved_mandatory_obligations e = 0),
     (''evidence_snapshot_provenance_valid'', \<lambda>e. ge_snapshot_provenance_valid e),
     (''read_or_probe_authorized'', \<lambda>e. ge_read_or_probe_authorized e),
     (''trusted_user_event_not_model_report'', \<lambda>e. ge_trusted_user_event e \<and> \<not> ge_model_reported e),
     (''bundle_strict_and_content_addressed'', \<lambda>e. ge_bundle_content_addressed e),
     (''finding_targets_current_digest'', \<lambda>e. ge_findings_current e),
     (''required_current_independent_reviews_and_no_blockers'', \<lambda>e. ge_reviews_current e \<and> ge_blockers e = 0),
     (''trusted_exact_approve_spec_for_planning'', \<lambda>e. ge_spec_receipt_verified e),
     (''spec_approval_current'', \<lambda>e. ge_spec_approval_current e),
     (''dag_scope_traceability_verification_budget_valid'', \<lambda>e. ge_plan_valid e),
     (''current_plan_findings'', \<lambda>e. ge_findings_current e),
     (''independent_current_plan_review_no_blockers'', \<lambda>e. ge_reviews_current e \<and> ge_blockers e = 0),
     (''trusted_exact_approve_plan'', \<lambda>e. ge_plan_receipt_verified e),
     (''display_exact_files_recipes_budget'', \<lambda>e. ge_display_bound e),
     (''trusted_authorize_execution_scope_intersection'', \<lambda>e. ge_exec_receipt_verified e \<and> ge_scope_unchanged e),
     (''governed_adapter_audit_budget_preimage_valid'', \<lambda>e. ge_adapter_governed e \<and> ge_budget_preimage_valid e),
     (''observed_changes_no_unknown_side_effects'', \<lambda>e. ge_unknown_effects e = 0),
     (''same_scope_repair_possible'', \<lambda>e. ge_repair_possible e \<and> ge_scope_unchanged e),
     (''repair_within_current_contract_possible'', \<lambda>e. ge_repair_possible e \<and> ge_scope_unchanged e),
     (''current_postimage_all_required_evidence'', \<lambda>e. ge_postimage_current e \<and> ge_evidence_complete e),
     (''current_findings_within_approved_scope'', \<lambda>e. ge_findings_current e \<and> ge_scope_unchanged e),
     (''existing_or_new_permit_current_and_scope_unchanged'', \<lambda>e. ge_permit_current e \<and> ge_scope_unchanged e),
     (''delivery_patch_only_and_all_completion_gates'', \<lambda>e. ge_completion_gates_passed e),
     (''delivery_apply_to_source_and_all_patch_checks'', \<lambda>e. ge_apply_checks_passed e),
     (''trusted_authorize_apply_patch_and_source_preimage_current'', \<lambda>e. ge_apply_receipt_verified e \<and> ge_preimage_current e),
     (''source_manifest_and_required_final_checks_passed'', \<lambda>e. ge_manifest_matched e \<and> ge_final_checks_passed e),
     (''durable_journal_exists_or_gap_explicit'', \<lambda>e. ge_journal_present e),
     (''actual_partial_state_and_recovery_next_action_recorded'', \<lambda>e. ge_partial_state_recorded e),
     (''affected_entities_invalidated'', \<lambda>e. ge_dependents_invalidated e),
     (''spec_still_valid_and_plan_dependents_invalidated'', \<lambda>e. ge_spec_still_valid e \<and> ge_dependents_invalidated e),
     (''no_new_dispatch_and_all_running_ops_accounted_for'', \<lambda>e. ge_new_dispatch_stopped e \<and> ge_unknown_effects e = 0),
     (''trusted_cancel_stop_new_dispatch_immediately'', \<lambda>e. ge_cancel_trusted e \<and> ge_new_dispatch_stopped e),
     (''persist_resume_checkpoint_and_operation_status'', \<lambda>e. ge_checkpoint_persisted e),
     (''revoke_affected_permits_and_invalidate_dependents'', \<lambda>e. ge_permits_revoked e \<and> ge_dependents_invalidated e)]"

definition evaluate_guard :: "string \<Rightarrow> GuardEvidence \<Rightarrow> bool result" where
  "evaluate_guard guard_id evidence =
     (case dict_get GUARDS guard_id of
        None \<Rightarrow> raise ''UNKNOWN_GUARD'' guard_id
      | Some predicate \<Rightarrow> Ok (predicate evidence))"

definition guard_ids :: "string list" where
  "guard_ids = dict_keys GUARDS"

section \<open>The shipped contract\<close>

definition row :: "string \<Rightarrow> string \<Rightarrow> string \<Rightarrow> string \<Rightarrow> raw_row" where
  "row src event to guard =
     \<lparr>raw_from = Some src, raw_from_set = None, raw_event = Some event, raw_to = Some to, raw_guard = Some guard\<rparr>"

definition global_row :: "string list \<Rightarrow> string \<Rightarrow> string \<Rightarrow> string \<Rightarrow> raw_row" where
  "global_row srcs event to guard =
     \<lparr>raw_from = None, raw_from_set = Some srcs, raw_event = Some event, raw_to = Some to, raw_guard = Some guard\<rparr>"

definition SESSION_CONTRACT :: contract_doc where
  "SESSION_CONTRACT =
    \<lparr>doc_states = Some [''CREATED'', ''INTAKE'', ''FRAME'', ''ACQUIRE'', ''RESOLVE'',
       ''SPEC_DRAFT'', ''SPEC_REVIEW'', ''AWAIT_SPEC_APPROVAL'', ''APPROVED_FOR_PLANNING'', ''PLAN_DRAFT'',
       ''PLAN_REVIEW'', ''AWAIT_PLAN_APPROVAL'', ''APPROVED_PLAN'', ''AWAIT_EXECUTION_AUTH'', ''READY_TO_EXECUTE'',
       ''EXECUTING'', ''VERIFYING'', ''FINAL_REVIEW'', ''AWAIT_APPLY_APPROVAL'', ''APPLYING'',
       ''RECONCILING'', ''REWORK'', ''CHANGE_ASSESSMENT'', ''PAUSED'', ''BLOCKED'',
       ''CANCELLING'', ''CANCELLED'', ''FAILED'', ''COMPLETED''],
     doc_transitions = Some
       [row ''CREATED'' ''start'' ''INTAKE''
        ''workspace_runtime_policy_bound'',
        row ''INTAKE'' ''intake_recorded'' ''FRAME''
        ''trusted_input_and_memory_view_ready'',
        row ''FRAME'' ''facts_needed'' ''ACQUIRE''
        ''read_scope_available'',
        row ''FRAME'' ''user_decision_needed'' ''RESOLVE''
        ''no_redundant_question'',
        row ''FRAME'' ''obligations_satisfied'' ''SPEC_DRAFT''
        ''no_unresolved_mandatory_obligation'',
        row ''ACQUIRE'' ''evidence_recorded'' ''RESOLVE''
        ''evidence_snapshot_provenance_valid'',
        row ''RESOLVE'' ''more_facts_needed'' ''ACQUIRE''
        ''read_or_probe_authorized'',
        row ''RESOLVE'' ''answer_recorded'' ''RESOLVE''
        ''trusted_user_event_not_model_report'',
        row ''RESOLVE'' ''obligations_satisfied'' ''SPEC_DRAFT''
        ''no_unresolved_mandatory_obligation'',
        row ''SPEC_DRAFT'' ''spec_compiled'' ''SPEC_REVIEW''
        ''bundle_strict_and_content_addressed'',
        row ''SPEC_REVIEW'' ''changes_required'' ''RESOLVE''
        ''finding_targets_current_digest'',
        row ''SPEC_REVIEW'' ''reviews_satisfied'' ''AWAIT_SPEC_APPROVAL''
        ''required_current_independent_reviews_and_no_blockers'',
        row ''AWAIT_SPEC_APPROVAL'' ''spec_receipt_verified'' ''APPROVED_FOR_PLANNING''
        ''trusted_exact_approve_spec_for_planning'',
        row ''APPROVED_FOR_PLANNING'' ''planning_started'' ''PLAN_DRAFT''
        ''spec_approval_current'',
        row ''PLAN_DRAFT'' ''plan_submitted'' ''PLAN_REVIEW''
        ''dag_scope_traceability_verification_budget_valid'',
        row ''PLAN_REVIEW'' ''changes_required'' ''PLAN_DRAFT''
        ''current_plan_findings'',
        row ''PLAN_REVIEW'' ''reviews_satisfied'' ''AWAIT_PLAN_APPROVAL''
        ''independent_current_plan_review_no_blockers'',
        row ''AWAIT_PLAN_APPROVAL'' ''plan_receipt_verified'' ''APPROVED_PLAN''
        ''trusted_exact_approve_plan'',
        row ''APPROVED_PLAN'' ''execution_requested'' ''AWAIT_EXECUTION_AUTH''
        ''display_exact_files_recipes_budget'',
        row ''AWAIT_EXECUTION_AUTH'' ''execution_receipt_verified'' ''READY_TO_EXECUTE''
        ''trusted_authorize_execution_scope_intersection'',
        row ''READY_TO_EXECUTE'' ''lease_acquired'' ''EXECUTING''
        ''governed_adapter_audit_budget_preimage_valid'',
        row ''EXECUTING'' ''work_units_finished'' ''VERIFYING''
        ''observed_changes_no_unknown_side_effects'',
        row ''EXECUTING'' ''repair_required'' ''REWORK''
        ''same_scope_repair_possible'',
        row ''VERIFYING'' ''checks_failed'' ''REWORK''
        ''repair_within_current_contract_possible'',
        row ''VERIFYING'' ''required_checks_passed'' ''FINAL_REVIEW''
        ''current_postimage_all_required_evidence'',
        row ''FINAL_REVIEW'' ''changes_required'' ''REWORK''
        ''current_findings_within_approved_scope'',
        row ''REWORK'' ''repair_authorized'' ''EXECUTING''
        ''existing_or_new_permit_current_and_scope_unchanged'',
        row ''FINAL_REVIEW'' ''final_review_passed'' ''COMPLETED''
        ''delivery_patch_only_and_all_completion_gates'',
        row ''FINAL_REVIEW'' ''source_apply_required'' ''AWAIT_APPLY_APPROVAL''
        ''delivery_apply_to_source_and_all_patch_checks'',
        row ''AWAIT_APPLY_APPROVAL'' ''apply_receipt_verified'' ''APPLYING''
        ''trusted_authorize_apply_patch_and_source_preimage_current'',
        row ''APPLYING'' ''application_verified'' ''COMPLETED''
        ''source_manifest_and_required_final_checks_passed'',
        row ''APPLYING'' ''partial_or_unknown'' ''RECONCILING''
        ''durable_journal_exists_or_gap_explicit'',
        row ''RECONCILING'' ''effect_reconciled'' ''BLOCKED''
        ''actual_partial_state_and_recovery_next_action_recorded'',
        row ''CHANGE_ASSESSMENT'' ''requirements_changed'' ''FRAME''
        ''affected_entities_invalidated'',
        row ''CHANGE_ASSESSMENT'' ''plan_only_changed'' ''PLAN_DRAFT''
        ''spec_still_valid_and_plan_dependents_invalidated'',
        row ''CANCELLING'' ''all_effects_reconciled'' ''CANCELLED''
        ''no_new_dispatch_and_all_running_ops_accounted_for''],
     doc_global_transitions = Some
       [global_row [''CREATED'', ''INTAKE'', ''FRAME'', ''ACQUIRE'', ''RESOLVE'',
          ''SPEC_DRAFT'', ''SPEC_REVIEW'', ''AWAIT_SPEC_APPROVAL'', ''APPROVED_FOR_PLANNING'', ''PLAN_DRAFT'',
          ''PLAN_REVIEW'', ''AWAIT_PLAN_APPROVAL'', ''APPROVED_PLAN'', ''AWAIT_EXECUTION_AUTH'', ''READY_TO_EXECUTE'',
          ''EXECUTING'', ''VERIFYING'', ''FINAL_REVIEW'', ''AWAIT_APPLY_APPROVAL'', ''APPLYING'',
          ''RECONCILING'', ''REWORK'', ''CHANGE_ASSESSMENT'', ''PAUSED'', ''BLOCKED'']
        ''user_cancel'' ''CANCELLING''
        ''trusted_cancel_stop_new_dispatch_immediately'',
        global_row [''CREATED'', ''INTAKE'', ''FRAME'', ''ACQUIRE'', ''RESOLVE'',
          ''SPEC_DRAFT'', ''SPEC_REVIEW'', ''AWAIT_SPEC_APPROVAL'', ''APPROVED_FOR_PLANNING'', ''PLAN_DRAFT'',
          ''PLAN_REVIEW'', ''AWAIT_PLAN_APPROVAL'', ''APPROVED_PLAN'', ''AWAIT_EXECUTION_AUTH'', ''READY_TO_EXECUTE'',
          ''EXECUTING'', ''VERIFYING'', ''FINAL_REVIEW'', ''AWAIT_APPLY_APPROVAL'', ''APPLYING'',
          ''REWORK'', ''CHANGE_ASSESSMENT'']
        ''pause_required'' ''PAUSED''
        ''persist_resume_checkpoint_and_operation_status'',
        global_row [''CREATED'', ''INTAKE'', ''FRAME'', ''ACQUIRE'', ''RESOLVE'',
          ''SPEC_DRAFT'', ''SPEC_REVIEW'', ''AWAIT_SPEC_APPROVAL'', ''APPROVED_FOR_PLANNING'', ''PLAN_DRAFT'',
          ''PLAN_REVIEW'', ''AWAIT_PLAN_APPROVAL'', ''APPROVED_PLAN'', ''AWAIT_EXECUTION_AUTH'', ''READY_TO_EXECUTE'',
          ''EXECUTING'', ''VERIFYING'', ''FINAL_REVIEW'', ''AWAIT_APPLY_APPROVAL'', ''APPLYING'',
          ''RECONCILING'', ''REWORK'', ''PAUSED'', ''BLOCKED'']
        ''material_change'' ''CHANGE_ASSESSMENT''
        ''revoke_affected_permits_and_invalidate_dependents'']\<rparr>"

text \<open>The machine the contract compiles to; \<open>session_contract_compiles\<close> shows that it does.\<close>

definition session_machine :: SessionMachine where
  "session_machine =
     (case from_contract SESSION_CONTRACT of
        Inr m \<Rightarrow> m
      | Inl e \<Rightarrow> \<lparr>sm_states = [], sm_transitions = [], sm_global = [], sm_explicit = []\<rparr>)"

definition session_rows :: "Transition list" where
  "session_rows = sm_transitions session_machine @ sm_global session_machine"

section \<open>Lookup\<close>

definition row_key :: "Transition \<Rightarrow> string \<times> string" where
  "row_key t = (tr_from_state t, tr_event t)"

lemma index_explicit_Ok_iff:
  "index_explicit ts d = Inr d' \<longleftrightarrow>
     distinct (map row_key ts) \<and> row_key ` set ts \<inter> set (dict_keys d) = {} \<and>
     d' = d @ map (\<lambda>t. (row_key t, t)) ts"
proof (induction ts arbitrary: d)
  case Nil
  then show ?case by auto
next
  case (Cons t ts)
  show ?case
  proof (cases "row_key t \<in> set (dict_keys d)")
    case True
    then have "dict_get d (row_key t) \<noteq> None" by (simp add: dict_get_None_iff)
    with True show ?thesis by (auto simp: row_key_def Let_def)
  next
    case False
    then have "dict_get d (row_key t) = None" by (simp add: dict_get_None_iff)
    moreover have "dict_set (row_key t) t d = d @ [(row_key t, t)]" using False by (rule dict_set_new)
    ultimately have "index_explicit (t # ts) d = index_explicit ts (d @ [(row_key t, t)])"
      by (simp add: row_key_def Let_def)
    with False show ?thesis by (auto simp: Cons.IH)
  qed
qed

lemma machine_init_Ok_iff:
  "machine_init ss ts gs = Inr m \<longleftrightarrow>
     distinct (map row_key ts) \<and>
     m = \<lparr>sm_states = ss, sm_transitions = ts, sm_global = gs, sm_explicit = map (\<lambda>t. (row_key t, t)) ts\<rparr>"
  by (auto simp: machine_init_def rbind_eq_Ok_iff index_explicit_Ok_iff)

definition machine_wf :: "SessionMachine \<Rightarrow> bool" where
  "machine_wf m \<longleftrightarrow> distinct (map row_key (sm_transitions m)) \<and>
     sm_explicit m = map (\<lambda>t. (row_key t, t)) (sm_transitions m)"

lemma machine_init_wf: "machine_init ss ts gs = Inr m \<Longrightarrow> machine_wf m"
  by (simp add: machine_init_Ok_iff machine_wf_def)

lemma from_contract_wf: "from_contract doc = Inr m \<Longrightarrow> machine_wf m"
  by (auto simp: from_contract_def rbind_eq_Ok_iff intro: machine_init_wf)

lemma map_of_keyed:
  "distinct (map f xs) \<Longrightarrow> map_of (map (\<lambda>x. (f x, x)) xs) k = Some y \<longleftrightarrow> y \<in> set xs \<and> f y = k"
  by (induction xs) (auto simp: rev_image_eqI)

lemma explicit_get:
  "machine_wf m \<Longrightarrow>
     dict_get (sm_explicit m) k = Some t \<longleftrightarrow> t \<in> set (sm_transitions m) \<and> row_key t = k"
  unfolding machine_wf_def by (simp add: map_of_keyed)

lemma candidate_Ok_iff:
  assumes "machine_wf m"
  shows "candidate m s e = Inr t \<longleftrightarrow> s \<in> set (sm_states m) \<and>
    (t \<in> set (sm_transitions m) \<and> row_key t = (s, e) \<or>
     (\<forall>u \<in> set (sm_transitions m). row_key u \<noteq> (s, e)) \<and>
       [u \<leftarrow> sm_global m. row_key u = (s, e)] = [t])"
proof -
  have single: "length xs = 1 \<and> xs ! 0 = t \<longleftrightarrow> xs = [t]" for xs :: "Transition list"
    by (cases xs) auto
  have none: "dict_get (sm_explicit m) (s, e) = None \<longleftrightarrow> (\<forall>u \<in> set (sm_transitions m). row_key u \<noteq> (s, e))"
    using explicit_get [OF assms, of "(s, e)"] by (metis not_Some_eq)
  have key: "[u \<leftarrow> sm_global m. tr_from_state u = s \<and> tr_event u = e] = [u \<leftarrow> sm_global m. row_key u = (s, e)]"
    by (simp add: row_key_def)
  show ?thesis
  proof (cases "dict_get (sm_explicit m) (s, e)")
    case None
    with none show ?thesis
      unfolding candidate_def key Let_def by (auto simp: single [symmetric])
  next
    case (Some u)
    then have u: "u \<in> set (sm_transitions m)" "row_key u = (s, e)" using explicit_get [OF assms] by auto
    have "u = t \<longleftrightarrow> t \<in> set (sm_transitions m) \<and> row_key t = (s, e)"
      using Some explicit_get [OF assms, of "(s, e)" t] by auto
    with Some u show ?thesis unfolding candidate_def by auto
  qed
qed

lemma candidate_refuses: "candidate m s e = Inl x \<Longrightarrow> \<exists>msg. x = CyranoError ''INVALID_TRANSITION'' msg"
  by (auto simp: candidate_def raise_def Let_def split: if_splits option.splits)

lemma candidate_row:
  "machine_wf m \<Longrightarrow> candidate m s e = Inr t \<Longrightarrow>
     t \<in> set (sm_transitions m @ sm_global m) \<and> tr_from_state t = s \<and> tr_event t = e"
  by (auto simp: candidate_Ok_iff row_key_def dest!: filter_single)

section \<open>The shipped machine\<close>

definition rows_of :: "raw_row list option \<Rightarrow> Transition list" where
  "rows_of raws = (case raws of None \<Rightarrow> [] | Some rs \<Rightarrow> (case expand_rows rs of Inl e \<Rightarrow> [] | Inr ts \<Rightarrow> ts))"

lemma expand_rows_Ok: "succeeds (expand_rows raws) \<Longrightarrow> expand_rows raws = Inr (rows_of (Some raws))"
  by (auto simp: succeeds_iff rows_of_def)

lemma session_contract_rows:
  "from_contract SESSION_CONTRACT =
     machine_init (the (doc_states SESSION_CONTRACT)) (rows_of (doc_transitions SESSION_CONTRACT))
       (rows_of (doc_global_transitions SESSION_CONTRACT))"
proof -
  have present: "doc_states SESSION_CONTRACT = Some (the (doc_states SESSION_CONTRACT))"
    "doc_transitions SESSION_CONTRACT = Some (the (doc_transitions SESSION_CONTRACT))"
    "doc_global_transitions SESSION_CONTRACT = Some (the (doc_global_transitions SESSION_CONTRACT))"
    by (simp_all add: SESSION_CONTRACT_def)
  have "succeeds (expand_rows (the (doc_transitions SESSION_CONTRACT)))"
    "succeeds (expand_rows (the (doc_global_transitions SESSION_CONTRACT)))"
    by code_simp+
  then have "expand_rows (the (doc_transitions SESSION_CONTRACT)) = Inr (rows_of (doc_transitions SESSION_CONTRACT))"
    "expand_rows (the (doc_global_transitions SESSION_CONTRACT)) = Inr (rows_of (doc_global_transitions SESSION_CONTRACT))"
    using expand_rows_Ok present by metis+
  moreover have "required (doc_states SESSION_CONTRACT) = Ok (the (doc_states SESSION_CONTRACT))"
    "required (doc_transitions SESSION_CONTRACT) = Ok (the (doc_transitions SESSION_CONTRACT))"
    "required (doc_global_transitions SESSION_CONTRACT) = Ok (the (doc_global_transitions SESSION_CONTRACT))"
    by (simp_all add: required_def SESSION_CONTRACT_def)
  ultimately show ?thesis unfolding from_contract_def by simp
qed

lemma session_contract_compiles: "from_contract SESSION_CONTRACT = Inr session_machine"
proof -
  have "distinct (map row_key (rows_of (doc_transitions SESSION_CONTRACT)))" by code_simp
  then have "\<exists>m. from_contract SESSION_CONTRACT = Inr m"
    by (simp only: session_contract_rows machine_init_Ok_iff) blast
  then show ?thesis by (auto simp only: session_machine_def sum.case)
qed

lemma session_machine_wf: "machine_wf session_machine"
  by (rule from_contract_wf [OF session_contract_compiles])

lemma session_machine_eq:
  "session_machine =
     \<lparr>sm_states = the (doc_states SESSION_CONTRACT), sm_transitions = rows_of (doc_transitions SESSION_CONTRACT),
      sm_global = rows_of (doc_global_transitions SESSION_CONTRACT),
      sm_explicit = map (\<lambda>t. (row_key t, t)) (rows_of (doc_transitions SESSION_CONTRACT))\<rparr>"
  using session_contract_compiles unfolding session_contract_rows machine_init_Ok_iff by blast

lemma session_transitions: "sm_transitions session_machine = rows_of (doc_transitions SESSION_CONTRACT)"
  using arg_cong [OF session_machine_eq, of sm_transitions] by simp

lemma session_machine_rows:
  "sm_states session_machine = the (doc_states SESSION_CONTRACT)"
  "session_rows = rows_of (doc_transitions SESSION_CONTRACT) @ rows_of (doc_global_transitions SESSION_CONTRACT)"
  using arg_cong [OF session_machine_eq, of sm_states] arg_cong [OF session_machine_eq, of sm_global]
  by (simp_all add: session_rows_def session_transitions)

text \<open>
  A step of the work session as the contract document prescribes it: the row the lookup finds,
  taken when its guard holds of the kernel's evidence.
\<close>

definition work_step :: "SessionMachine \<Rightarrow> string \<Rightarrow> string \<times> GuardEvidence \<Rightarrow> string result" where
  "work_step m s r =
     rbind (candidate m s (fst r)) (\<lambda>t.
     rbind (evaluate_guard (tr_guard_id t) (snd r)) (\<lambda>holds.
       if holds then Ok (tr_to_state t) else raise ''GUARD_NOT_SATISFIED'' (tr_guard_id t)))"

lemma rows_in_states:
  "list_all (\<lambda>t. tr_from_state t \<in> set (sm_states session_machine) \<and>
                 tr_to_state t \<in> set (sm_states session_machine)) session_rows"
  unfolding session_machine_rows by code_simp

lemma work_step_row:
  "machine_wf m \<Longrightarrow> work_step m s r = Inr s' \<Longrightarrow>
     \<exists>t \<in> set (sm_transitions m @ sm_global m). tr_from_state t = s \<and> tr_event t = fst r \<and>
       tr_to_state t = s' \<and> evaluate_guard (tr_guard_id t) (snd r) = Inr True"
  by (auto simp: work_step_def rbind_eq_Ok_iff split: if_splits dest!: candidate_row)

lemma session_step_row:
  "work_step session_machine s r = Inr s' \<Longrightarrow>
     \<exists>t \<in> set session_rows. tr_from_state t = s \<and> tr_event t = fst r \<and> tr_to_state t = s' \<and>
       evaluate_guard (tr_guard_id t) (snd r) = Inr True"
  using work_step_row [OF session_machine_wf] by (simp add: session_rows_def)

interpretation work: machine "work_step session_machine" "set (sm_states session_machine)"
proof unfold_locales
  fix s r s'
  assume "work_step session_machine s r = Inr s'"
  from session_step_row [OF this] rows_in_states
  show "s \<in> set (sm_states session_machine) \<and> s' \<in> set (sm_states session_machine)"
    by (auto simp: list_all_iff)
qed

definition work_run :: "string \<Rightarrow> (string \<times> GuardEvidence) list \<Rightarrow> string result" where
  "work_run = work.run"

lemmas work_run_simps [simp] = work.run.simps [folded work_run_def]
lemmas work_run_cut = work.run_cut [folded work_run_def]

text \<open>
  Every row out of a set of states leads to one state under one of some guards, so a run that leaves
  the set arrives there and has satisfied one of them.
\<close>

definition guarded_exit :: "string list \<Rightarrow> string list \<Rightarrow> string \<Rightarrow> bool" where
  "guarded_exit A gs u \<longleftrightarrow>
     list_all (\<lambda>t. tr_to_state t \<in> set A \<or> tr_from_state t \<notin> set A \<or>
                   tr_guard_id t \<in> set gs \<and> tr_to_state t = u) session_rows"

lemma work_exit:
  assumes "guarded_exit A gs u" "work_run s rs = Inr s'" "s \<in> set A" "s' \<notin> set A"
  obtains xs r ys g where "rs = xs @ r # ys" "g \<in> set gs" "evaluate_guard g (snd r) = Inr True"
    "work_run u ys = Inr s'"
proof -
  from work_run_cut [OF assms(2-4)] obtain xs r ys t v where
    r: "rs = xs @ r # ys" "t \<in> set A" "v \<notin> set A"
      "work_step session_machine t r = Inr v" "work_run v ys = Inr s'" by blast
  from session_step_row [OF r(4)] obtain q where
    q: "q \<in> set session_rows" "tr_from_state q = t" "tr_to_state q = v"
      "evaluate_guard (tr_guard_id q) (snd r) = Inr True" by blast
  with assms(1) r(2,3) have "tr_guard_id q \<in> set gs" "v = u"
    by (auto simp: guarded_exit_def list_all_iff)
  with r q that show ?thesis by blast
qed

section \<open>What a session must have shown\<close>

text \<open>
  The lookup is deterministic and exact: for a catalog the constructor accepts, a state
  and event have a row exactly when the state is known and either it is the one explicit row for
  them, or no explicit row is and exactly one global row is; every other request fails with
  \<open>INVALID_TRANSITION\<close>.
\<close>

theorem session_lookup_exact:
  assumes "from_contract doc = Inr m"
  shows "(candidate m s e = Inr t \<longleftrightarrow> s \<in> set (sm_states m) \<and>
            (t \<in> set (sm_transitions m) \<and> row_key t = (s, e) \<or>
             (\<forall>u \<in> set (sm_transitions m). row_key u \<noteq> (s, e)) \<and>
               [u \<leftarrow> sm_global m. row_key u = (s, e)] = [t])) \<and>
         (succeeds (candidate m s e) \<or> fails_with ''INVALID_TRANSITION'' (candidate m s e))"
proof (rule conjI)
  show "succeeds (candidate m s e) \<or> fails_with ''INVALID_TRANSITION'' (candidate m s e)"
    using candidate_refuses [of m s e] by (cases "candidate m s e") auto
qed (rule candidate_Ok_iff [OF from_contract_wf [OF assms]])

lemma session_lookup_exact_witness:
  "succeeds (candidate session_machine ''PAUSED'' ''user_cancel'') \<or>
   fails_with ''INVALID_TRANSITION'' (candidate session_machine ''PAUSED'' ''user_cancel'')"
  using session_lookup_exact [OF session_contract_compiles, of "''PAUSED''" "''user_cancel''"] by blast

lemma terminal_rows: "list_all (\<lambda>t. \<not> is_terminal (tr_from_state t)) session_rows"
  unfolding session_machine_rows by code_simp

lemma guards_registered: "list_all (\<lambda>t. tr_guard_id t \<in> set guard_ids) session_rows"
  unfolding session_machine_rows by code_simp

lemma no_failed_rows: "list_all (\<lambda>t. tr_to_state t \<noteq> ''FAILED'') session_rows"
  unfolding session_machine_rows by code_simp

lemma evaluate_guard_registered: "g \<in> set guard_ids \<Longrightarrow> \<exists>b. evaluate_guard g e = Inr b"
  using dict_get_None_iff [of GUARDS g] by (auto simp: evaluate_guard_def guard_ids_def split: option.splits)

text \<open>No row leads to \<open>FAILED\<close>: the contract's failure rule has no transition that carries it out.\<close>

lemma failed_unreachable:
  assumes "work_run s rs = Inr ''FAILED''"
  shows "s = ''FAILED''"
proof (rule ccontr)
  assume "s \<noteq> ''FAILED''"
  with work_run_cut [OF assms, of "- {''FAILED''}"] obtain r t where
    "work_step session_machine t r = Inr ''FAILED''" by auto
  from session_step_row [OF this] no_failed_rows show False by (auto simp: list_all_iff)
qed

text \<open>
  Claim C40. The shipped contract is a machine: it compiles, its rows connect declared states, every
  guard it names is registered (so no step of it fails with \<open>UNKNOWN_GUARD\<close>), and a terminal state
  has no way out: no event moves it and it is no resume target.
\<close>

theorem session_contract_sound:
  "from_contract SESSION_CONTRACT = Inr session_machine \<and>
   list_all (\<lambda>t. tr_from_state t \<in> set (sm_states session_machine) \<and>
     tr_to_state t \<in> set (sm_states session_machine) \<and> (\<exists>b. evaluate_guard (tr_guard_id t) e = Inr b)) session_rows \<and>
   list_all (\<lambda>s. fails_with ''INVALID_TRANSITION'' (candidate session_machine s ev) \<and>
      fails_with ''TERMINAL_RESUME'' (resume_target session_machine s)) TERMINAL_STATES"
proof (intro conjI)
  show "list_all (\<lambda>t. tr_from_state t \<in> set (sm_states session_machine) \<and>
     tr_to_state t \<in> set (sm_states session_machine) \<and> (\<exists>b. evaluate_guard (tr_guard_id t) e = Inr b)) session_rows"
    using rows_in_states guards_registered evaluate_guard_registered by (auto simp: list_all_iff)
next
  have "fails_with ''INVALID_TRANSITION'' (candidate session_machine s ev) \<and>
      fails_with ''TERMINAL_RESUME'' (resume_target session_machine s)" if "is_terminal s" for s
  proof -
    from that have "\<not> succeeds (candidate session_machine s ev)"
      using candidate_row [OF session_machine_wf, of s ev] terminal_rows
      by (fastforce simp: succeeds_iff list_all_iff session_rows_def)
    then obtain x where x: "candidate session_machine s ev = Inl x"
      by (cases "candidate session_machine s ev") simp_all
    from candidate_refuses [OF this] obtain msg where "x = CyranoError ''INVALID_TRANSITION'' msg" ..
    with x that show ?thesis by (simp add: resume_target_def is_terminal_def)
  qed
  then show "list_all (\<lambda>s. fails_with ''INVALID_TRANSITION'' (candidate session_machine s ev) \<and>
      fails_with ''TERMINAL_RESUME'' (resume_target session_machine s)) TERMINAL_STATES"
    by (simp add: list_all_iff is_terminal_def)
qed (rule session_contract_compiles)

definition unplanned_states :: "string list" where
  "unplanned_states =
     [''CREATED'', ''INTAKE'', ''FRAME'', ''ACQUIRE'', ''RESOLVE'', ''SPEC_DRAFT'', ''SPEC_REVIEW'',
      ''AWAIT_SPEC_APPROVAL'', ''APPROVED_FOR_PLANNING'', ''PLAN_DRAFT'', ''PLAN_REVIEW'',
      ''AWAIT_PLAN_APPROVAL'', ''CHANGE_ASSESSMENT'', ''PAUSED'', ''CANCELLING'', ''CANCELLED'',
      ''FAILED'', ''BLOCKED'']"

definition unauthorized_states :: "string list" where
  "unauthorized_states = ''APPROVED_PLAN'' # ''AWAIT_EXECUTION_AUTH'' # unplanned_states"

definition unverified_states :: "string list" where
  "unverified_states =
     ''READY_TO_EXECUTE'' # ''EXECUTING'' # ''VERIFYING'' # ''REWORK'' # ''RECONCILING'' # unauthorized_states"

definition uncompleted_states :: "string list" where
  "uncompleted_states = ''FINAL_REVIEW'' # ''AWAIT_APPLY_APPROVAL'' # ''APPLYING'' # unverified_states"

lemma exit_unplanned: "guarded_exit unplanned_states [''trusted_exact_approve_plan''] ''APPROVED_PLAN''"
  unfolding guarded_exit_def session_machine_rows by code_simp

lemma exit_unauthorized:
  "guarded_exit unauthorized_states [''trusted_authorize_execution_scope_intersection''] ''READY_TO_EXECUTE''"
  unfolding guarded_exit_def session_machine_rows by code_simp

lemma exit_unverified:
  "guarded_exit unverified_states [''current_postimage_all_required_evidence''] ''FINAL_REVIEW''"
  unfolding guarded_exit_def session_machine_rows by code_simp

lemma exit_uncompleted:
  "guarded_exit uncompleted_states
     [''delivery_patch_only_and_all_completion_gates'', ''source_manifest_and_required_final_checks_passed'']
     ''COMPLETED''"
  unfolding guarded_exit_def session_machine_rows by code_simp

lemmas guard_eval = evaluate_guard_def GUARDS_def
lemmas session_zones = unplanned_states_def unauthorized_states_def unverified_states_def uncompleted_states_def

text \<open>A run through rows of the shipped contract, with all the evidence its guards ask for.\<close>

definition full_evidence :: GuardEvidence where
  "full_evidence =
    \<lparr>ge_runtime_policy_bound = True,
     ge_trusted_input = True,
     ge_memory_view_ready = True,
     ge_read_scope_available = True,
     ge_read_or_probe_authorized = True,
     ge_redundant_question = False,
     ge_unresolved_mandatory_obligations = 0,
     ge_blockers = 0,
     ge_snapshot_provenance_valid = True,
     ge_trusted_user_event = True,
     ge_model_reported = False,
     ge_bundle_content_addressed = True,
     ge_findings_current = True,
     ge_reviews_current = True,
     ge_spec_receipt_verified = True,
     ge_spec_approval_current = True,
     ge_spec_still_valid = True,
     ge_plan_valid = True,
     ge_plan_receipt_verified = True,
     ge_display_bound = True,
     ge_exec_receipt_verified = True,
     ge_apply_receipt_verified = True,
     ge_scope_unchanged = True,
     ge_adapter_governed = True,
     ge_budget_preimage_valid = True,
     ge_unknown_effects = 0,
     ge_repair_possible = True,
     ge_postimage_current = True,
     ge_evidence_complete = True,
     ge_permit_current = True,
     ge_completion_gates_passed = True,
     ge_apply_checks_passed = True,
     ge_preimage_current = True,
     ge_manifest_matched = True,
     ge_final_checks_passed = True,
     ge_journal_present = True,
     ge_partial_state_recorded = True,
     ge_dependents_invalidated = True,
     ge_permits_revoked = True,
     ge_new_dispatch_stopped = True,
     ge_cancel_trusted = True,
     ge_checkpoint_persisted = True\<rparr>"

fun linked :: "string \<Rightarrow> Transition list \<Rightarrow> string \<Rightarrow> bool" where
  "linked s [] s' \<longleftrightarrow> s = s'"
| "linked s (t # ts) s' \<longleftrightarrow> tr_from_state t = s \<and> linked (tr_to_state t) ts s'"

definition contract_path :: "nat list \<Rightarrow> Transition list" where
  "contract_path ns = map (nth (rows_of (doc_transitions SESSION_CONTRACT))) ns"

definition good_path :: "string \<Rightarrow> nat list \<Rightarrow> string \<Rightarrow> bool" where
  "good_path s ns s' \<longleftrightarrow>
     list_all (\<lambda>n. n < length (rows_of (doc_transitions SESSION_CONTRACT))) ns \<and>
     linked s (contract_path ns) s' \<and>
     list_all (\<lambda>t. evaluate_guard (tr_guard_id t) full_evidence = Inr True) (contract_path ns)"

lemma take_row:
  "t \<in> set (sm_transitions session_machine) \<Longrightarrow> evaluate_guard (tr_guard_id t) e = Inr True \<Longrightarrow>
     work_step session_machine (tr_from_state t) (tr_event t, e) = Inr (tr_to_state t)"
  using candidate_Ok_iff [OF session_machine_wf, of "tr_from_state t" "tr_event t" t] rows_in_states
  by (auto simp: work_step_def row_key_def list_all_iff session_rows_def)

lemma run_rows:
  "set ts \<subseteq> set (sm_transitions session_machine) \<Longrightarrow> linked s ts s' \<Longrightarrow>
   list_all (\<lambda>t. evaluate_guard (tr_guard_id t) e = Inr True) ts \<Longrightarrow>
     work_run s (map (\<lambda>t. (tr_event t, e)) ts) = Inr s'"
  by (induction ts arbitrary: s) (auto simp: take_row)

lemma run_good_path:
  assumes "good_path s ns s'"
  shows "work_run s (map (\<lambda>t. (tr_event t, full_evidence)) (contract_path ns)) = Inr s'"
proof (rule run_rows)
  show "set (contract_path ns) \<subseteq> set (sm_transitions session_machine)"
    using assms unfolding good_path_def contract_path_def session_transitions by (auto simp: list_all_iff)
qed (use assms in \<open>simp_all add: good_path_def\<close>)

lemma good_executing: "good_path ''CREATED'' [0, 1, 4, 9, 11, 12, 13, 14, 16, 17, 18, 19, 20] ''EXECUTING''"
  by code_simp

lemma good_completed:
  "good_path ''CREATED'' [0, 1, 4, 9, 11, 12, 13, 14, 16, 17, 18, 19, 20, 21, 24, 27] ''COMPLETED''"
  by code_simp

lemmas run_to_executing = run_good_path [OF good_executing]
lemmas run_to_completed = run_good_path [OF good_completed]



text \<open>
  A completed session was verified and closed: among its steps is one on which the
  postimage was current with complete evidence and, later, one on which either the completion gates
  had passed (patch delivery) or the source manifest matched and the final checks had passed
  (delivery applied to the source).
\<close>

theorem session_completion_gated:
  assumes "work_run ''CREATED'' rs = Inr ''COMPLETED''"
  shows "\<exists>xs r1 ys r2 zs. rs = xs @ r1 # ys @ r2 # zs \<and>
           ge_postimage_current (snd r1) \<and> ge_evidence_complete (snd r1) \<and>
           (ge_completion_gates_passed (snd r2) \<or>
            ge_manifest_matched (snd r2) \<and> ge_final_checks_passed (snd r2))"
proof -
  have zones: "''CREATED'' \<in> set unverified_states" "''FINAL_REVIEW'' \<in> set uncompleted_states"
    "''COMPLETED'' \<notin> set unverified_states" "''COMPLETED'' \<notin> set uncompleted_states"
    by (simp_all add: session_zones)
  obtain xs r1 us g1 where 1: "rs = xs @ r1 # us" "g1 \<in> set [''current_postimage_all_required_evidence'']"
    "evaluate_guard g1 (snd r1) = Inr True" "work_run ''FINAL_REVIEW'' us = Inr ''COMPLETED''"
    by (rule work_exit [OF exit_unverified assms zones(1,3)])
  obtain ys r2 zs g2 where 2: "us = ys @ r2 # zs"
    "g2 \<in> set [''delivery_patch_only_and_all_completion_gates'', ''source_manifest_and_required_final_checks_passed'']"
    "evaluate_guard g2 (snd r2) = Inr True"
    by (rule work_exit [OF exit_uncompleted 1(4) zones(2,4)])
  from 1 2(1) have "rs = xs @ r1 # ys @ r2 # zs" "ge_postimage_current (snd r1) \<and> ge_evidence_complete (snd r1)"
    by (simp_all add: guard_eval)
  moreover have "ge_completion_gates_passed (snd r2) \<or> ge_manifest_matched (snd r2) \<and> ge_final_checks_passed (snd r2)"
    using 2(2,3) by (auto simp: guard_eval)
  ultimately show ?thesis by blast
qed

lemma session_completion_gated_witness:
  "\<exists>rs. work_run ''CREATED'' rs = Inr ''COMPLETED'' \<and>
     (\<exists>xs r1 ys r2 zs. rs = xs @ r1 # ys @ r2 # zs \<and>
           ge_postimage_current (snd r1) \<and> ge_evidence_complete (snd r1) \<and>
           (ge_completion_gates_passed (snd r2) \<or>
            ge_manifest_matched (snd r2) \<and> ge_final_checks_passed (snd r2)))"
  using session_completion_gated [OF run_to_completed] run_to_completed by blast

end
