(* ===== verification/Worklist.thy ===== *)
theory Worklist
  imports Prelude
begin

text \<open>
  The two searches the planning and compilation code runs, each proved against the
  reflexive-transitive closure of its edge relation: the affected-set closure over a table of
  dependents (\<open>compute_impact\<close>, \<open>_reverse_closure\<close> in \<open>planning/changes.py\<close>) and the
  reachability test (\<open>_reachable\<close> in \<open>planning/validation.py\<close>).
\<close>

section \<open>Closure over a table of successors\<close>

text \<open>\<open>table.get(node, set())\<close>\<close>

definition succs :: "('a, 'a list) dict \<Rightarrow> 'a \<Rightarrow> 'a list" where
  "succs t n = (case dict_get t n of None \<Rightarrow> [] | Some ds \<Rightarrow> ds)"

definition edges :: "('a, 'a list) dict \<Rightarrow> ('a \<times> 'a) set" where
  "edges t = {(x, y). y \<in> set (succs t x)}"

lemma succs_set: "succs (dict_set k v t) n = (if n = k then v else succs t n)"
  by (simp add: succs_def)

lemma edges_Nil [simp]: "edges [] = {}"
  by (simp add: edges_def succs_def)

text \<open>What a loop that adds entries to a table adds in total.\<close>

lemma fold_adds:
  assumes "\<And>x t. g (f x t) = A x \<union> g t"
  shows "g (fold f xs t) = \<Union> (A ` set xs) \<union> g t"
  using assms by (induction xs arbitrary: t) auto

definition targets :: "('a, 'a list) dict \<Rightarrow> 'a set" where
  "targets t = (\<Union>(k, ds) \<in> set t. set ds)"

lemma finite_targets [simp]: "finite (targets t)"
  by (auto simp: targets_def)

lemma succs_targets: "set (succs t n) \<subseteq> targets t"
  by (cases "dict_get t n") (force simp: succs_def targets_def dest: map_of_SomeD)+

text \<open>The elements of \<open>ds\<close> not yet in \<open>aff\<close>, each once, in the order they are met.\<close>

fun fresh :: "'a list \<Rightarrow> 'a list \<Rightarrow> 'a list" where
  "fresh aff [] = []"
| "fresh aff (d # ds) = (if d \<in> set aff then fresh aff ds else d # fresh (d # aff) ds)"

lemma set_fresh: "set (fresh aff ds) = set ds - set aff"
  by (induction aff ds rule: fresh.induct) auto

text \<open>
  \<open>while frontier: node = frontier.pop(); for dep in dependents: if dep not in affected: ...\<close>
  The head of the list is the end of the Python list, which \<open>pop\<close> takes.
\<close>

function closure_loop :: "('a, 'a list) dict \<Rightarrow> 'a list \<Rightarrow> 'a list \<Rightarrow> 'a list" where
  "closure_loop t aff [] = aff"
| "closure_loop t aff (n # fr) =
     (let new = fresh aff (succs t n) in closure_loop t (aff @ new) (rev new @ fr))"
  by pat_completeness auto
termination
proof (relation "measures [\<lambda>(t, aff, fr). card (targets t - set aff), \<lambda>(t, aff, fr). length fr]", goal_cases)
  case 1
  then show ?case by simp
next
  case (2 t aff n fr new)
  show ?case
  proof (cases "new = []")
    case True
    then show ?thesis by simp
  next
    case False
    from 2 have "set new \<subseteq> targets t - set aff"
      using succs_targets [of t n] by (auto simp: set_fresh)
    with False have "targets t - set (aff @ new) \<subset> targets t - set aff"
      by (cases new) auto
    then have "card (targets t - set (aff @ new)) < card (targets t - set aff)"
      by (intro psubset_card_mono) auto
    then show ?thesis by simp
  qed
qed

lemma closure_loop_sound:
  "set fr \<subseteq> set aff \<Longrightarrow> set (closure_loop t aff fr) \<subseteq> (edges t)\<^sup>* `` set aff"
proof (induction t aff fr rule: closure_loop.induct)
  case (1 t aff)
  then show ?case by auto
next
  case (2 t aff n fr)
  let ?new = "fresh aff (succs t n)"
  from "2.prems" have sub: "set (rev ?new @ fr) \<subseteq> set (aff @ ?new)" by auto
  have "set ?new \<subseteq> (edges t)\<^sup>* `` set aff"
    using "2.prems" by (auto simp: set_fresh edges_def)
  then have "(edges t)\<^sup>* `` set (aff @ ?new) \<subseteq> (edges t)\<^sup>* `` set aff"
    by (auto intro: rtrancl_trans)
  with "2.IH" [OF refl sub] show ?case by (auto simp: Let_def)
qed

lemma closure_loop_closed:
  "set fr \<subseteq> set aff \<Longrightarrow> \<forall>x \<in> set aff - set fr. set (succs t x) \<subseteq> set aff \<Longrightarrow>
     set aff \<subseteq> set (closure_loop t aff fr) \<and>
     (\<forall>x \<in> set (closure_loop t aff fr). set (succs t x) \<subseteq> set (closure_loop t aff fr))"
proof (induction t aff fr rule: closure_loop.induct)
  case (1 t aff)
  then show ?case by auto
next
  case (2 t aff n fr)
  let ?new = "fresh aff (succs t n)"
  from "2.prems"(1) have sub: "set (rev ?new @ fr) \<subseteq> set (aff @ ?new)" by auto
  have "\<forall>x \<in> set (aff @ ?new) - set (rev ?new @ fr). set (succs t x) \<subseteq> set (aff @ ?new)"
    using "2.prems"(2) by (auto simp: set_fresh)
  from "2.IH" [OF refl sub this] show ?case by (auto simp: Let_def)
qed

lemma closed_rtrancl:
  assumes "\<And>x y. x \<in> A \<Longrightarrow> (x, y) \<in> r \<Longrightarrow> y \<in> A"
  shows "r\<^sup>* `` A = A"
proof -
  have "(x, y) \<in> r\<^sup>* \<Longrightarrow> x \<in> A \<Longrightarrow> y \<in> A" for x y
    by (induction rule: rtrancl_induct) (auto intro: assms)
  then show ?thesis by auto
qed

text \<open>The worklist computes exactly the nodes reachable from its seeds.\<close>

theorem closure_loop_correct: "set (closure_loop t seeds seeds') = (edges t)\<^sup>* `` set seeds"
  if "set seeds' = set seeds"
proof
  from that show "set (closure_loop t seeds seeds') \<subseteq> (edges t)\<^sup>* `` set seeds"
    by (intro closure_loop_sound) simp
  from that have c: "set seeds \<subseteq> set (closure_loop t seeds seeds') \<and>
     (\<forall>x \<in> set (closure_loop t seeds seeds'). set (succs t x) \<subseteq> set (closure_loop t seeds seeds'))"
    by (intro closure_loop_closed) auto
  then have "(edges t)\<^sup>* `` set (closure_loop t seeds seeds') = set (closure_loop t seeds seeds')"
    by (intro closed_rtrancl) (auto simp: edges_def)
  with c show "(edges t)\<^sup>* `` set seeds \<subseteq> set (closure_loop t seeds seeds')"
    by blast
qed

section \<open>Reachability\<close>

text \<open>
  \<open>while stack: node = stack.pop(); if node == dst: return True; ...; stack.extend(deps)\<close>
  over a table of the units' dependencies; a name without an entry is not expanded.
\<close>

function reach_loop :: "('a, 'a list) dict \<Rightarrow> 'a \<Rightarrow> 'a list \<Rightarrow> 'a list \<Rightarrow> bool" where
  "reach_loop t dst seen [] = False"
| "reach_loop t dst seen (n # st) =
     (if n = dst then True
      else if n \<in> set seen \<or> dict_get t n = None then reach_loop t dst seen st
      else reach_loop t dst (n # seen) (rev (succs t n) @ st))"
  by pat_completeness auto
termination
proof (relation "measures [\<lambda>(t, d, seen, st). card (set (dict_keys t) - set seen), \<lambda>(t, d, seen, st). length st]",
    goal_cases)
  case 1
  then show ?case by simp
next
  case (2 t dst seen n st)
  then show ?case by simp
next
  case (3 t dst seen n st)
  then have "n \<in> set (dict_keys t)" by (auto simp: dict_get_None_iff)
  with 3 have "set (dict_keys t) - set (n # seen) \<subset> set (dict_keys t) - set seen" by auto
  then have "card (set (dict_keys t) - set (n # seen)) < card (set (dict_keys t) - set seen)"
    by (intro psubset_card_mono) auto
  then show ?case by simp
qed

lemma succs_None: "dict_get t n = None \<Longrightarrow> succs t n = []"
  by (simp add: succs_def)

lemma reach_loop_sound:
  "reach_loop t dst seen st \<Longrightarrow> \<exists>n \<in> set st. (n, dst) \<in> (edges t)\<^sup>*"
proof (induction t dst seen st rule: reach_loop.induct)
  case (1 t dst seen)
  then show ?case by simp
next
  case (2 t dst seen n st)
  consider "n = dst" | "n \<noteq> dst" "n \<in> set seen \<or> dict_get t n = None"
    | "n \<noteq> dst" "\<not> (n \<in> set seen \<or> dict_get t n = None)" by argo
  then show ?case
  proof cases
    case 1
    then show ?thesis by auto
  next
    case 2
    with "2.IH"(1) "2.prems" show ?thesis by auto
  next
    case 3
    with "2.IH"(2) "2.prems" obtain m where m: "m \<in> set (succs t n) \<or> m \<in> set st" "(m, dst) \<in> (edges t)\<^sup>*"
      by auto
    show ?thesis
    proof (cases "m \<in> set st")
      case True
      with m show ?thesis by auto
    next
      case False
      with m have "(n, m) \<in> edges t" by (auto simp: edges_def)
      with m(2) show ?thesis by (auto intro: converse_rtrancl_into_rtrancl)
    qed
  qed
qed

lemma reach_loop_complete:
  "\<not> reach_loop t dst seen st \<Longrightarrow> set seen \<subseteq> V \<Longrightarrow> dst \<notin> V \<Longrightarrow>
     \<forall>x \<in> V. set (succs t x) \<subseteq> V \<union> set st \<Longrightarrow> dst \<notin> (edges t)\<^sup>* `` (V \<union> set st)"
proof (induction t dst seen st arbitrary: V rule: reach_loop.induct)
  case (1 t dst seen)
  then have "(edges t)\<^sup>* `` V = V"
    by (intro closed_rtrancl) (auto simp: edges_def)
  with "1.prems" show ?case by auto
next
  case (2 t dst seen n st)
  let ?V = "insert n V"
  from "2.prems"(1,3) have nd: "n \<noteq> dst" "dst \<notin> ?V" by auto
  show ?case
  proof (cases "n \<in> set seen \<or> dict_get t n = None")
    case True
    from True nd "2.prems"(1) have nr: "\<not> reach_loop t dst seen st" by auto
    have "\<forall>x \<in> ?V. set (succs t x) \<subseteq> ?V \<union> set st"
      using True "2.prems"(2,4) by (auto simp: succs_None)
    from "2.IH"(1) [OF nd(1) True nr _ nd(2) this] "2.prems"(2) show ?thesis by auto
  next
    case False
    with nd "2.prems"(1) have nr: "\<not> reach_loop t dst (n # seen) (rev (succs t n) @ st)" by auto
    have "\<forall>x \<in> ?V. set (succs t x) \<subseteq> ?V \<union> set (rev (succs t n) @ st)"
      using "2.prems"(4) by auto
    from "2.IH"(2) [OF nd(1) False nr _ nd(2) this] "2.prems"(2)
    have "dst \<notin> (edges t)\<^sup>* `` (?V \<union> set (rev (succs t n) @ st))" by auto
    then show ?thesis by auto
  qed
qed

theorem reach_loop_correct: "reach_loop t dst [] [src] \<longleftrightarrow> (src, dst) \<in> (edges t)\<^sup>*"
  using reach_loop_sound [of t dst "[]" "[src]"] reach_loop_complete [of t dst "[]" "[src]" "{}"]
  by (auto simp del: reach_loop.simps)

end
