(* ===== verification/Layers.thy ===== *)
theory Layers
  imports Worklist "HOL-Library.Multiset"
begin

text \<open>
  Topological ordering by layers: \<open>order_plan\<close> (\<open>workflow/plan.py\<close>) and \<open>compile_workflow\<close>
  (\<open>workflow/compiler.py\<close>) both repeat the step \<open>ready = sorted(key for key, node in by_id.items() if key
  not settled and dependencies <= settled)\<close> over a table of dependencies. This theory holds the step and
  what it gives.
\<close>

definition ready_keys :: "('a::linorder, 'a list) dict \<Rightarrow> 'a list \<Rightarrow> 'a list" where
  "ready_keys t settled = sort (map fst [(k, ds) \<leftarrow> t. k \<notin> set settled \<and> subset_list ds settled])"

text \<open>The dependencies between keys of a table.\<close>

definition dep_rel :: "('a, 'a list) dict \<Rightarrow> ('a \<times> 'a) set" where
  "dep_rel t = {(k, d). \<exists>ds. (k, ds) \<in> set t \<and> d \<in> set ds}"

text \<open>Each key comes after everything it depends on, once.\<close>

definition settles :: "('a, 'a list) dict \<Rightarrow> 'a list \<Rightarrow> bool" where
  "settles t ks \<longleftrightarrow> distinct ks \<and> set ks \<subseteq> set (dict_keys t) \<and>
     (\<forall>xs k ys. ks = xs @ k # ys \<longrightarrow> (\<forall>ds. (k, ds) \<in> set t \<longrightarrow> set ds \<subseteq> set xs))"

lemma settles_Nil [simp]: "settles t []"
  by (simp add: settles_def)

lemma in_ready_keys: "k \<in> set (ready_keys t ks) \<longleftrightarrow> k \<notin> set ks \<and> (\<exists>ds. (k, ds) \<in> set t \<and> set ds \<subseteq> set ks)"
  by (auto simp: ready_keys_def image_iff)

lemma ready_keys_distinct: "dict_wf t \<Longrightarrow> distinct (ready_keys t ks)"
  by (simp add: ready_keys_def distinct_map_filter)

lemma settles_snoc:
  assumes wf: "dict_wf t" and ks: "settles t ks" and k: "k \<notin> set ks" "(k, ds) \<in> set t" "set ds \<subseteq> set ks"
  shows "settles t (ks @ [k])"
proof -
  have "set es \<subseteq> set xs" if "ks @ [k] = xs @ k' # ys" "(k', es) \<in> set t" for xs k' ys es
  proof (cases ys rule: rev_cases)
    case Nil
    with that(1) have "xs = ks" "k' = k" by simp_all
    moreover from this wf that(2) k(2) have "es = ds" by (metis dict_get_iff_in option.inject)
    ultimately show ?thesis using k(3) by simp
  next
    case (snoc zs z)
    with that(1) have "ks = xs @ k' # zs" by simp
    with ks that(2) show ?thesis unfolding settles_def by blast
  qed
  moreover have "k \<in> set (dict_keys t)" using k(2) by force
  ultimately show ?thesis using ks k(1) unfolding settles_def by auto
qed

lemma settles_layer:
  assumes wf: "dict_wf t" and ks: "settles t ks" and ls: "distinct ls" "set ls \<subseteq> set (ready_keys t ks)"
  shows "settles t (ks @ ls)"
  using ls
proof (induction ls rule: rev_induct)
  case (snoc l ls)
  then have "settles t (ks @ ls)" by simp
  moreover obtain ds where "l \<notin> set ks" "(l, ds) \<in> set t" "set ds \<subseteq> set ks"
    using snoc.prems(2) by (auto simp: in_ready_keys)
  ultimately have "settles t ((ks @ ls) @ [l])" using snoc.prems(1) by (intro settles_snoc [OF wf]) auto
  then show ?case by simp
qed (use ks in simp)

text \<open>An order in which every key is settled shows that the dependencies have no cycle.\<close>

lemma settles_acyclic:
  assumes "dict_wf t" "settles t ks" "set ks = set (dict_keys t)"
  shows "acyclic (dep_rel t)"
proof -
  define pos where "pos k = length (takeWhile (\<lambda>x. x \<noteq> k) ks)" for k
  have "pos d < pos k" if kd: "(k, d) \<in> dep_rel t" for k d
  proof -
    from kd obtain ds where ds: "(k, ds) \<in> set t" "d \<in> set ds" by (auto simp: dep_rel_def)
    then have "k \<in> set ks" using assms(3) by force
    then obtain xs ys where split: "ks = xs @ k # ys" "k \<notin> set xs" by (meson split_list_first)
    with assms(2) ds have d: "d \<in> set xs" unfolding settles_def by blast
    then obtain us vs where us: "xs = us @ d # vs" "d \<notin> set us" by (meson split_list_first)
    have "pos k = length xs" unfolding pos_def split(1) using split(2) by (subst takeWhile_append2) auto
    moreover have "pos d = length us"
      unfolding pos_def split(1) us(1) append.assoc using us(2) by (subst takeWhile_append2) auto
    ultimately show ?thesis using us(1) by simp
  qed
  then have "(dep_rel t)\<inverse> \<subseteq> measure pos" by auto
  then have "wf ((dep_rel t)\<inverse>)" by (rule wf_subset [OF wf_measure])
  then have "acyclic ((dep_rel t)\<inverse>)" by (rule wf_acyclic)
  then show ?thesis by (simp add: acyclic_converse)
qed

text \<open>While keys are left and nothing is ready, there is a cycle.\<close>

lemma stuck_cyclic:
  assumes wf: "dict_wf t" and closed: "dep_rel t `` UNIV \<subseteq> set (dict_keys t)"
    and stuck: "ready_keys t ks = []" and left: "\<not> set (dict_keys t) \<subseteq> set ks"
  shows "\<not> acyclic (dep_rel t)"
proof
  assume "acyclic (dep_rel t)"
  moreover have "dep_rel t = (\<Union>(k, ds) \<in> set t. (\<lambda>d. (k, d)) ` set ds)" by (auto simp: dep_rel_def)
  then have "finite (dep_rel t)" by auto
  ultimately have "wf ((dep_rel t)\<inverse>)" by (intro finite_acyclic_wf_converse)
  then obtain k where k: "k \<in> set (dict_keys t) - set ks" "\<And>d. (d, k) \<in> (dep_rel t)\<inverse> \<Longrightarrow> d \<notin> set (dict_keys t) - set ks"
    using left wfE_min [of "(dep_rel t)\<inverse>" _ "set (dict_keys t) - set ks"] by (metis DiffI subsetI)
  then obtain ds where ds: "(k, ds) \<in> set t" by auto
  have "set ds \<subseteq> set ks"
  proof
    fix d
    assume "d \<in> set ds"
    with ds have "(k, d) \<in> dep_rel t" by (auto simp: dep_rel_def)
    with k(2) closed show "d \<in> set ks" by blast
  qed
  with k ds have "k \<in> set (ready_keys t ks)" by (auto simp: in_ready_keys)
  with stuck show False by simp
qed

text \<open>The layers do not depend on the order in which the table lists its keys.\<close>

lemma ready_keys_perm: "mset t = mset t' \<Longrightarrow> ready_keys t ks = ready_keys t' ks"
proof -
  assume "mset t = mset t'"
  then have "mset (map fst [(k, ds) \<leftarrow> t. k \<notin> set ks \<and> subset_list ds ks]) =
      mset (map fst [(k, ds) \<leftarrow> t'. k \<notin> set ks \<and> subset_list ds ks])"
    by (simp only: mset_map mset_filter)
  then show ?thesis unfolding ready_keys_def by (intro properties_for_sort) simp_all
qed

end
