(* ===== verification/Interview.thy ===== *)
theory Interview
  imports SessionMachine Outbox Layers
begin

text \<open>
  The requirements interview: readiness as a blocker check (\<open>interview/readiness.py\<close>), the decision log
  (\<open>interview/decisions.py\<close>), the binding of worker results (\<open>interview/worker_adapter.py\<close>) and the service
  over the ledger and the session machine (\<open>interview/service.py\<close>). What a session can and cannot come to is
  stated over runs of service calls, between which other processes may make any calls on the ledger.
\<close>

section \<open>Readiness\<close>

record Obligation =
  ob_obligation_id :: string
  ob_critical :: bool
  ob_resolved :: bool
  ob_deferred_to :: "string option"
  ob_authorized_deferral :: bool

record Readiness =
  rd_ready :: bool
  rd_blockers :: "string list"
  rd_execution_authorized :: bool

definition obligation_blocks :: "string \<Rightarrow> Obligation \<Rightarrow> bool" where
  "obligation_blocks target_stage item =
     (let deferred = ob_authorized_deferral item \<and> ob_deferred_to item = Some target_stage \<and> \<not> ob_critical item
      in \<not> ob_resolved item \<and> \<not> deferred)"

definition assess :: "Obligation list \<Rightarrow> string \<Rightarrow> bool \<Rightarrow> int \<Rightarrow> int \<Rightarrow> int \<Rightarrow> Readiness" where
  "assess obligations target_stage required_review_current important_assumptions stale_evidence unresolved_conflicts =
     (let blockers =
        map (\<lambda>item. ''obligation:'' @ ob_obligation_id item) [item \<leftarrow> obligations. obligation_blocks target_stage item]
        @ (if \<not> required_review_current then [''review_missing_or_stale''] else [])
        @ (if important_assumptions \<noteq> 0 then [''unauthorized_assumptions''] else [])
        @ (if stale_evidence \<noteq> 0 then [''stale_evidence''] else [])
        @ (if unresolved_conflicts \<noteq> 0 then [''unresolved_conflicts''] else [])
      in \<lparr>rd_ready = (blockers = []), rd_blockers = blockers, rd_execution_authorized = False\<rparr>)"

text \<open>
  \<open>while True: extra = {node for node, parents in dependencies.items() if parents & affected}; \<dots>\<close>
  over a table from each node to its parents.
\<close>

definition touched :: "(string, string list) dict \<Rightarrow> string list \<Rightarrow> string list" where
  "touched dependencies affected = map fst [(node, parents) \<leftarrow> dependencies. \<not> disjoint_list parents affected]"

function affected_loop :: "(string, string list) dict \<Rightarrow> string list \<Rightarrow> string list" where
  "affected_loop dependencies affected =
     (let extra = touched dependencies affected in
      if subset_list extra affected then affected
      else affected_loop dependencies (affected @ minus_list extra affected))"
  by pat_completeness auto
termination
proof (relation "measure (\<lambda>(d, a). card (set (dict_keys d) - set a))", goal_cases)
  case 1
  then show ?case by simp
next
  case (2 d a extra)
  then have "set extra \<subseteq> set (dict_keys d)" by (auto simp: touched_def)
  with 2 have "set (dict_keys d) - set (a @ minus_list extra a) \<subset> set (dict_keys d) - set a" by auto
  then have "card (set (dict_keys d) - set (a @ minus_list extra a)) < card (set (dict_keys d) - set a)"
    by (intro psubset_card_mono) auto
  then show ?case by simp
qed

declare affected_loop.simps [simp del]

definition affected_closure :: "string list \<Rightarrow> (string, string list) dict \<Rightarrow> string list" where
  "affected_closure changed dependencies = affected_loop dependencies changed"

section \<open>The decision log\<close>

definition DELEGATED_DOMAINS :: "string list" where
  "DELEGATED_DOMAINS = [''internal_structure'', ''internal_choice'']"

record InterviewDecision =
  de_decision_id :: string
  de_text :: string
  de_authority :: string
  de_domain :: string
  de_impact :: string
  de_revision :: int
  de_status :: string

record DecisionLog =
  dl_delegated :: "string list"
  dl_decisions :: "(string, InterviewDecision) dict"
  dl_history :: "InterviewDecision list"

definition new_decision_log :: "string list \<Rightarrow> DecisionLog" where
  "new_decision_log delegated = \<lparr>dl_delegated = delegated, dl_decisions = [], dl_history = []\<rparr>"

record proposal =
  pp_decision_id :: string
  pp_text :: string
  pp_proposer :: string
  pp_domain :: string
  pp_impact :: string
  pp_revision :: int
  pp_user_authorized :: bool

definition decision_status :: "string list \<Rightarrow> proposal \<Rightarrow> string" where
  "decision_status delegated p =
     (let status = (if pp_proposer p = ''user'' \<or> pp_user_authorized p then ''decided'' else ''proposed'') in
      if pp_domain p \<in> set delegated \<and> pp_impact p = ''low'' then ''decided'' else status)"

definition proposed_decision :: "string list \<Rightarrow> proposal \<Rightarrow> InterviewDecision" where
  "proposed_decision delegated p =
     (let status = decision_status delegated p in
      \<lparr>de_decision_id = pp_decision_id p, de_text = pp_text p,
       de_authority = (if pp_user_authorized p \<or> pp_proposer p = ''user'' then ''user''
         else if status = ''decided'' then ''delegated'' else pp_proposer p),
       de_domain = pp_domain p, de_impact = pp_impact p, de_revision = pp_revision p, de_status = status\<rparr>)"

definition propose :: "proposal \<Rightarrow> (DecisionLog, InterviewDecision) op" where
  "propose p s =
     (if pp_proposer p = ''model'' \<and> pp_impact p = ''high'' \<and> \<not> pp_user_authorized p
      then (raise ''UNAUTHORIZED_DECISION'' (pp_decision_id p), s)
      else if pp_proposer p = ''model'' \<and> pp_domain p \<notin> set (dl_delegated s) \<and> \<not> pp_user_authorized p
      then (raise ''UNAUTHORIZED_DECISION'' (pp_decision_id p), s)
      else
        let decision = proposed_decision (dl_delegated s) p in
        if (case dict_get (dl_decisions s) (pp_decision_id p) of None \<Rightarrow> False
            | Some old \<Rightarrow> de_status old = ''decided'' \<and> de_text old \<noteq> pp_text p)
        then (raise ''DECISION_CONFLICT'' (pp_decision_id p), s)
        else (Ok decision,
          s\<lparr>dl_decisions := dict_set (pp_decision_id p) decision (dl_decisions s), dl_history := dl_history s @ [decision]\<rparr>))"

definition get_decision :: "DecisionLog \<Rightarrow> string \<Rightarrow> InterviewDecision result" where
  "get_decision s decision_id =
     (case dict_get (dl_decisions s) decision_id of
        None \<Rightarrow> raise ''UNKNOWN_DECISION'' decision_id | Some d \<Rightarrow> Ok d)"

definition rescind :: "string \<Rightarrow> (string, string list) dict \<Rightarrow> (DecisionLog, string list) op" where
  "rescind decision_id dependents s =
     (case get_decision s decision_id of
        Inl e \<Rightarrow> (Inl e, s)
      | Inr current \<Rightarrow>
          if de_status current = ''revoked'' then (raise ''DECISION_CONFLICT'' decision_id, s)
          else
            let revoked = current\<lparr>de_status := ''revoked''\<rparr> in
            (Ok (affected_closure [decision_id] dependents),
             s\<lparr>dl_decisions := dict_set decision_id revoked (dl_decisions s), dl_history := dl_history s @ [revoked]\<rparr>))"

definition history :: "DecisionLog \<Rightarrow> string \<Rightarrow> InterviewDecision list" where
  "history s decision_id = [d \<leftarrow> dl_history s. de_decision_id d = decision_id]"

definition all_current :: "DecisionLog \<Rightarrow> InterviewDecision list" where
  "all_current s = map snd (dl_decisions s)"

section \<open>Worker results\<close>

definition ROLE_ALIASES :: "(string, string) dict" where
  "ROLE_ALIASES = [(''facilitator'', ''facilitator''), (''evidence-scout'', ''evidence_scout''),
     (''critic'', ''critic''), (''blind-handoff-reviewer'', ''blind_reviewer'')]"

record WorkerBinding =
  wb_task_id :: string
  wb_role :: string
  wb_revision :: int
  wb_input_digest :: string

text \<open>\<open>re.fullmatch(r"sha256:[a-f0-9]{64}", text)\<close>\<close>

definition digest_text :: "string \<Rightarrow> bool" where
  "digest_text text \<longleftrightarrow> take 7 text = ''sha256:'' \<and> length text = 71 \<and>
     list_all (\<lambda>c. c \<in> set ''abcdef0123456789'') (drop 7 text)"

definition validate_worker_binding :: "pymap \<Rightarrow> WorkerBinding \<Rightarrow> unit result" where
  "validate_worker_binding payload expected =
     (case dict_get ROLE_ALIASES (wb_role expected) of
        None \<Rightarrow> raise ''UNKNOWN_INTERVIEW_ROLE'' (wb_role expected)
      | Some alias \<Rightarrow>
          if \<not> digest_text (wb_input_digest expected)
          then raise ''INVALID_DIGEST'' ''explicit SHA256 digest required''
          else if dict_get payload ''task_id'' \<noteq> Some (PStr (wb_task_id expected))
          then raise ''WRONG_TASK'' ''result does not belong to this task''
          else if dict_get payload ''role'' \<noteq> Some (PStr alias)
          then raise ''WRONG_ROLE'' ''worker role alias does not match''
          else if dict_get payload ''base_revision'' \<noteq> Some (PInt (wb_revision expected))
          then raise ''STALE_REVISION'' ''result computed from another revision''
          else if dict_get payload ''input_digest'' \<noteq> Some (PStr (drop 7 (wb_input_digest expected)))
          then raise ''INPUT_DIGEST_MISMATCH'' ''worker input changed''
          else Ok ())"

section \<open>The service\<close>

record Session =
  se_work_state :: string
  se_candidate_state :: string
  se_checkpoint :: "string option"

record Statement =
  sm_statement_id :: string
  sm_text :: string
  sm_kind :: string
  sm_source :: string

record InterviewService =
  is_repo :: Ledger
  is_scope :: string
  is_stream :: string
  is_machine :: SessionMachine
  is_session :: Session
  is_obligations :: "(string, Obligation) dict"
  is_decisions :: DecisionLog
  is_statements :: "(string, Statement) dict"
  is_snapshot_digest :: string
  is_invalidated :: "string list"
  is_rereview :: "string list"
  is_reviews :: "string list"
  is_approved :: bool
  is_paused :: bool

definition new_interview :: "Ledger \<Rightarrow> string \<Rightarrow> string \<Rightarrow> SessionMachine \<Rightarrow> InterviewService" where
  "new_interview repo scope_id stream_id m =
     \<lparr>is_repo = repo, is_scope = scope_id, is_stream = stream_id, is_machine = m,
      is_session = \<lparr>se_work_state = ''INTAKE'', se_candidate_state = ''proposed'', se_checkpoint = None\<rparr>,
      is_obligations = [], is_decisions = new_decision_log DELEGATED_DOMAINS, is_statements = [],
      is_snapshot_digest = [], is_invalidated = [], is_rereview = [], is_reviews = [], is_approved = False,
      is_paused = False\<rparr>"

definition enter :: "Transition \<Rightarrow> InterviewService \<Rightarrow> InterviewService" where
  "enter t s = s\<lparr>is_session := (is_session s)\<lparr>se_work_state := tr_to_state t\<rparr>\<rparr>"

definition move_session :: "string \<Rightarrow> (InterviewService, unit) op" where
  "move_session event s =
     (case candidate (is_machine s) (se_work_state (is_session s)) event of
        Inl e \<Rightarrow> (Inl e, s) | Inr t \<Rightarrow> (Ok (), enter t s))"

text \<open>A command of the ledger, called on the service's repository.\<close>

definition on_repo :: "(Ledger, 'a) op \<Rightarrow> (InterviewService, 'a) op" where
  "on_repo m s = (let (r, t) = m (is_repo s) in (r, s\<lparr>is_repo := t\<rparr>))"

definition ingest_user_event ::
  "hash_env \<Rightarrow> pymap \<Rightarrow> string \<Rightarrow> string \<Rightarrow> int \<Rightarrow> bool \<Rightarrow> bool \<Rightarrow> (InterviewService, int) op"
where
  "ingest_user_event H payload actor idempotency_key expected_revision trusted_user attested =
     obind oget (\<lambda>s.
       if is_terminal (se_work_state (is_session s)) then olift (raise ''INVALID_TRANSITION'' ''terminal session'')
       else if se_work_state (is_session s) = ''CANCELLING'' then olift (raise ''INVALID_TRANSITION'' ''cancelled session'')
       else
         obind (on_repo (execute_command H (is_scope s) actor ''user_event'' idempotency_key payload (is_stream s)
           expected_revision False ''cli'' None)) (\<lambda>receipt.
         if rc_idempotent_replay receipt then oret (rc_revision receipt)
         else
           let kind = dict_get payload ''type'' in
           obind (if kind = Some (PStr ''cancel'') then move_session ''user_cancel''
             else if kind = Some (PStr ''approve'') \<and> trusted_user \<and> attested
             then oput (\<lambda>s. s\<lparr>is_approved := True\<rparr>) else oret ()) (\<lambda>_.
           oret (rc_revision receipt))))"

definition normalize_statement :: "string \<Rightarrow> string \<Rightarrow> string \<Rightarrow> (InterviewService, Statement) op" where
  "normalize_statement statement_id txt source s =
     (let statement = \<lparr>sm_statement_id = statement_id, sm_text = txt,
        sm_kind = (if source = ''user'' then ''intended_change'' else ''observation''), sm_source = source\<rparr>
      in (Ok statement, s\<lparr>is_statements := dict_set statement_id statement (is_statements s)\<rparr>))"

definition add_obligation :: "Obligation \<Rightarrow> (InterviewService, unit) op" where
  "add_obligation ob =
     oput (\<lambda>s. s\<lparr>is_obligations := dict_set (ob_obligation_id ob) ob (is_obligations s)\<rparr>)"

definition apply_obligation_change ::
  "string \<Rightarrow> string \<Rightarrow> bool \<Rightarrow> string option \<Rightarrow> (string, string list) dict \<Rightarrow> (InterviewService, Obligation) op"
where
  "apply_obligation_change obligation_id change authorized reason dependents s =
     (case dict_get (is_obligations s) obligation_id of
        None \<Rightarrow> (raise ''UNKNOWN_OBLIGATION'' obligation_id, s)
      | Some current \<Rightarrow>
          if change \<in> {''not_applicable'', ''remove''} then
            if \<not> authorized \<or> reason \<in> {None, Some []} then (raise ''UNAUTHORIZED_DECISION'' obligation_id, s)
            else (Ok current,
              s\<lparr>is_invalidated := (if dependents \<noteq> []
                  then is_invalidated s @ affected_closure [obligation_id] dependents else is_invalidated s),
                is_obligations := dict_del obligation_id (is_obligations s)\<rparr>)
          else if change = ''resolve'' then
            let updated = current\<lparr>ob_resolved := True\<rparr> in
            (Ok updated, s\<lparr>is_obligations := dict_set obligation_id updated (is_obligations s)\<rparr>)
          else if change = ''defer'' then
            let updated = current\<lparr>ob_authorized_deferral := authorized\<rparr> in
            (Ok updated, s\<lparr>is_obligations := dict_set obligation_id updated (is_obligations s)\<rparr>)
          else (raise ''INVALID_INPUT'' change, s))"

definition on_decisions :: "(DecisionLog, 'a) op \<Rightarrow> (InterviewService, 'a) op" where
  "on_decisions m s = (let (r, t) = m (is_decisions s) in (r, s\<lparr>is_decisions := t\<rparr>))"

definition ingest_worker_result :: "pymap \<Rightarrow> WorkerBinding \<Rightarrow> (InterviewService, string) op" where
  "ingest_worker_result payload binding s =
     (if se_work_state (is_session s) \<in> {''CANCELLING'', ''CANCELLED''}
      then (raise ''INVALID_TRANSITION'' ''cancelled session'', s)
      else (case validate_worker_binding payload binding of
          Inl e \<Rightarrow> (Inl e,
            if fails_with ''STALE_REVISION'' (Inl e :: unit result)
            then s\<lparr>is_rereview := is_rereview s @ [wb_task_id binding]\<rparr> else s)
        | Inr _ \<Rightarrow> (Ok ''accepted'', s)))"

definition search_outcome :: "bool option \<Rightarrow> bool \<Rightarrow> string" where
  "search_outcome found bounded =
     (if found = None \<or> (found = Some False \<and> bounded) then ''unconfirmed''
      else if found = Some True then ''observed'' else ''absent'')"

definition assess_readiness ::
  "InterviewService \<Rightarrow> string \<Rightarrow> bool \<Rightarrow> int \<Rightarrow> int \<Rightarrow> int \<Rightarrow> Readiness"
where
  "assess_readiness s = assess (map snd (is_obligations s))"

definition next_action :: "string \<Rightarrow> bool \<Rightarrow> (InterviewService, string) op" where
  "next_action target_stage budget_exhausted s =
     (let readiness = assess_readiness s target_stage True 0 0 0 in
      if rd_blockers readiness \<noteq> [] \<or> budget_exhausted then (Ok ''pause'', s\<lparr>is_paused := True\<rparr>)
      else (Ok ''review'', s))"

definition note_done :: "string \<Rightarrow> bool \<Rightarrow> (InterviewService, nat) op" where
  "note_done reviewer_id trusted s =
     (let s' = (if trusted then s\<lparr>is_reviews := List.insert reviewer_id (is_reviews s)\<rparr> else s)
      in (Ok (length (is_reviews s')), s'))"

definition apply_snapshot :: "string \<Rightarrow> (string, string list) dict \<Rightarrow> (InterviewService, string list) op" where
  "apply_snapshot digest_value dependents s =
     (let s' = (if is_snapshot_digest s \<noteq> [] \<and> digest_value \<noteq> is_snapshot_digest s
        then s\<lparr>is_invalidated := is_invalidated s @ ''snapshot'' #
            (if dependents \<noteq> [] then affected_closure [''snapshot''] dependents else []),
          is_reviews := []\<rparr> else s)
      in (Ok (is_invalidated s'), s'\<lparr>is_snapshot_digest := digest_value\<rparr>))"

definition complete_work :: "(InterviewService, unit) op" where
  "complete_work = move_session ''required_checks_passed''"

definition set_checkpoint :: "string option \<Rightarrow> InterviewService \<Rightarrow> InterviewService" where
  "set_checkpoint c s = s\<lparr>is_session := (is_session s)\<lparr>se_checkpoint := c\<rparr>\<rparr>"

definition pause_session :: "string \<Rightarrow> (InterviewService, unit) op" where
  "pause_session checkpoint = obind (move_session ''pause_required'') (\<lambda>_. oput (set_checkpoint (Some checkpoint)))"

definition resume_session :: "(InterviewService, string) op" where
  "resume_session s =
     (case se_checkpoint (is_session s) of
        None \<Rightarrow> (raise ''INVALID_TRANSITION'' ''no checkpoint'', s)
      | Some checkpoint \<Rightarrow>
          (case resume_target (is_machine s) checkpoint of
             Inl e \<Rightarrow> (Inl e, s)
           | Inr target \<Rightarrow>
               (Ok target, s\<lparr>is_session := (is_session s)\<lparr>se_work_state := target, se_checkpoint := None\<rparr>\<rparr>)))"

section \<open>Invalidation is reachability\<close>

lemma set_touched: "set (touched d a) = (dep_rel d)\<inverse> `` set a"
  by (force simp: touched_def dep_rel_def)

lemma affected_loop_sound: "set (affected_loop d a) \<subseteq> ((dep_rel d)\<inverse>)\<^sup>* `` set a"
proof (induction d a rule: affected_loop.induct)
  case (1 d a)
  let ?x = "touched d a"
  show ?case
  proof (cases "subset_list ?x a")
    case True
    then show ?thesis by (subst affected_loop.simps) (auto simp: Let_def)
  next
    case False
    have "((dep_rel d)\<inverse>)\<^sup>* `` set (a @ minus_list ?x a) \<subseteq> ((dep_rel d)\<inverse>)\<^sup>* `` set a"
      by (auto simp: set_touched intro: converse_rtrancl_into_rtrancl)
    with False "1.IH" [OF refl False] show ?thesis by (subst affected_loop.simps) (auto simp: Let_def)
  qed
qed

lemma affected_loop_closed:
  "set a \<subseteq> set (affected_loop d a) \<and> (dep_rel d)\<inverse> `` set (affected_loop d a) \<subseteq> set (affected_loop d a)"
proof (induction d a rule: affected_loop.induct)
  case (1 d a)
  show ?case
  proof (cases "subset_list (touched d a) a")
    case True
    then show ?thesis by (subst (1 2 3) affected_loop.simps) (simp add: Let_def set_touched)
  next
    case False
    with "1.IH" [OF refl False] show ?thesis by (subst (1 2 3) affected_loop.simps) (simp add: Let_def)
  qed
qed

lemma affected_closure_reach: "set (affected_closure c d) = ((dep_rel d)\<inverse>)\<^sup>* `` set c"
proof -
  have "((dep_rel d)\<inverse>)\<^sup>* `` set (affected_closure c d) = set (affected_closure c d)"
    using affected_loop_closed [of c d] by (intro closed_rtrancl) (auto simp: affected_closure_def)
  with affected_loop_closed [of c d] affected_loop_sound [of d c] show ?thesis
    unfolding affected_closure_def by blast
qed

text \<open>
  Claim C19. Invalidation is exactly reachability and loses nothing: rescinding a standing decision, or changing
  the snapshot, marks those entities and only those that reach it along dependencies, cycles included.
\<close>

theorem invalidation_exact:
  "(\<forall>d. get_decision s k = Inr d \<and> de_status d \<noteq> ''revoked'' \<longrightarrow>
      (\<exists>xs s'. rescind k deps s = (Inr xs, s') \<and> set xs = {n. (n, k) \<in> (dep_rel deps)\<^sup>*})) \<and>
   (is_snapshot_digest v \<noteq> [] \<and> v' \<noteq> is_snapshot_digest v \<longrightarrow>
      (\<exists>xs t. apply_snapshot v' deps v = (Inr xs, t) \<and> is_reviews t = [] \<and>
         set xs = set (is_invalidated v) \<union> {n. (n, ''snapshot'') \<in> (dep_rel deps)\<^sup>*})) \<and>
   (is_snapshot_digest v \<in> {[], v'} \<longrightarrow>
      apply_snapshot v' deps v = (Inr (is_invalidated v), v\<lparr>is_snapshot_digest := v'\<rparr>))"
proof -
  have reach: "set (affected_closure [k] deps) = {n. (n, k) \<in> (dep_rel deps)\<^sup>*}" for k
    by (auto simp: affected_closure_reach rtrancl_converse)
  have "{n. (n, ''snapshot'') \<in> (dep_rel [])\<^sup>*} = {''snapshot''}" by (auto simp: dep_rel_def)
  moreover have "''snapshot'' \<in> {n. (n, ''snapshot'') \<in> (dep_rel deps)\<^sup>*}" by simp
  ultimately show ?thesis by (auto simp: rescind_def apply_snapshot_def reach Let_def)
qed

section \<open>Runs of the service\<close>

text \<open>A call of the service, as its client makes it.\<close>

datatype interview_req =
  is_ingest: IngestEvent pymap string string int bool bool
| NormalizeStatement string string string
| AddObligation Obligation
| ChangeObligation string string bool "string option" "(string, string list) dict"
| ProposeDecision proposal
| RescindDecision string "(string, string list) dict"
| IngestResult pymap WorkerBinding
| NextAction string bool
| NoteDone string bool
| ApplySnapshot string "(string, string list) dict"
| CompleteWork
| PauseSession string
| ResumeSession

fun interview_call :: "hash_env \<Rightarrow> interview_req \<Rightarrow> InterviewService \<Rightarrow> InterviewService" where
  "interview_call H (IngestEvent p a k rv tr at) s = snd (ingest_user_event H p a k rv tr at s)"
| "interview_call H (NormalizeStatement i x src) s = snd (normalize_statement i x src s)"
| "interview_call H (AddObligation ob) s = snd (add_obligation ob s)"
| "interview_call H (ChangeObligation i ch au re ds) s = snd (apply_obligation_change i ch au re ds s)"
| "interview_call H (ProposeDecision p) s = snd (on_decisions (propose p) s)"
| "interview_call H (RescindDecision i ds) s = snd (on_decisions (rescind i ds) s)"
| "interview_call H (IngestResult p b) s = snd (ingest_worker_result p b s)"
| "interview_call H (NextAction st b) s = snd (next_action st b s)"
| "interview_call H (NoteDone r tr) s = snd (note_done r tr s)"
| "interview_call H (ApplySnapshot v ds) s = snd (apply_snapshot v ds s)"
| "interview_call H CompleteWork s = snd (complete_work s)"
| "interview_call H (PauseSession c) s = snd (pause_session c s)"
| "interview_call H ResumeSession s = snd (resume_session s)"

text \<open>
  A run with the requests served so far; between two of them another process may call the ledger.
\<close>

inductive interview_run :: "hash_env \<Rightarrow> InterviewService \<Rightarrow> interview_req list \<Rightarrow> InterviewService \<Rightarrow> bool"
  for H s where
  start: "interview_run H s [] s"
| served: "interview_run H s rs t \<Longrightarrow> interview_run H s (rs @ [r]) (interview_call H r t)"
| elsewhere: "interview_run H s rs t \<Longrightarrow> ledger_call H (is_repo t) l \<Longrightarrow> interview_run H s rs (t\<lparr>is_repo := l\<rparr>)"

lemma move_session_cases:
  assumes "move_session ev s = (r, t)"
  obtains e where "r = Inl e" "t = s"
  | tr where "r = Inr ()" "candidate (is_machine s) (se_work_state (is_session s)) ev = Inr tr" "t = enter tr s"
  using assms by (auto simp: move_session_def split: sum.splits)

lemma ingest_cases:
  assumes "ingest_user_event H p a k rv tr at s = (r, t)"
  obtains (refused) e where "r = Inl e" "t = s"
  | (replay) n where "r = Inr n" "t = s"
  | (taken) rc l u where "execute_command H (is_scope s) a ''user_event'' k p (is_stream s) rv False ''cli'' None (is_repo s) = (Inr rc, l)"
      "\<not> is_terminal (se_work_state (is_session s))" "se_work_state (is_session s) \<noteq> ''CANCELLING''"
      "u = s\<lparr>is_repo := l\<rparr>"
      "t = u \<or> dict_get p ''type'' = Some (PStr ''cancel'') \<and> t = snd (move_session ''user_cancel'' u)
        \<or> dict_get p ''type'' = Some (PStr ''approve'') \<and> tr \<and> at \<and> t = u\<lparr>is_approved := True\<rparr>"
proof -
  obtain r' l where x: "execute_command H (is_scope s) a ''user_event'' k p (is_stream s) rv False ''cli'' None (is_repo s) = (r', l)"
    by (cases "execute_command H (is_scope s) a ''user_event'' k p (is_stream s) rv False ''cli'' None (is_repo s)")
  show thesis
  proof (cases "is_terminal (se_work_state (is_session s)) \<or> se_work_state (is_session s) = ''CANCELLING''")
    case True
    then obtain e where "ingest_user_event H p a k rv tr at s = (Inl e, s)"
      unfolding ingest_user_event_def raise_def by (cases "is_terminal (se_work_state (is_session s))") simp_all
    with assms have "r = Inl e" "t = s" by simp_all
    then show thesis by (rule refused)
  next
    case live: False
    show thesis
    proof (cases r')
      case (Inl e)
      with x have "l = is_repo s" by (auto elim: execute_command_cases)
      with Inl x live assms refused show thesis
        by (auto simp: ingest_user_event_def obind_def on_repo_def Let_def)
    next
      case (Inr rc)
      show thesis
      proof (cases "rc_idempotent_replay rc")
        case True
        from x have "l = is_repo s"
        proof (cases rule: execute_command_cases)
          case (fresh rd rc')
          with fresh_command_effect(6) [OF fresh(2,5)] Inr True show ?thesis by simp
        qed
        with Inr x live assms True replay show thesis
          by (auto simp: ingest_user_event_def obind_def on_repo_def Let_def)
      next
        case False
        with Inr x live assms show thesis
          by (intro taken [of rc l "s\<lparr>is_repo := l\<rparr>"])
            (auto simp: ingest_user_event_def obind_def on_repo_def Let_def split: if_splits prod.splits sum.splits)
      qed
    qed
  qed
qed

lemma enter_sel [simp]:
  "is_repo (enter tr s) = is_repo s" "is_scope (enter tr s) = is_scope s" "is_machine (enter tr s) = is_machine s"
  "is_obligations (enter tr s) = is_obligations s" "is_decisions (enter tr s) = is_decisions s"
  "is_approved (enter tr s) = is_approved s" "se_work_state (is_session (enter tr s)) = tr_to_state tr"
  "se_checkpoint (is_session (enter tr s)) = se_checkpoint (is_session s)"
  "se_candidate_state (is_session (enter tr s)) = se_candidate_state (is_session s)"
  by (simp_all add: enter_def)

lemma set_checkpoint_sel [simp]:
  "is_repo (set_checkpoint c s) = is_repo s" "is_scope (set_checkpoint c s) = is_scope s"
  "is_machine (set_checkpoint c s) = is_machine s" "is_obligations (set_checkpoint c s) = is_obligations s"
  "is_decisions (set_checkpoint c s) = is_decisions s" "is_approved (set_checkpoint c s) = is_approved s"
  "is_session (set_checkpoint c s) = (is_session s)\<lparr>se_checkpoint := c\<rparr>"
  by (simp_all add: set_checkpoint_def)

lemma move_session_keeps:
  "is_repo (snd (move_session ev s)) = is_repo s" "is_scope (snd (move_session ev s)) = is_scope s"
  "is_machine (snd (move_session ev s)) = is_machine s" "is_obligations (snd (move_session ev s)) = is_obligations s"
  "is_decisions (snd (move_session ev s)) = is_decisions s" "is_approved (snd (move_session ev s)) = is_approved s"
  by (simp_all add: move_session_def split: sum.split)

lemma pause_session_eq: "snd (pause_session c s) =
    (case candidate (is_machine s) (se_work_state (is_session s)) ''pause_required'' of
       Inl e \<Rightarrow> s | Inr t \<Rightarrow> set_checkpoint (Some c) (enter t s))"
  by (simp add: pause_session_def obind_def move_session_def split: sum.split)

lemma ingest_keeps:
  "is_scope (snd (ingest_user_event H p a k rv tr at s)) = is_scope s"
  "is_machine (snd (ingest_user_event H p a k rv tr at s)) = is_machine s"
  "is_obligations (snd (ingest_user_event H p a k rv tr at s)) = is_obligations s"
  "is_decisions (snd (ingest_user_event H p a k rv tr at s)) = is_decisions s"
proof -
  obtain r t where x: "ingest_user_event H p a k rv tr at s = (r, t)" by (cases "ingest_user_event H p a k rv tr at s")
  then have "is_scope t = is_scope s \<and> is_machine t = is_machine s \<and> is_obligations t = is_obligations s \<and>
      is_decisions t = is_decisions s"
    by (cases rule: ingest_cases) (auto simp: move_session_keeps)
  with x show "is_scope (snd (ingest_user_event H p a k rv tr at s)) = is_scope s"
    "is_machine (snd (ingest_user_event H p a k rv tr at s)) = is_machine s"
    "is_obligations (snd (ingest_user_event H p a k rv tr at s)) = is_obligations s"
    "is_decisions (snd (ingest_user_event H p a k rv tr at s)) = is_decisions s" by simp_all
qed

lemmas handler_defs = normalize_statement_def add_obligation_def apply_obligation_change_def ingest_worker_result_def
  next_action_def note_done_def apply_snapshot_def on_decisions_def complete_work_def pause_session_eq
  resume_session_def Let_def

lemma call_keeps: "is_scope (interview_call H r s) = is_scope s" "is_machine (interview_call H r s) = is_machine s"
  by (cases r; simp add: handler_defs ingest_keeps move_session_keeps split: option.split sum.split prod.split)+

lemma call_repo: "\<not> is_ingest r \<Longrightarrow>
    is_repo (interview_call H r s) = is_repo s \<and> is_approved (interview_call H r s) = is_approved s"
  by (cases r; simp add: handler_defs move_session_keeps split: option.split sum.split prod.split)

lemma call_obligations: "is_obligations (interview_call H r s) =
    (case r of AddObligation ob \<Rightarrow> dict_set (ob_obligation_id ob) ob (is_obligations s)
       | ChangeObligation i ch au re ds \<Rightarrow> is_obligations (snd (apply_obligation_change i ch au re ds s))
       | _ \<Rightarrow> is_obligations s)"
  by (cases r; simp add: handler_defs ingest_keeps move_session_keeps split: option.split sum.split prod.split)

lemma call_decisions: "is_decisions (interview_call H r s) =
    (case r of ProposeDecision p \<Rightarrow> snd (propose p (is_decisions s)) | RescindDecision i ds \<Rightarrow> snd (rescind i ds (is_decisions s))
       | _ \<Rightarrow> is_decisions s)"
  by (cases r; simp add: handler_defs ingest_keeps move_session_keeps split: option.split sum.split prod.split)

lemma run_keeps: "interview_run H s rs t \<Longrightarrow> is_scope t = is_scope s \<and> is_machine t = is_machine s"
  by (induction rule: interview_run.induct) (simp_all add: call_keeps)

section \<open>Approval comes from an attested event\<close>

text \<open>An attested approval event and the command it left in the ledger.\<close>

definition approval_on_record :: "hash_env \<Rightarrow> string \<Rightarrow> interview_req list \<Rightarrow> Ledger \<Rightarrow> bool" where
  "approval_on_record H sc rs l \<longleftrightarrow> (\<exists>p a k rv rd resp. IngestEvent p a k rv True True \<in> set rs \<and>
     dict_get p ''type'' = Some (PStr ''approve'') \<and> dict_get p ''approved'' \<noteq> Some (PBool True) \<and>
     request_digest_of H a ''user_event'' p rv = Inr rd \<and>
     dict_get (lg_requests l) (sc, a, ''user_event'', k) = Some (rd, resp))"

lemma approval_on_record_mono:
  "approval_on_record H sc rs l \<Longrightarrow> set rs \<subseteq> set rs' \<Longrightarrow> ledger_extends l l' \<Longrightarrow> approval_on_record H sc rs' l'"
  unfolding approval_on_record_def ledger_extends_def by blast

lemma call_approval:
  assumes "is_approved s \<longrightarrow> approval_on_record H (is_scope s) rs (is_repo s)"
  shows "is_approved (interview_call H r s) \<longrightarrow>
    approval_on_record H (is_scope s) (rs @ [r]) (is_repo (interview_call H r s))"
proof (cases "is_ingest r")
  case False
  from call_repo [OF this, of H s] assms show ?thesis
    by (auto simp: ledger_extends_def elim!: approval_on_record_mono)
next
  case True
  then obtain p a k rv tr at where r: "r = IngestEvent p a k rv tr at" by (cases r) simp_all
  obtain x t where x: "ingest_user_event H p a k rv tr at s = (x, t)" by (cases "ingest_user_event H p a k rv tr at s")
  from x have "is_approved t \<longrightarrow> approval_on_record H (is_scope s) (rs @ [r]) (is_repo t)"
  proof (cases rule: ingest_cases)
    case (taken rc l u)
    have ext: "ledger_extends (is_repo s) l" by (rule call_extends [OF ledger_call.command [OF taken(1)]])
    have new: "approval_on_record H (is_scope s) (rs @ [r]) l"
      if "dict_get p ''type'' = Some (PStr ''approve'')" tr at
      using execute_recorded [OF taken(1)] that r unfolding approval_on_record_def by (metis in_set_conv_decomp)
    from taken(5) show ?thesis
    proof (elim disjE)
      assume "t = u"
      with taken(4) ext assms show ?thesis by (auto elim!: approval_on_record_mono)
    next
      assume "dict_get p ''type'' = Some (PStr ''cancel'') \<and> t = snd (move_session ''user_cancel'' u)"
      with taken(4) ext assms show ?thesis by (auto simp: move_session_keeps elim!: approval_on_record_mono)
    next
      assume "dict_get p ''type'' = Some (PStr ''approve'') \<and> tr \<and> at \<and> t = u\<lparr>is_approved := True\<rparr>"
      with taken(4) new show ?thesis by simp
    qed
  qed (use assms in \<open>auto simp: ledger_extends_def elim!: approval_on_record_mono\<close>)
  with r x show ?thesis by simp
qed

lemma run_approval: "interview_run H s rs t \<Longrightarrow> \<not> is_approved s \<Longrightarrow>
    is_approved t \<longrightarrow> approval_on_record H (is_scope s) rs (is_repo t)"
proof (induction rule: interview_run.induct)
  case (served rs t r)
  with run_keeps [OF served.hyps] call_approval [of t H rs r] show ?case by simp
next
  case (elsewhere rs t l)
  from call_extends [OF elsewhere.hyps(2)] elsewhere show ?case by (auto elim!: approval_on_record_mono)
qed simp

text \<open>
  Claim C14. Approval of an interview is never data: whatever run of the service, of other processes on the
  ledger and of replayed keys, it stands approved only if an approval event arrived on a trusted, attested
  channel, and then the ledger holds the digest of exactly that event under its key.
\<close>

theorem approval_attested:
  assumes "interview_run H (new_interview repo sc st m) rs t" "is_approved t"
  shows "\<exists>p a k rv rd resp. IngestEvent p a k rv True True \<in> set rs \<and>
     dict_get p ''type'' = Some (PStr ''approve'') \<and> dict_get p ''approved'' \<noteq> Some (PBool True) \<and>
     request_digest_of H a ''user_event'' p rv = Inr rd \<and>
     dict_get (lg_requests (is_repo t)) (sc, a, ''user_event'', k) = Some (rd, resp)"
  using run_approval [OF assms(1)] assms(2) by (simp add: new_interview_def approval_on_record_def)

section \<open>Decisions need an authority\<close>

text \<open>A record of the log, as made by a proposal the log accepts or by rescinding such a record.\<close>

definition decided_by :: "string list \<Rightarrow> proposal set \<Rightarrow> InterviewDecision \<Rightarrow> bool" where
  "decided_by delegated ps d \<longleftrightarrow> (\<exists>p \<in> ps. d \<in> {proposed_decision delegated p, (proposed_decision delegated p)\<lparr>de_status := ''revoked''\<rparr>} \<and>
     (pp_proposer p = ''model'' \<and> \<not> pp_user_authorized p \<longrightarrow> pp_impact p \<noteq> ''high'' \<and> pp_domain p \<in> set delegated))"

definition log_sound :: "string list \<Rightarrow> proposal set \<Rightarrow> DecisionLog \<Rightarrow> bool" where
  "log_sound delegated ps s \<longleftrightarrow> dl_delegated s = delegated \<and> (\<forall>d \<in> set (dl_history s). decided_by delegated ps d) \<and>
     (\<forall>k d. dict_get (dl_decisions s) k = Some d \<longleftrightarrow> history s k \<noteq> [] \<and> last (history s k) = d)"

lemma decided_by_mono: "decided_by dg ps d \<Longrightarrow> ps \<subseteq> ps' \<Longrightarrow> decided_by dg ps' d"
  unfolding decided_by_def by blast

lemma log_sound_append:
  assumes "log_sound dg ps s" "ps \<subseteq> ps'" "decided_by dg ps' d" "de_decision_id d = k"
  shows "log_sound dg ps' (s\<lparr>dl_decisions := dict_set k d (dl_decisions s), dl_history := dl_history s @ [d]\<rparr>)"
  using assms unfolding log_sound_def history_def by (auto intro: decided_by_mono)

lemma proposed_decision_id [simp]: "de_decision_id (proposed_decision dg p) = pp_decision_id p"
  by (simp add: proposed_decision_def Let_def)

lemma proposed_decision_sel [simp]:
  "de_text (proposed_decision dg p) = pp_text p" "de_domain (proposed_decision dg p) = pp_domain p"
  "de_impact (proposed_decision dg p) = pp_impact p"
  by (simp_all add: proposed_decision_def Let_def)

lemma decided_iff: "de_status (proposed_decision dg p) = ''decided'' \<longleftrightarrow>
    pp_proposer p = ''user'' \<or> pp_user_authorized p \<or> pp_domain p \<in> set dg \<and> pp_impact p = ''low''"
  by (simp add: proposed_decision_def decision_status_def Let_def)

lemma user_authority_iff: "de_authority (proposed_decision dg p) = ''user'' \<longleftrightarrow>
    pp_proposer p = ''user'' \<or> pp_user_authorized p"
  by (simp add: proposed_decision_def Let_def)

lemma get_decision_Ok: "get_decision s k = Inr d \<longleftrightarrow> dict_get (dl_decisions s) k = Some d"
  by (simp add: get_decision_def split: option.split)

lemma propose_sound:
  assumes "log_sound dg ps s"
  shows "log_sound dg (insert p ps) (snd (propose p s))"
proof -
  have keep: "log_sound dg (insert p ps) s"
    using assms unfolding log_sound_def by (auto intro: decided_by_mono)
  have dg: "dl_delegated s = dg" using assms by (simp add: log_sound_def)
  have "log_sound dg (insert p ps) (s\<lparr>dl_decisions := dict_set (pp_decision_id p) (proposed_decision dg p) (dl_decisions s),
      dl_history := dl_history s @ [proposed_decision dg p]\<rparr>)"
    if "pp_proposer p = ''model'' \<and> \<not> pp_user_authorized p \<longrightarrow> pp_impact p \<noteq> ''high'' \<and> pp_domain p \<in> set dg"
    using that by (intro log_sound_append [OF assms]) (auto simp: decided_by_def)
  with keep dg show ?thesis unfolding propose_def Let_def by (auto split: option.split if_splits)
qed

lemma rescind_sound:
  assumes "log_sound dg ps s"
  shows "log_sound dg ps (snd (rescind k ds s))"
proof (cases "dict_get (dl_decisions s) k")
  case (Some d)
  then have "history s k \<noteq> []" "last (history s k) = d" using assms by (simp_all add: log_sound_def)
  then have "d \<in> set (history s k)" by auto
  then have d: "d \<in> set (dl_history s)" "de_decision_id d = k" by (auto simp: history_def)
  with assms have "decided_by dg ps d" by (simp add: log_sound_def)
  then have "decided_by dg ps (d\<lparr>de_status := ''revoked''\<rparr>)" unfolding decided_by_def by fastforce
  with d have "log_sound dg ps (s\<lparr>dl_decisions := dict_set k (d\<lparr>de_status := ''revoked''\<rparr>) (dl_decisions s),
      dl_history := dl_history s @ [d\<lparr>de_status := ''revoked''\<rparr>]\<rparr>)"
    by (intro log_sound_append [OF assms]) simp_all
  with Some assms show ?thesis by (simp add: rescind_def get_decision_def Let_def)
qed (use assms in \<open>simp add: rescind_def get_decision_def\<close>)

definition proposals :: "interview_req list \<Rightarrow> proposal set" where
  "proposals rs = {p. ProposeDecision p \<in> set rs}"

lemma proposals_snoc: "proposals (rs @ [r]) = (case r of ProposeDecision p \<Rightarrow> insert p (proposals rs) | _ \<Rightarrow> proposals rs)"
  by (cases r) (auto simp: proposals_def)

lemma run_log_sound: "interview_run H s rs t \<Longrightarrow> log_sound dg {} (is_decisions s) \<Longrightarrow>
    log_sound dg (proposals rs) (is_decisions t)"
proof (induction rule: interview_run.induct)
  case (served rs t r)
  then show ?case
    unfolding call_decisions proposals_snoc by (cases r) (simp_all add: propose_sound rescind_sound)
qed (simp_all add: proposals_def)

text \<open>
  Claim C15. In every run of an interview a decision stands decided only if its text was proposed by the user, with
  the user's authorization, or as a low-impact choice of a delegated domain; what carries the user's authority was
  the user's; nothing high-impact or outside the delegation ever enters the log from the model alone; and
  the current record of a decision is the last of its history.
\<close>

theorem decided_needs_authority:
  assumes "interview_run H (new_interview repo sc st m) rs t"
  shows "(\<forall>d \<in> set (dl_history (is_decisions t)). \<exists>p. ProposeDecision p \<in> set rs \<and>
      pp_decision_id p = de_decision_id d \<and> pp_text p = de_text d \<and> pp_domain p = de_domain d \<and> pp_impact p = de_impact d \<and>
      (de_status d = ''decided'' \<longrightarrow> pp_proposer p = ''user'' \<or> pp_user_authorized p \<or>
        de_domain d \<in> set DELEGATED_DOMAINS \<and> de_impact d = ''low'') \<and>
      (de_authority d = ''user'' \<longrightarrow> pp_proposer p = ''user'' \<or> pp_user_authorized p) \<and>
      (pp_proposer p = ''model'' \<and> \<not> pp_user_authorized p \<longrightarrow>
        de_impact d \<noteq> ''high'' \<and> de_domain d \<in> set DELEGATED_DOMAINS)) \<and>
    (\<forall>k d. get_decision (is_decisions t) k = Inr d \<longleftrightarrow>
      history (is_decisions t) k \<noteq> [] \<and> last (history (is_decisions t) k) = d)"
proof -
  have "log_sound DELEGATED_DOMAINS {} (is_decisions (new_interview repo sc st m))"
    by (simp add: log_sound_def new_interview_def new_decision_log_def history_def)
  from run_log_sound [OF assms this] have ok: "log_sound DELEGATED_DOMAINS (proposals rs) (is_decisions t)" .
  have field: "pp_text p = de_text d \<and> pp_decision_id p = de_decision_id d \<and> pp_domain p = de_domain d \<and>
      pp_impact p = de_impact d \<and> (de_status d = ''decided'' \<longrightarrow> pp_proposer p = ''user'' \<or> pp_user_authorized p \<or>
        de_domain d \<in> set DELEGATED_DOMAINS \<and> de_impact d = ''low'') \<and>
      (de_authority d = ''user'' \<longrightarrow> pp_proposer p = ''user'' \<or> pp_user_authorized p)"
    if "d \<in> {proposed_decision DELEGATED_DOMAINS p, (proposed_decision DELEGATED_DOMAINS p)\<lparr>de_status := ''revoked''\<rparr>}" for d p
    using that by (auto simp: decided_iff user_authority_iff)
  show ?thesis
  proof (intro conjI ballI allI)
    fix d
    assume "d \<in> set (dl_history (is_decisions t))"
    with ok obtain p where p: "p \<in> proposals rs"
      "d \<in> {proposed_decision DELEGATED_DOMAINS p, (proposed_decision DELEGATED_DOMAINS p)\<lparr>de_status := ''revoked''\<rparr>}"
      "pp_proposer p = ''model'' \<and> \<not> pp_user_authorized p \<longrightarrow> pp_impact p \<noteq> ''high'' \<and> pp_domain p \<in> set DELEGATED_DOMAINS"
      unfolding log_sound_def decided_by_def by blast
    from field [OF p(2)] p(1,3) show "\<exists>p. ProposeDecision p \<in> set rs \<and>
      pp_decision_id p = de_decision_id d \<and> pp_text p = de_text d \<and> pp_domain p = de_domain d \<and> pp_impact p = de_impact d \<and>
      (de_status d = ''decided'' \<longrightarrow> pp_proposer p = ''user'' \<or> pp_user_authorized p \<or>
        de_domain d \<in> set DELEGATED_DOMAINS \<and> de_impact d = ''low'') \<and>
      (de_authority d = ''user'' \<longrightarrow> pp_proposer p = ''user'' \<or> pp_user_authorized p) \<and>
      (pp_proposer p = ''model'' \<and> \<not> pp_user_authorized p \<longrightarrow>
        de_impact d \<noteq> ''high'' \<and> de_domain d \<in> set DELEGATED_DOMAINS)"
      unfolding proposals_def by (intro exI [of _ p]) simp
  next
    fix k d
    show "get_decision (is_decisions t) k = Inr d \<longleftrightarrow>
      history (is_decisions t) k \<noteq> [] \<and> last (history (is_decisions t) k) = d"
      using ok unfolding log_sound_def get_decision_Ok by blast
  qed
qed

section \<open>Open obligations keep the interview from review\<close>

text \<open>The requests that may lift an obligation: registering it anew, resolving it, or removing it with authority.\<close>

fun lifts :: "string \<Rightarrow> interview_req \<Rightarrow> bool" where
  "lifts k (AddObligation ob) = (ob_obligation_id ob = k)"
| "lifts k (ChangeObligation i ch au re ds) =
     (i = k \<and> (ch = ''resolve'' \<or> ch \<in> {''not_applicable'', ''remove''} \<and> au \<and> re \<notin> {None, Some []}))"
| "lifts k r = False"

definition open_critical :: "string \<Rightarrow> InterviewService \<Rightarrow> bool" where
  "open_critical k s \<longleftrightarrow> (\<exists>ob. dict_get (is_obligations s) k = Some ob \<and> ob_obligation_id ob = k \<and> ob_critical ob \<and> \<not> ob_resolved ob)"

lemma change_open_critical:
  assumes "open_critical k s" "\<not> lifts k (ChangeObligation i ch au re ds)"
  shows "open_critical k (snd (apply_obligation_change i ch au re ds s))"
proof (cases "i = k")
  case True
  from assms(1) obtain ob where "dict_get (is_obligations s) k = Some ob" "ob_obligation_id ob = k" "ob_critical ob" "\<not> ob_resolved ob"
    unfolding open_critical_def by blast
  with assms True show ?thesis by (auto simp: open_critical_def apply_obligation_change_def Let_def)
next
  case False
  have "dict_get (is_obligations (snd (apply_obligation_change i ch au re ds s))) k = dict_get (is_obligations s) k"
    using False by (simp add: apply_obligation_change_def Let_def split: option.split)
  with assms(1) show ?thesis by (simp add: open_critical_def)
qed

lemma call_open_critical: "open_critical k s \<Longrightarrow> \<not> lifts k r \<Longrightarrow> open_critical k (interview_call H r s)"
proof (cases r)
  case (ChangeObligation i ch au re ds)
  assume "open_critical k s" "\<not> lifts k r"
  with change_open_critical ChangeObligation show ?thesis by simp
qed (simp_all add: open_critical_def call_obligations del: interview_call.simps)

lemma run_open_critical: "interview_run H s rs t \<Longrightarrow> open_critical k s \<Longrightarrow> \<forall>r \<in> set rs. \<not> lifts k r \<Longrightarrow> open_critical k t"
proof (induction rule: interview_run.induct)
  case (elsewhere rs t l)
  then show ?case by (simp add: open_critical_def)
qed (simp_all add: call_open_critical)

lemma open_critical_blocks:
  "open_critical k s \<Longrightarrow> ''obligation:'' @ k \<in> set (rd_blockers (assess_readiness s stage current a e c))"
  by (force simp: open_critical_def assess_readiness_def assess_def obligation_blocks_def Let_def dest: map_of_SomeD)


section \<open>A cancelled interview stays cancelled\<close>

lemma cancelling_lookups:
  "\<exists>e. candidate session_machine ''CANCELLING'' ''pause_required'' = Inl e"
  "\<exists>e. candidate session_machine ''CANCELLING'' ''required_checks_passed'' = Inl e"
proof -
  have none: "list_all (\<lambda>t. tr_from_state t = ''CANCELLING'' \<longrightarrow>
      tr_event t \<notin> {''pause_required'', ''required_checks_passed''}) session_rows"
    unfolding session_machine_rows by code_simp
  have "candidate session_machine ''CANCELLING'' ev \<noteq> Inr t" if "ev \<in> {''pause_required'', ''required_checks_passed''}" for ev t
    using candidate_row [OF session_machine_wf, of "''CANCELLING''" ev t] none that
    by (auto simp: session_rows_def list_all_iff)
  then show "\<exists>e. candidate session_machine ''CANCELLING'' ''pause_required'' = Inl e"
    "\<exists>e. candidate session_machine ''CANCELLING'' ''required_checks_passed'' = Inl e"
    by (metis insert_iff sum.exhaust)+
qed

definition cancelled_for_good :: "InterviewService \<Rightarrow> bool" where
  "cancelled_for_good s \<longleftrightarrow> is_machine s = session_machine \<and> se_work_state (is_session s) = ''CANCELLING'' \<and>
     se_checkpoint (is_session s) = None"

lemma cancelled_refuses:
  assumes "cancelled_for_good s"
  shows "ingest_user_event H p a k rv tr at s =
      (if is_terminal ''CANCELLING'' then raise ''INVALID_TRANSITION'' ''terminal session''
       else raise ''INVALID_TRANSITION'' ''cancelled session'', s)"
    "ingest_worker_result p b s = (raise ''INVALID_TRANSITION'' ''cancelled session'', s)"
  using assms by (simp_all add: cancelled_for_good_def ingest_user_event_def ingest_worker_result_def)

lemma call_cancelled: "cancelled_for_good s \<Longrightarrow> is_session (interview_call H r s) = is_session s \<and>
    is_repo (interview_call H r s) = is_repo s \<and> is_approved (interview_call H r s) = is_approved s"
proof -
  assume c: "cancelled_for_good s"
  then have m: "is_machine s = session_machine" "se_work_state (is_session s) = ''CANCELLING''"
    "se_checkpoint (is_session s) = None" by (simp_all add: cancelled_for_good_def)
  from cancelling_lookups obtain e e' where "candidate session_machine ''CANCELLING'' ''pause_required'' = Inl e"
    "candidate session_machine ''CANCELLING'' ''required_checks_passed'' = Inl e'" by blast
  with c m show ?thesis
    by (cases r) (simp_all add: cancelled_refuses handler_defs move_session_def split: option.split sum.split prod.split)
qed

lemma run_cancelled: "interview_run H s rs t \<Longrightarrow> cancelled_for_good s \<Longrightarrow>
    cancelled_for_good t \<and> is_session t = is_session s \<and> is_approved t = is_approved s"
proof (induction rule: interview_run.induct)
  case (served rs t r)
  with call_cancelled [of t H r] show ?case by (simp add: cancelled_for_good_def call_keeps del: interview_call.simps)
qed (simp_all add: cancelled_for_good_def)

text \<open>
  A cancelled interview stays cancelled: once a session without a stored checkpoint is cancelling, every
  later run leaves it there and its approval as it was, and every user event and every worker result is refused
  before it reaches the ledger.
\<close>

theorem cancelled_stays_cancelled:
  assumes "interview_run H s rs t" "is_machine s = session_machine"
    and "se_work_state (is_session s) = ''CANCELLING''" "se_checkpoint (is_session s) = None"
  shows "is_session t = is_session s \<and> is_approved t = is_approved s \<and>
    ingest_user_event H p a k rv tr at t = (raise ''INVALID_TRANSITION'' ''cancelled session'', t) \<and>
    ingest_worker_result q b t = (raise ''INVALID_TRANSITION'' ''cancelled session'', t)"
proof -
  from assms have "cancelled_for_good s" by (simp add: cancelled_for_good_def)
  from run_cancelled [OF assms(1) this] have t: "cancelled_for_good t" "is_session t = is_session s" "is_approved t = is_approved s"
    by auto
  have "\<not> is_terminal ''CANCELLING''" by code_simp
  with t cancelled_refuses [OF t(1)] show ?thesis by simp
qed

section \<open>Runs on a concrete interview\<close>

definition sample_interview :: InterviewService where
  "sample_interview = new_interview sample_open sample_scope ''s1'' session_machine"

lemma invalidation_exact_witness:
  "\<exists>xs t. apply_snapshot ''b'' [(''review'', [''spec'']), (''spec'', [''snapshot''])] (sample_interview\<lparr>is_snapshot_digest := ''a''\<rparr>) =
     (Inr xs, t) \<and> ''review'' \<in> set xs"
proof -
  let ?d = "[(''review'', [''spec'']), (''spec'', [''snapshot''])]"
  have "(''review'', ''spec'') \<in> dep_rel ?d" "(''spec'', ''snapshot'') \<in> dep_rel ?d" by (auto simp: dep_rel_def)
  then have "(''review'', ''snapshot'') \<in> (dep_rel ?d)\<^sup>*" by (meson converse_rtrancl_into_rtrancl r_into_rtrancl)
  moreover have "\<exists>xs t. apply_snapshot ''b'' ?d (sample_interview\<lparr>is_snapshot_digest := ''a''\<rparr>) = (Inr xs, t) \<and> is_reviews t = [] \<and>
      set xs = set (is_invalidated (sample_interview\<lparr>is_snapshot_digest := ''a''\<rparr>)) \<union> {n. (n, ''snapshot'') \<in> (dep_rel ?d)\<^sup>*}"
    using invalidation_exact [where v = "sample_interview\<lparr>is_snapshot_digest := ''a''\<rparr>" and v' = "''b''" and deps = ?d] by simp
  ultimately show ?thesis by blast
qed

definition approve_event :: interview_req where
  "approve_event = IngestEvent [(''type'', PStr ''approve'')] ''u'' ''k'' 0 True True"

definition sample_duty :: Obligation where
  "sample_duty = \<lparr>ob_obligation_id = ''o'', ob_critical = True, ob_resolved = False, ob_deferred_to = Some ''spec'',
     ob_authorized_deferral = True\<rparr>"

lemma runs_fold: "interview_run H s rs (fold (interview_call H) rs s)"
  by (induction rs rule: rev_induct) (auto intro: interview_run.intros)

lemma sample_approved: "is_approved (fold (interview_call plain_hash) [approve_event] sample_interview)"
  by code_simp

lemma approval_attested_witness:
  "\<exists>k rd. dict_get (lg_requests (is_repo (fold (interview_call plain_hash) [approve_event] sample_interview)))
     (sample_scope, ''u'', ''user_event'', k) = Some rd"
proof -
  from approval_attested [OF runs_fold [of plain_hash _ "[approve_event]"] sample_approved [unfolded sample_interview_def]]
  show ?thesis unfolding sample_interview_def by (simp only: approve_event_def) auto
qed

definition model_choice :: "string \<Rightarrow> string \<Rightarrow> proposal" where
  "model_choice txt impact = \<lparr>pp_decision_id = ''d'', pp_text = txt, pp_proposer = ''model'', pp_domain = ''internal_choice'',
     pp_impact = impact, pp_revision = 1, pp_user_authorized = False\<rparr>"

definition user_choice :: proposal where
  "user_choice = (model_choice ''keep'' ''medium'')\<lparr>pp_proposer := ''user''\<rparr>"

lemma decided_needs_authority_witness:
  "get_decision (is_decisions (fold (interview_call plain_hash) [ProposeDecision user_choice] sample_interview)) ''d'' =
     Inr (proposed_decision DELEGATED_DOMAINS user_choice) \<longleftrightarrow>
   last (history (is_decisions (fold (interview_call plain_hash) [ProposeDecision user_choice] sample_interview)) ''d'') =
     proposed_decision DELEGATED_DOMAINS user_choice"
proof -
  have "history (is_decisions (fold (interview_call plain_hash) [ProposeDecision user_choice] sample_interview)) ''d'' \<noteq> []"
    by (simp add: on_decisions_def propose_def user_choice_def model_choice_def sample_interview_def new_interview_def
        new_decision_log_def history_def Let_def)
  with decided_needs_authority [OF runs_fold [of plain_hash _ "[ProposeDecision user_choice]"],
      of sample_open sample_scope "''s1''" session_machine] show ?thesis
    unfolding sample_interview_def by metis
qed


definition cancelled_interview :: "string option \<Rightarrow> InterviewService" where
  "cancelled_interview checkpoint = sample_interview\<lparr>is_session :=
     \<lparr>se_work_state = ''CANCELLING'', se_candidate_state = ''proposed'', se_checkpoint = checkpoint\<rparr>\<rparr>"

lemma cancelled_stays_cancelled_witness:
  "ingest_user_event plain_hash [] ''u'' ''k'' 0 True True (fold (interview_call plain_hash)
      [PauseSession ''INTAKE''] (cancelled_interview None)) =
     (raise ''INVALID_TRANSITION'' ''cancelled session'',
      fold (interview_call plain_hash) [PauseSession ''INTAKE''] (cancelled_interview None))"
  using cancelled_stays_cancelled [OF runs_fold [of plain_hash "cancelled_interview None" "[PauseSession ''INTAKE'']"]]
  by (simp add: cancelled_interview_def sample_interview_def new_interview_def)

text \<open>
  The checkpoint must not be stored: cancelling a paused session keeps it, and \<open>resume\<close> asks for nothing
  else, so it revives the cancelled session, in whatever state the pause named.
\<close>

lemma global_lookup:
  assumes "s \<in> set (sm_states session_machine)"
    and "list_all (\<lambda>u. row_key u \<noteq> (s, e)) (rows_of (doc_transitions SESSION_CONTRACT))"
    and "[u \<leftarrow> rows_of (doc_global_transitions SESSION_CONTRACT). row_key u = (s, e)] = [t]"
  shows "candidate session_machine s e = Inr t"
  using assms arg_cong [OF session_machine_eq, of sm_global]
  by (simp add: candidate_Ok_iff [OF session_machine_wf] session_transitions list_all_iff)

lemma session_lookups:
  "candidate session_machine ''INTAKE'' ''pause_required'' =
     Inr \<lparr>tr_from_state = ''INTAKE'', tr_event = ''pause_required'', tr_to_state = ''PAUSED'',
       tr_guard_id = ''persist_resume_checkpoint_and_operation_status''\<rparr>"
  "candidate session_machine ''PAUSED'' ''user_cancel'' =
     Inr \<lparr>tr_from_state = ''PAUSED'', tr_event = ''user_cancel'', tr_to_state = ''CANCELLING'',
       tr_guard_id = ''trusted_cancel_stop_new_dispatch_immediately''\<rparr>"
  "resume_target session_machine ''APPROVED_PLAN'' = Inr ''APPROVED_PLAN''"
proof -
  have states: "list_all (\<lambda>s. s \<in> set (sm_states session_machine)) [''INTAKE'', ''PAUSED'', ''APPROVED_PLAN'']"
    unfolding session_machine_rows by code_simp
  show "candidate session_machine ''INTAKE'' ''pause_required'' =
     Inr \<lparr>tr_from_state = ''INTAKE'', tr_event = ''pause_required'', tr_to_state = ''PAUSED'',
       tr_guard_id = ''persist_resume_checkpoint_and_operation_status''\<rparr>"
    by (rule global_lookup) (use states in simp, code_simp+)
  show "candidate session_machine ''PAUSED'' ''user_cancel'' =
     Inr \<lparr>tr_from_state = ''PAUSED'', tr_event = ''user_cancel'', tr_to_state = ''CANCELLING'',
       tr_guard_id = ''trusted_cancel_stop_new_dispatch_immediately''\<rparr>"
    by (rule global_lookup) (use states in simp, code_simp+)
  show "resume_target session_machine ''APPROVED_PLAN'' = Inr ''APPROVED_PLAN''"
    using states by (simp add: resume_target_def TERMINAL_STATES_def)
qed

lemma cancelled_session_resumes:
  "snd (move_session ''user_cancel'' (snd (pause_session ''APPROVED_PLAN'' sample_interview))) =
     cancelled_interview (Some ''APPROVED_PLAN'')"
  "fst (resume_session (cancelled_interview (Some ''APPROVED_PLAN''))) = Inr ''APPROVED_PLAN''"
  "se_work_state (is_session (snd (resume_session (cancelled_interview (Some ''APPROVED_PLAN''))))) = ''APPROVED_PLAN''"
proof -
  have m: "is_machine sample_interview = session_machine" "se_work_state (is_session sample_interview) = ''INTAKE''"
    "is_session sample_interview = \<lparr>se_work_state = ''INTAKE'', se_candidate_state = ''proposed'', se_checkpoint = None\<rparr>"
    by (simp_all add: sample_interview_def new_interview_def)
  show "snd (move_session ''user_cancel'' (snd (pause_session ''APPROVED_PLAN'' sample_interview))) =
     cancelled_interview (Some ''APPROVED_PLAN'')"
    by (simp add: pause_session_eq move_session_def m session_lookups cancelled_interview_def enter_def set_checkpoint_def)
  show "fst (resume_session (cancelled_interview (Some ''APPROVED_PLAN''))) = Inr ''APPROVED_PLAN''"
    "se_work_state (is_session (snd (resume_session (cancelled_interview (Some ''APPROVED_PLAN''))))) = ''APPROVED_PLAN''"
    by (simp_all add: resume_session_def cancelled_interview_def m session_lookups)
qed

text \<open>
  A standing decision of the user is demoted by anyone who proposes its text again, and can then be
  replaced without the user.
\<close>

lemma user_decision_replaced:
  "case propose user_choice (new_decision_log DELEGATED_DOMAINS) of (_, s1) \<Rightarrow>
     (case propose (model_choice ''keep'' ''medium'') s1 of (_, s2) \<Rightarrow>
        (case propose (model_choice ''drop'' ''low'') s2 of (r, s3) \<Rightarrow>
           (case r of Inl _ \<Rightarrow> False | Inr d \<Rightarrow> de_text d = ''drop'' \<and> de_status d = ''decided'' \<and> de_authority d = ''delegated'')))"
  by code_simp

text \<open>Registering an obligation again replaces a critical one by one that blocks nothing.\<close>

lemma registration_lifts_obligation:
  "fst (next_action ''spec'' False (snd (add_obligation sample_duty sample_interview))) = Inr ''pause''"
  "fst (next_action ''spec'' False (snd (add_obligation (sample_duty\<lparr>ob_critical := False\<rparr>)
     (snd (add_obligation sample_duty sample_interview))))) = Inr ''review''"
  by (simp_all add: next_action_def assess_readiness_def assess_def obligation_blocks_def add_obligation_def
      sample_duty_def sample_interview_def new_interview_def Let_def)

text \<open>A rescinded decision is decided again by proposing it anew.\<close>

lemma rescinded_decision_returns:
  "case propose user_choice (new_decision_log DELEGATED_DOMAINS) of (_, s1) \<Rightarrow>
     (case rescind ''d'' [] s1 of (_, s2) \<Rightarrow>
        (case propose (model_choice ''drop'' ''low'') s2 of (r, s3) \<Rightarrow>
           (case r of Inl _ \<Rightarrow> False | Inr d \<Rightarrow> de_status d = ''decided'')))"
  by code_simp

end
