(* ===== verification/Cas.thy ===== *)
theory Cas
  imports Prelude
begin

text \<open>
  The compare-and-swap contract several stores of the program share: a request carries the head it was
  made against; it is accepted only while that is the head, and a refused one leaves the store as it
  is. What follows: of requests made against one head at most one is accepted, and the accepted
  requests of any sequence of attempts form a chain.
\<close>

locale cas_store =
  fixes commit :: "'s \<Rightarrow> 'r \<Rightarrow> 'v result \<times> 's"
    and head :: "'s \<Rightarrow> 'h"
    and base :: "'r \<Rightarrow> 'h"
  assumes commit_current: "commit s r = (Inr v, s') \<Longrightarrow> base r = head s"
    and commit_refused: "commit s r = (Inl e, s') \<Longrightarrow> s' = s"
begin

lemma stale_refused: "base r \<noteq> head s \<Longrightarrow> \<exists>e. commit s r = (Inl e, s)"
  using commit_current commit_refused by (cases "commit s r"; cases "fst (commit s r)") fastforce+

lemma race_lost:
  assumes "commit s r = (Inr v, s1)" "base q = base r" "head s1 \<noteq> head s"
  shows "\<exists>e. commit s1 q = (Inl e, s1)"
  using assms commit_current [OF assms(1)] by (intro stale_refused) simp

text \<open>The attempts of many clients in the order they reach the store; refusals change nothing.\<close>

fun attempts :: "'s \<Rightarrow> 'r list \<Rightarrow> ('h \<times> 'h) list \<times> 's" where
  "attempts s [] = ([], s)"
| "attempts s (r # rs) =
     (case commit s r of
        (Inl e, s') \<Rightarrow> attempts s' rs
      | (Inr v, s') \<Rightarrow> (let (hs, t) = attempts s' rs in ((base r, head s') # hs, t)))"

fun chained :: "'h \<Rightarrow> ('h \<times> 'h) list \<Rightarrow> 'h \<Rightarrow> bool" where
  "chained h [] h' \<longleftrightarrow> h = h'"
| "chained h ((b, n) # hs) h' \<longleftrightarrow> b = h \<and> chained n hs h'"

lemma attempts_chained: "attempts s rs = (hs, t) \<Longrightarrow> chained (head s) hs (head t)"
proof (induction rs arbitrary: s hs t)
  case (Cons r rs)
  obtain o' s' where c: "commit s r = (o', s')" by (cases "commit s r")
  show ?case
  proof (cases o')
    case (Inl e)
    with c commit_refused have "s' = s" by blast
    with Cons c Inl show ?thesis by simp
  next
    case (Inr v)
    obtain hs' t' where h: "attempts s' rs = (hs', t')" by (cases "attempts s' rs")
    from commit_current c Inr have "base r = head s" by blast
    with Cons.IH [OF h] Cons.prems c Inr h show ?thesis by auto
  qed
qed simp

end

end
