(* ===== verification/Evaluation.thy ===== *)
theory Evaluation
  imports Complex_Main PyObj Cas
begin

text \<open>
  \<open>evaluation/gates.py\<close>: the verdict on a paired evaluation, split hygiene, the judgement of a candidate, the
  admission of evidence bundles, the promotion lane and the check of the next run; \<open>evaluation/budget.py\<close>:
  experiment permits and the trial budget. A Python \<open>float\<close> is a rational, an infinity or not a number;
  only finite ones are ever compared.
\<close>

section \<open>The verdict on a paired evaluation\<close>

datatype pyfloat = Finite rat | Infinite bool | NotANumber

record PairedEvaluation =
  ev_path :: string
  ev_actual_pairs :: pyobj
  ev_planned_pairs :: pyobj
  ev_safety_failures :: pyobj
  ev_quality_delta_lower :: "pyfloat option"
  ev_cost_delta_upper :: "pyfloat option"
  ev_quality_margin :: pyfloat
  ev_minimum_saving :: pyfloat
  ev_evidence_valid :: bool

text \<open>\<open>type(value) is int and value >= 0\<close>: a \<open>bool\<close> is no count.\<close>

definition count_of :: "pyobj \<Rightarrow> int option" where
  "count_of v = (case v of PInt n \<Rightarrow> if n < 0 then None else Some n | _ \<Rightarrow> None)"

definition finite_value :: "pyfloat \<Rightarrow> rat option" where
  "finite_value v = (case v of Finite r \<Rightarrow> Some r | _ \<Rightarrow> None)"

text \<open>The comparisons of the intervals with the margins, once they are all finite.\<close>

definition weigh_metrics :: "pyfloat \<Rightarrow> pyfloat \<Rightarrow> pyfloat \<Rightarrow> pyfloat \<Rightarrow> string result" where
  "weigh_metrics quality cost margin saving =
     (case (finite_value quality, finite_value cost, finite_value margin, finite_value saving) of
        (Some q, Some c, Some m, Some s) \<Rightarrow>
          if m < 0 \<or> s < 0 then raise ''INVALID_MARGIN'' ''margins cannot be negative''
          else if q < - m then Ok ''inconclusive''
          else if c > - s then Ok ''inconclusive''
          else Ok ''eligible_for_review''
      | _ \<Rightarrow> raise ''INVALID_METRIC'' ''finite numbers are required'')"

definition evaluation_decision :: "PairedEvaluation \<Rightarrow> string result" where
  "evaluation_decision r =
     (if ev_path r \<notin> {''A'', ''B''} then raise ''INVALID_PATH'' (ev_path r)
      else (case (count_of (ev_actual_pairs r), count_of (ev_planned_pairs r), count_of (ev_safety_failures r)) of
          (Some actual, Some planned, Some failures) \<Rightarrow>
            if \<not> ev_evidence_valid r then Ok ''invalid''
            else if failures > 0 then Ok ''rejected''
            else (case (ev_quality_delta_lower r, ev_cost_delta_upper r) of
                (Some quality, Some cost) \<Rightarrow>
                  if planned \<le> 0 \<or> actual \<noteq> planned then Ok ''inconclusive''
                  else weigh_metrics quality cost (ev_quality_margin r) (ev_minimum_saving r)
              | _ \<Rightarrow> Ok ''inconclusive'')
        | _ \<Rightarrow> raise ''INVALID_COUNT'' ''nonnegative integer counts are required''))"

fun validate_splits :: "string list list \<Rightarrow> string list \<Rightarrow> unit result" where
  "validate_splits [] seen = Ok ()"
| "validate_splits (families # rest) seen =
     (if \<not> disjoint_list seen families then raise ''DATA_LEAKAGE'' ''a family crosses split boundaries''
      else validate_splits rest (seen @ families))"

record EffectVerdict =
  ef_verdict :: string
  ef_eligible_for_review :: bool
  ef_reason :: string

definition judge_candidate :: "string \<Rightarrow> int \<Rightarrow> int \<Rightarrow> int \<Rightarrow> EffectVerdict" where
  "judge_candidate verdict safety_failures actual_pairs planned_pairs =
     (let effect = \<lambda>v e r. \<lparr>ef_verdict = v, ef_eligible_for_review = e, ef_reason = r\<rparr> in
      if safety_failures > 0 then effect ''rejected'' False ''HARD_GATE_FAILURE: safety regression''
      else if actual_pairs = 0 then effect ''invalid'' False ''no actual paired evidence''
      else if actual_pairs < planned_pairs then effect ''inconclusive'' False ''incomplete denominator''
      else if verdict = ''improved'' then effect ''improved'' True ''eligible_for_review''
      else if verdict = ''regressed'' then effect ''regressed'' False ''regression''
      else effect ''inconclusive'' False ''uncertain effect'')"

section \<open>Admission of evidence\<close>

record BundleAdmission =
  ba_admitted :: bool
  ba_status :: string
  ba_reason :: string

text \<open>\<open>{str(s) for s in raw} if isinstance(raw, (list, tuple, set, frozenset)) else set()\<close>\<close>

definition str_elements :: "pyobj \<Rightarrow> string list" where
  "str_elements v = (case v of PList xs \<Rightarrow> map py_str xs | PTuple xs \<Rightarrow> map py_str xs | _ \<Rightarrow> [])"

text \<open>\<open>isinstance(v, int)\<close>: a \<open>bool\<close> is an \<open>int\<close>.\<close>

definition int_of_obj :: "pyobj \<Rightarrow> int option" where
  "int_of_obj v = (case v of PInt n \<Rightarrow> Some n | PBool b \<Rightarrow> Some (if b then 1 else 0) | _ \<Rightarrow> None)"

fun hashable :: "pyobj \<Rightarrow> bool" where
  "hashable (PList xs) = False"
| "hashable (PDict kvs) = False"
| "hashable (PTuple xs) = list_all hashable xs"
| "hashable v = True"

definition admit_bundle ::
  "pymap \<Rightarrow> string \<Rightarrow> string list \<Rightarrow> string list \<Rightarrow> string option \<Rightarrow> BundleAdmission result"
where
  "admit_bundle bundle expected_source_digest expected_suite trusted_producers expected_body_digest =
     (let refuse = \<lambda>s r. Ok \<lparr>ba_admitted = False, ba_status = s, ba_reason = r\<rparr>;
          suite = str_elements (get_or bundle ''suite'' (PTuple []));
          producer = py_str (get_or bundle ''producer'' (PStr []));
          kind = get_or bundle ''evidence_kind'' PNone
      in
      if dict_get bundle ''source_digest'' \<noteq> Some (PStr expected_source_digest)
      then refuse ''stale'' ''STALE_EVIDENCE: source digest mismatch''
      else if \<not> subset_list expected_suite suite then refuse ''blocked'' ''SUITE_REDUCED: mandatory cases excluded''
      else if (case int_of_obj (get_or bundle ''tests_collected'' (PInt 0)) of None \<Rightarrow> True | Some n \<Rightarrow> n \<le> 0)
      then refuse ''not_run'' ''blocked: zero collected tests''
      else if producer \<notin> set trusted_producers then refuse ''denied'' (''ACL_DENIED: producer '' @ py_repr producer)
      else if (case expected_body_digest of None \<Rightarrow> False | Some d \<Rightarrow> dict_get bundle ''body_digest'' \<noteq> Some (PStr d))
      then refuse ''invalid'' ''INPUT_INVALID: body digest mismatch''
      else if get_or bundle ''raw_artifacts'' (PTuple []) \<in> {PList [], PTuple []}
      then refuse ''unverifiable'' ''summary without raw output''
      else if \<not> hashable kind then Inl (PyError ''TypeError'')
      else if kind \<in> {PStr ''fixture'', PStr ''self_report''}
      then refuse ''not_evaluated'' ''fixture evidence is not execution''
      else Ok \<lparr>ba_admitted = True, ba_status = ''admitted'', ba_reason = ''evidence in scope''\<rparr>)"

section \<open>The promotion lane\<close>

record EvaluatedRelease =
  er_release_id :: string
  er_parent_id :: string
  er_manifest_id :: string
  er_evidence_refs :: "string list"

record PromotionLane =
  pl_current :: EvaluatedRelease
  pl_history :: "EvaluatedRelease list"

definition new_promotion_lane :: "EvaluatedRelease \<Rightarrow> PromotionLane" where
  "new_promotion_lane current = \<lparr>pl_current = current, pl_history = [current]\<rparr>"

definition promote_candidate :: "EvaluatedRelease \<Rightarrow> (PromotionLane, EvaluatedRelease) op" where
  "promote_candidate cand s =
     (if er_parent_id cand \<noteq> er_release_id (pl_current s)
      then (raise ''REBASE_REQUIRED'' (''parent '' @ er_parent_id cand @ '' is not live''), s)
      else (Ok cand, s\<lparr>pl_history := pl_history s @ [cand], pl_current := cand\<rparr>))"

definition lane_rollback :: "string \<Rightarrow> (PromotionLane, EvaluatedRelease) op" where
  "lane_rollback target_id s =
     (case List.find (\<lambda>r. er_release_id r = target_id) (pl_history s) of
        None \<Rightarrow> (raise ''MISSING_RELEASE'' target_id, s)
      | Some r \<Rightarrow> (Ok r, s\<lparr>pl_current := r\<rparr>))"

record RunCheck =
  rk_run_id :: string
  rk_ok :: bool
  rk_expected_release :: string
  rk_used_release :: string
  rk_rollback_target :: "string option"

definition verify_next_run :: "PromotionLane \<Rightarrow> pymap \<Rightarrow> RunCheck" where
  "verify_next_run lane run =
     (let started_after = py_truthy (get_or run ''started_after_promotion'' (PBool False));
          used = py_str (get_or run ''release_id'' (PStr []));
          pinned = get_or run ''pinned_release_id'' PNone;
          expected = (if started_after then er_release_id (pl_current lane)
            else if pinned \<noteq> PNone then py_str pinned else ''__unpinned__'');
          ok = (used = expected)
      in \<lparr>rk_run_id = py_str (get_or run ''run_id'' (PStr [])), rk_ok = ok, rk_expected_release = expected,
          rk_used_release = used, rk_rollback_target = (if \<not> ok then Some (er_parent_id (pl_current lane)) else None)\<rparr>)"

section \<open>Experiments and their budget\<close>

record ExperimentPermit =
  xp_permit_id :: string
  xp_spec_digest :: string
  xp_budget_units :: int
  xp_allowed_families :: "string list"
  xp_expires_at :: int

definition authorize_experiment :: "hash_env \<Rightarrow> pymap \<Rightarrow> pymap option \<Rightarrow> int \<Rightarrow> ExperimentPermit result" where
  "authorize_experiment H spec permit now =
     (case permit of
        None \<Rightarrow> raise ''PERMISSION_DENIED'' ''an experiment requires a permit''
      | Some pm \<Rightarrow>
          let expires = int_of_obj (get_or pm ''expires_at'' (PInt 0)) in
          if (case expires of None \<Rightarrow> False | Some e \<Rightarrow> e \<le> now) then raise ''PERMISSION_DENIED'' ''permit expired''
          else (case int_of_obj (get_or pm ''budget_units'' (PInt 0)) of
              None \<Rightarrow> raise ''BUDGET_EXHAUSTED'' ''a zero budget runs no paid call''
            | Some budget \<Rightarrow>
                if budget \<le> 0 then raise ''BUDGET_EXHAUSTED'' ''a zero budget runs no paid call''
                else
                  rbind (digest H (obj_dict (map (\<lambda>(k, v). (k, PStr (py_str v))) (sort_key fst spec)))) (\<lambda>spec_digest.
                    let allowed = str_elements (get_or pm ''families'' (PTuple []));
                        outside = sorted_set (minus_list (str_elements (get_or spec ''families'' (PTuple []))) allowed)
                    in
                    if outside \<noteq> [] then raise ''SCOPE_DENIED'' (''family outside permit: '' @ hd outside)
                    else Ok \<lparr>xp_permit_id = py_str (get_or pm ''permit_id'' (PStr spec_digest)), xp_spec_digest = spec_digest,
                      xp_budget_units = budget, xp_allowed_families = allowed,
                      xp_expires_at = (case expires of None \<Rightarrow> 0 | Some e \<Rightarrow> e)\<rparr>)))"

record BudgetAccount =
  bu_total :: int
  bu_spent :: int

definition begin_spend :: "BudgetAccount \<Rightarrow> int \<Rightarrow> BudgetAccount result" where
  "begin_spend account units =
     (if units \<le> 0 then raise ''INPUT_INVALID'' ''spend must be positive''
      else if bu_spent account + units > bu_total account
      then raise ''BUDGET_EXHAUSTED'' (''need '' @ str_int units @ '', have '' @ str_int (bu_total account - bu_spent account))
      else Ok \<lparr>bu_total = bu_total account, bu_spent = bu_spent account + units\<rparr>)"

section \<open>Eligibility for review\<close>

lemma count_of_eq: "count_of v = Some n \<longleftrightarrow> v = PInt n \<and> 0 \<le> n"
  by (auto simp: count_of_def split: pyobj.splits if_splits)

lemma finite_value_eq: "finite_value v = Some r \<longleftrightarrow> v = Finite r"
  by (cases v) (auto simp: finite_value_def)

lemma weigh_metrics_eligible: "weigh_metrics a b c d = Inr ''eligible_for_review'' \<longleftrightarrow>
    (\<exists>q x m s. a = Finite q \<and> b = Finite x \<and> c = Finite m \<and> d = Finite s \<and> 0 \<le> m \<and> 0 \<le> s \<and> - m \<le> q \<and> x \<le> - s)"
  unfolding weigh_metrics_def finite_value_eq [symmetric] by (auto simp: not_less split: option.split)

text \<open>
  A paired evaluation is eligible for review exactly when its path is known, its evidence is valid, every
  planned pair ran, nothing failed on safety, and finite intervals clear nonnegative margins; with well-formed
  counts and valid evidence a safety failure rejects it whatever the metrics are; and a candidate is passed
  on exactly for an improvement without safety failures over a complete, nonempty denominator.
\<close>

theorem eligibility_exact:
  "(evaluation_decision r = Inr ''eligible_for_review'' \<longleftrightarrow>
      ev_path r \<in> {''A'', ''B''} \<and> ev_evidence_valid r \<and> ev_safety_failures r = PInt 0 \<and>
      (\<exists>n > 0. ev_actual_pairs r = PInt n \<and> ev_planned_pairs r = PInt n) \<and>
      (\<exists>q c m s. ev_quality_delta_lower r = Some (Finite q) \<and> ev_cost_delta_upper r = Some (Finite c) \<and>
        ev_quality_margin r = Finite m \<and> ev_minimum_saving r = Finite s \<and> 0 \<le> m \<and> 0 \<le> s \<and> - m \<le> q \<and> c \<le> - s)) \<and>
   (evaluation_decision r = Inr ''rejected'' \<longleftrightarrow> ev_path r \<in> {''A'', ''B''} \<and> ev_evidence_valid r \<and>
      (\<exists>n \<ge> 0. ev_actual_pairs r = PInt n) \<and> (\<exists>n \<ge> 0. ev_planned_pairs r = PInt n) \<and>
      (\<exists>n > 0. ev_safety_failures r = PInt n)) \<and>
   (ef_eligible_for_review (judge_candidate v failures actual planned) \<longleftrightarrow>
      v = ''improved'' \<and> failures \<le> 0 \<and> actual \<noteq> 0 \<and> planned \<le> actual)"
proof (intro conjI)
  have weigh: "weigh_metrics a b c d \<noteq> Inr ''rejected''" for a b c d
    by (simp add: weigh_metrics_def split: option.split)
  show "evaluation_decision r = Inr ''eligible_for_review'' \<longleftrightarrow>
      ev_path r \<in> {''A'', ''B''} \<and> ev_evidence_valid r \<and> ev_safety_failures r = PInt 0 \<and>
      (\<exists>n > 0. ev_actual_pairs r = PInt n \<and> ev_planned_pairs r = PInt n) \<and>
      (\<exists>q c m s. ev_quality_delta_lower r = Some (Finite q) \<and> ev_cost_delta_upper r = Some (Finite c) \<and>
        ev_quality_margin r = Finite m \<and> ev_minimum_saving r = Finite s \<and> 0 \<le> m \<and> 0 \<le> s \<and> - m \<le> q \<and> c \<le> - s)"
    unfolding evaluation_decision_def
    by (auto simp: count_of_eq weigh_metrics_eligible split: option.splits if_splits) (auto simp: count_of_def)
  show "evaluation_decision r = Inr ''rejected'' \<longleftrightarrow> ev_path r \<in> {''A'', ''B''} \<and> ev_evidence_valid r \<and>
      (\<exists>n \<ge> 0. ev_actual_pairs r = PInt n) \<and> (\<exists>n \<ge> 0. ev_planned_pairs r = PInt n) \<and>
      (\<exists>n > 0. ev_safety_failures r = PInt n)"
    unfolding evaluation_decision_def
    by (auto simp: count_of_eq weigh split: option.splits if_splits) (auto simp: count_of_def)
qed (auto simp: judge_candidate_def Let_def)

section \<open>Splits share no family\<close>

lemma validate_splits_iff: "validate_splits fs seen = Inr () \<longleftrightarrow>
    sorted_wrt (\<lambda>f g. set f \<inter> set g = {}) fs \<and> (\<forall>f \<in> set fs. set f \<inter> set seen = {})"
  by (induction fs seen rule: validate_splits.induct) auto

section \<open>The trial budget\<close>

text \<open>Trials in the order they ask; a refused one spends nothing.\<close>

fun trials :: "BudgetAccount \<Rightarrow> int list \<Rightarrow> int list \<times> BudgetAccount" where
  "trials a [] = ([], a)"
| "trials a (u # us) =
     (case begin_spend a u of
        Inl _ \<Rightarrow> trials a us
      | Inr a' \<Rightarrow> (let (paid, b) = trials a' us in (u # paid, b)))"

lemma begin_spend_Ok: "begin_spend a u = Inr b \<longleftrightarrow>
    0 < u \<and> bu_spent a + u \<le> bu_total a \<and> b = \<lparr>bu_total = bu_total a, bu_spent = bu_spent a + u\<rparr>"
  by (auto simp: begin_spend_def)

lemma trials_spent: "trials a us = (paid, b) \<Longrightarrow> bu_spent a \<le> bu_total a \<Longrightarrow>
    bu_total b = bu_total a \<and> bu_spent b = bu_spent a + sum_list paid \<and> bu_spent b \<le> bu_total a \<and>
    (\<forall>u \<in> set paid. 0 < u) \<and> int (length paid) \<le> sum_list paid"
proof (induction us arbitrary: a paid b)
  case (Cons u us)
  show ?case
  proof (cases "begin_spend a u")
    case (Inl e)
    with Cons.prems(1) have "trials a us = (paid, b)" by simp
    from Cons.IH [OF this Cons.prems(2)] show ?thesis .
  next
    case (Inr a')
    obtain paid' c where t: "trials a' us = (paid', c)" by (cases "trials a' us")
    with Inr Cons.prems(1) have "paid = u # paid'" "b = c" by simp_all
    moreover from Inr have a': "0 < u" "bu_spent a + u \<le> bu_total a" "a' = \<lparr>bu_total = bu_total a, bu_spent = bu_spent a + u\<rparr>"
      by (simp_all add: begin_spend_Ok)
    ultimately show ?thesis using Cons.IH [OF t] by auto
  qed
qed simp

text \<open>
  An experiment stays inside its permit: it is authorized only by a permit that is present, funded, not
  expired by an integer date and lists all of its families, under the digest of its specification, and whatever
  trials then ask for, what they spend never exceeds the permit's budget, so at most that many trials ever run.
\<close>

theorem experiment_stays_in_permit:
  assumes "authorize_experiment H spec permit now = Inr x"
  shows "\<exists>pm. permit = Some pm \<and> int_of_obj (get_or pm ''budget_units'' (PInt 0)) = Some (xp_budget_units x) \<and>
      0 < xp_budget_units x \<and> (\<forall>e. int_of_obj (get_or pm ''expires_at'' (PInt 0)) = Some e \<longrightarrow> now < e) \<and>
      set (str_elements (get_or spec ''families'' (PTuple []))) \<subseteq> set (xp_allowed_families x) \<and>
      digest H (obj_dict (map (\<lambda>(k, v). (k, PStr (py_str v))) (sort_key fst spec))) = Inr (xp_spec_digest x) \<and>
      (\<forall>asked. case trials \<lparr>bu_total = xp_budget_units x, bu_spent = 0\<rparr> asked of (paid, account) \<Rightarrow>
        bu_spent account = sum_list paid \<and> sum_list paid \<le> xp_budget_units x \<and> int (length paid) \<le> xp_budget_units x)"
proof -
  from assms obtain pm where pm: "permit = Some pm" by (auto simp: authorize_experiment_def split: option.splits)
  with assms have "int_of_obj (get_or pm ''budget_units'' (PInt 0)) = Some (xp_budget_units x)" "0 < xp_budget_units x"
    "(\<forall>e. int_of_obj (get_or pm ''expires_at'' (PInt 0)) = Some e \<longrightarrow> now < e)"
    "set (str_elements (get_or spec ''families'' (PTuple []))) \<subseteq> set (xp_allowed_families x)"
    "digest H (obj_dict (map (\<lambda>(k, v). (k, PStr (py_str v))) (sort_key fst spec))) = Inr (xp_spec_digest x)"
    by (auto simp: authorize_experiment_def Let_def rbind_eq_Ok_iff split: option.splits if_splits)
  moreover from this(2) have "case trials \<lparr>bu_total = xp_budget_units x, bu_spent = 0\<rparr> asked of (paid, account) \<Rightarrow>
      bu_spent account = sum_list paid \<and> sum_list paid \<le> xp_budget_units x \<and> int (length paid) \<le> xp_budget_units x" for asked
    using trials_spent [of "\<lparr>bu_total = xp_budget_units x, bu_spent = 0\<rparr>" asked] by (fastforce split: prod.split)
  ultimately show ?thesis using pm by blast
qed

definition paid_spec :: pymap where
  "paid_spec = [(''families'', PList [PStr ''f''])]"

definition paid_permit :: pymap where
  "paid_permit = [(''budget_units'', PInt 3), (''expires_at'', PInt 9), (''families'', PList [PStr ''f'', PStr ''g''])]"

lemma experiment_stays_in_permit_witness:
  "case authorize_experiment plain_hash paid_spec (Some paid_permit) 1 of Inl e \<Rightarrow> False | Inr x \<Rightarrow>
     (case trials \<lparr>bu_total = xp_budget_units x, bu_spent = 0\<rparr> [2, 5, 1, 1] of (paid, account) \<Rightarrow> sum_list paid \<le> 3)"
proof -
  have "case authorize_experiment plain_hash paid_spec (Some paid_permit) 1 of Inl e \<Rightarrow> False | Inr x \<Rightarrow> xp_budget_units x = 3"
    by code_simp
  then obtain x where x: "authorize_experiment plain_hash paid_spec (Some paid_permit) 1 = Inr x" "xp_budget_units x = 3"
    by (auto split: sum.splits)
  from experiment_stays_in_permit [OF x(1)] have
    "\<forall>asked. case trials \<lparr>bu_total = xp_budget_units x, bu_spent = 0\<rparr> asked of (paid, account) \<Rightarrow>
      bu_spent account = sum_list paid \<and> sum_list paid \<le> xp_budget_units x \<and> int (length paid) \<le> xp_budget_units x"
    by (elim exE conjE) assumption
  from this [rule_format, of "[2, 5, 1, 1]"] x show ?thesis by (simp split: prod.splits)
qed

text \<open>A permit whose expiry is a text never expires.\<close>

lemma textual_expiry_never_expires:
  "\<exists>x. authorize_experiment plain_hash [] (Some [(''budget_units'', PInt 1), (''expires_at'', PStr ''2020-01-01'')]) now = Inr x"
proof -
  have "succeeds (digest plain_hash (obj_dict []))" by code_simp
  then show ?thesis
    by (auto simp: authorize_experiment_def get_or_def int_of_obj_def str_elements_def minus_list_def succeeds_iff)
qed

section \<open>Admission\<close>

text \<open>
  A bundle is admitted exactly when it is of the expected source, covers the suite, collected tests, comes from a
  trusted producer with the expected body, and neither lists an empty set of raw artifacts nor calls itself
  a fixture or a self-report.
\<close>

lemma admit_bundle_iff:
  "(\<exists>a. admit_bundle b src suite producers body = Inr a \<and> ba_admitted a) \<longleftrightarrow>
     dict_get b ''source_digest'' = Some (PStr src) \<and> set suite \<subseteq> set (str_elements (get_or b ''suite'' (PTuple []))) \<and>
     (\<exists>n > 0. int_of_obj (get_or b ''tests_collected'' (PInt 0)) = Some n) \<and>
     py_str (get_or b ''producer'' (PStr [])) \<in> set producers \<and>
     (body = None \<or> (\<exists>d. body = Some d \<and> dict_get b ''body_digest'' = Some (PStr d))) \<and>
     get_or b ''raw_artifacts'' (PTuple []) \<notin> {PList [], PTuple []} \<and>
     hashable (get_or b ''evidence_kind'' PNone) \<and>
     get_or b ''evidence_kind'' PNone \<notin> {PStr ''fixture'', PStr ''self_report''}"
  unfolding admit_bundle_def Let_def by (cases body) (auto simp: not_le split: option.splits)

text \<open>A bundle whose raw artifacts are \<open>None\<close> is admitted without any.\<close>

lemma no_raw_artifacts_admitted:
  "\<exists>a. admit_bundle [(''source_digest'', PStr ''s''), (''tests_collected'', PInt 1), (''producer'', PStr ''p''),
     (''raw_artifacts'', PNone)] ''s'' [] [''p''] None = Inr a \<and> ba_admitted a"
  unfolding admit_bundle_iff by (simp add: get_or_def int_of_obj_def py_str_def)

section \<open>The lineage of the lane\<close>

interpretation promotions: cas_store "\<lambda>l r. promote_candidate r l" "\<lambda>l. er_release_id (pl_current l)" er_parent_id
  by unfold_locales (auto simp: promote_candidate_def raise_def split: if_splits)

inductive lane_run :: "PromotionLane \<Rightarrow> PromotionLane \<Rightarrow> bool" for s where
  start: "lane_run s s"
| promoted: "lane_run s t \<Longrightarrow> promote_candidate c t = (r, u) \<Longrightarrow> lane_run s u"
| rolled_back: "lane_run s t \<Longrightarrow> lane_rollback k t = (r, u) \<Longrightarrow> lane_run s u"

definition descent :: "EvaluatedRelease list \<Rightarrow> (string \<times> string) set" where
  "descent rs = (\<lambda>r. (er_parent_id r, er_release_id r)) ` set rs"

text \<open>Every release of the history descends from the first by promotions later in the history.\<close>

definition lineage :: "EvaluatedRelease \<Rightarrow> PromotionLane \<Rightarrow> bool" where
  "lineage origin s \<longleftrightarrow> (\<exists>rs. pl_history s = origin # rs \<and> pl_current s \<in> set (pl_history s) \<and>
     (\<forall>r \<in> set (pl_history s). (er_release_id origin, er_release_id r) \<in> (descent rs)\<^sup>*))"

lemma descent_snoc: "descent (rs @ [c]) = insert (er_parent_id c, er_release_id c) (descent rs)"
  by (simp add: descent_def)

lemma promote_candidate_cases:
  assumes "promote_candidate c s = (r, t)"
  obtains e where "r = Inl e" "t = s"
  | "r = Inr c" "er_parent_id c = er_release_id (pl_current s)" "t = s\<lparr>pl_history := pl_history s @ [c], pl_current := c\<rparr>"
  using assms by (auto simp: promote_candidate_def raise_def split: if_splits)

lemma lane_rollback_cases:
  assumes "lane_rollback k s = (r, t)"
  obtains e where "r = Inl e" "t = s" "k \<notin> er_release_id ` set (pl_history s)"
  | x where "r = Inr x" "x \<in> set (pl_history s)" "er_release_id x = k" "t = s\<lparr>pl_current := x\<rparr>"
proof (cases "List.find (\<lambda>r. er_release_id r = k) (pl_history s)")
  case None
  then have "k \<notin> er_release_id ` set (pl_history s)" by (auto simp: find_None_iff)
  with None assms that(1) show thesis by (auto simp: lane_rollback_def raise_def)
next
  case (Some x)
  with assms that(2) show thesis by (auto simp: lane_rollback_def dest!: find_Some_in)
qed

lemma promote_lineage:
  assumes "lineage origin s" "promote_candidate c s = (r, t)"
  shows "lineage origin t"
  using assms(2)
proof (cases rule: promote_candidate_cases)
  case 2
  from assms(1) obtain rs where rs: "pl_history s = origin # rs" "pl_current s \<in> set (pl_history s)"
    "\<forall>r \<in> set (pl_history s). (er_release_id origin, er_release_id r) \<in> (descent rs)\<^sup>*" unfolding lineage_def by blast
  let ?d = "descent (rs @ [c])"
  have mono: "(descent rs)\<^sup>* \<subseteq> ?d\<^sup>*" by (intro rtrancl_mono) (auto simp: descent_snoc)
  have "(er_parent_id c, er_release_id c) \<in> ?d" by (simp add: descent_snoc)
  with rs(2,3) 2(2) mono have "(er_release_id origin, er_release_id c) \<in> ?d\<^sup>*" by (metis in_mono rtrancl.rtrancl_into_rtrancl)
  with rs mono 2(3) have "pl_history t = origin # (rs @ [c])" "pl_current t \<in> set (pl_history t)"
    "\<forall>r \<in> set (pl_history t). (er_release_id origin, er_release_id r) \<in> ?d\<^sup>*" by auto
  then show ?thesis unfolding lineage_def by blast
qed (use assms(1) in simp)

lemma run_lineage: "lane_run s t \<Longrightarrow> lineage origin s \<Longrightarrow> lineage origin t"
proof (induction rule: lane_run.induct)
  case (rolled_back t k r u)
  from rolled_back.hyps(2) rolled_back.IH [OF rolled_back.prems] show ?case
    by (cases rule: lane_rollback_cases) (auto simp: lineage_def)
qed (auto intro: promote_lineage)

text \<open>
  Claim C20. Over every run of promotions and rollbacks the lane's history starts with its first release and every
  release in it descends from that one through promotions of the history; the live release is one of them; a run
  is checked against exactly that release once it started after the promotion; of two candidates of one parent only
  the first is promoted while no rollback intervenes; and every release of the history can be rolled back to.
\<close>

theorem lane_lineage:
  assumes "lane_run (new_promotion_lane origin) s"
  shows "(\<exists>rs. pl_history s = origin # rs \<and> pl_current s \<in> set (origin # rs) \<and>
      (\<forall>r \<in> set (origin # rs). (er_release_id origin, er_release_id r) \<in> ((\<lambda>r. (er_parent_id r, er_release_id r)) ` set rs)\<^sup>*)) \<and>
    (py_truthy (get_or job ''started_after_promotion'' (PBool False)) \<longrightarrow>
      (rk_ok (verify_next_run s job) \<longleftrightarrow> py_str (get_or job ''release_id'' (PStr [])) = er_release_id (pl_current s))) \<and>
    (\<forall>c d t. promote_candidate c s = (Inr c, t) \<and> er_parent_id d = er_parent_id c \<and> er_release_id c \<noteq> er_parent_id c \<longrightarrow>
      (\<exists>e. promote_candidate d t = (Inl e, t))) \<and>
    (\<forall>r \<in> set (pl_history s). \<exists>x t. lane_rollback (er_release_id r) s = (Inr x, t) \<and> er_release_id x = er_release_id r \<and>
      pl_current t = x \<and> pl_history t = pl_history s)"
proof (intro conjI allI impI ballI)
  have "lineage origin (new_promotion_lane origin)" by (simp add: lineage_def new_promotion_lane_def)
  from run_lineage [OF assms this] show "\<exists>rs. pl_history s = origin # rs \<and> pl_current s \<in> set (origin # rs) \<and>
      (\<forall>r \<in> set (origin # rs). (er_release_id origin, er_release_id r) \<in> ((\<lambda>r. (er_parent_id r, er_release_id r)) ` set rs)\<^sup>*)"
    unfolding lineage_def descent_def by force
next
  assume "py_truthy (get_or job ''started_after_promotion'' (PBool False))"
  then show "rk_ok (verify_next_run s job) \<longleftrightarrow> py_str (get_or job ''release_id'' (PStr [])) = er_release_id (pl_current s)"
    by (simp add: verify_next_run_def Let_def)
next
  fix c d :: EvaluatedRelease and t
  assume a: "promote_candidate c s = (Inr c, t) \<and> er_parent_id d = er_parent_id c \<and> er_release_id c \<noteq> er_parent_id c"
  show "\<exists>e. promote_candidate d t = (Inl e, t)"
  proof (rule promotions.race_lost)
    show "promote_candidate c s = (Inr c, t)" using a by simp
    from this show "er_release_id (pl_current t) \<noteq> er_release_id (pl_current s)"
      using a by (cases rule: promote_candidate_cases) auto
  qed (use a in simp)
next
  fix r
  assume r: "r \<in> set (pl_history s)"
  obtain y t where y: "lane_rollback (er_release_id r) s = (y, t)" by (cases "lane_rollback (er_release_id r) s")
  from y show "\<exists>x t. lane_rollback (er_release_id r) s = (Inr x, t) \<and> er_release_id x = er_release_id r \<and>
      pl_current t = x \<and> pl_history t = pl_history s"
  proof (cases rule: lane_rollback_cases)
    case (2 x)
    with y show ?thesis by (intro exI [of _ x] exI [of _ t]) simp
  qed (use r in auto)
qed

definition lane_release :: "string \<Rightarrow> string \<Rightarrow> EvaluatedRelease" where
  "lane_release k parent = \<lparr>er_release_id = k, er_parent_id = parent, er_manifest_id = ''m'', er_evidence_refs = []\<rparr>"

definition promoted_lane :: PromotionLane where
  "promoted_lane = snd (promote_candidate (lane_release ''r1'' ''r0'') (new_promotion_lane (lane_release ''r0'' ''none'')))"

lemma lane_lineage_witness:
  "(\<exists>e. promote_candidate (lane_release ''r2'' ''r0'') promoted_lane = (Inl e, promoted_lane)) \<and>
   (\<exists>x t. lane_rollback ''r0'' promoted_lane = (Inr x, t))"
proof
  have p: "promote_candidate (lane_release ''r1'' ''r0'') (new_promotion_lane (lane_release ''r0'' ''none'')) =
      (Inr (lane_release ''r1'' ''r0''), promoted_lane)"
    by (simp add: promoted_lane_def promote_candidate_def lane_release_def new_promotion_lane_def)
  note start = lane_run.start [of "new_promotion_lane (lane_release ''r0'' ''none'')"]
  have ids: "er_release_id (lane_release k q) = k" "er_parent_id (lane_release k q) = q" for k q
    by (simp_all add: lane_release_def)
  from lane_lineage [OF start, THEN conjunct2, THEN conjunct2, THEN conjunct1, rule_format,
      where c = "lane_release ''r1'' ''r0''" and d = "lane_release ''r2'' ''r0''" and t = promoted_lane] p show
    "\<exists>e. promote_candidate (lane_release ''r2'' ''r0'') promoted_lane = (Inl e, promoted_lane)"
    by (simp add: ids)
  have h: "lane_release ''r0'' ''none'' \<in> set (pl_history promoted_lane)" by code_simp
  from lane_lineage [OF lane_run.promoted [OF start p], THEN conjunct2, THEN conjunct2, THEN conjunct2, rule_format, OF h]
  show "\<exists>x t. lane_rollback ''r0'' promoted_lane = (Inr x, t)" by (auto simp: ids)
qed

text \<open>After a rollback a second candidate of the same parent is promoted, although only one child may be.\<close>

lemma siblings_after_rollback:
  "case lane_rollback ''r0'' promoted_lane of (_, t) \<Rightarrow>
     (case promote_candidate (lane_release ''r2'' ''r0'') t of (r, u) \<Rightarrow> succeeds r \<and>
        map er_parent_id (tl (pl_history u)) = [''r0'', ''r0''])"
  by code_simp

text \<open>A run without a pin passes by naming the sentinel as its release.\<close>

lemma unpinned_sentinel_passes: "rk_ok (verify_next_run s [(''release_id'', PStr ''__unpinned__'')])"
  by (simp add: verify_next_run_def get_or_def py_truthy_def Let_def)

end
