(* ===== verification/JsonText.thy ===== *)
theory JsonText
  imports Canonical
begin

text \<open>
  Reading back what \<^const>\<open>canonical_bytes\<close> writes: \<open>bytes.decode()\<close> and \<open>json.loads\<close>, as the checkpoint
  reader of \<open>sqlite/repository.py\<close> uses them. Texts are of characters up to U+00FF and numbers are integers,
  which is all an encoded value contains; any other number or escape is refused. The main result is that
  reading an encoded document gives the document.
\<close>

section \<open>UTF-8\<close>

fun utf8_decode :: "string \<Rightarrow> string option" where
  "utf8_decode [] = Some []"
| "utf8_decode (c # cs) =
     (let n = of_char c :: nat in
      if n < 128 then map_option ((#) c) (utf8_decode cs)
      else (case cs of
          [] \<Rightarrow> None
        | d # ds \<Rightarrow>
            (let m = of_char d :: nat in
             if n \<in> {194, 195} \<and> 128 \<le> m \<and> m < 192
             then map_option ((#) (char_of ((n - 192) * 64 + (m - 128)))) (utf8_decode ds) else None)))"

lemma utf8_decode_char: "utf8_decode (utf8_char c @ cs) = map_option ((#) c) (utf8_decode cs)"
proof (cases "(of_char c :: nat) < 128")
  case True
  then show ?thesis by (simp add: utf8_char_def)
next
  case False
  let ?n = "of_char c :: nat"
  have n: "?n < 256" by (rule of_char_bound)
  then have q: "?n div 64 < 4" using less_mult_imp_div_less [of "?n" 4 64] by simp
  then have code: "of_char (char_of (192 + ?n div 64) :: char) = 192 + ?n div 64"
    "of_char (char_of (128 + ?n mod 64) :: char) = 128 + ?n mod 64" by (simp_all add: of_char_of)
  have again: "char_of (?n div 64 * 64 + ?n mod 64) = c" by (simp only: div_mult_mod_eq) simp
  have "?n div 64 = 2 \<or> ?n div 64 = 3" using False n by linarith
  then show ?thesis
  proof
    assume d: "?n div 64 = 2"
    have "char_of (128 + ?n mod 64) = c" using again unfolding d by simp
    moreover have "?n < 192" using d by linarith
    ultimately show ?thesis using False code d by (simp add: utf8_char_def Let_def)
  next
    assume d: "?n div 64 = 3"
    have "char_of (192 + ?n mod 64) = c" using again unfolding d by simp
    then show ?thesis using False code d by (simp add: utf8_char_def Let_def)
  qed
qed

lemma utf8_decode_utf8 [simp]: "utf8_decode (utf8 s) = Some s"
  by (induction s) (simp_all add: utf8_def utf8_decode_char del: utf8_decode.simps(2))

section \<open>The reader\<close>

definition white :: "char \<Rightarrow> bool" where
  "white c \<longleftrightarrow> c \<in> {CHR '' '', CHR 0x09, CHR 0x0A, CHR 0x0D}"

definition skip :: "string \<Rightarrow> string" where
  "skip s = dropWhile white s"

definition json_hex :: "char \<Rightarrow> nat option" where
  "json_hex c =
     (let n = of_char c :: nat in
      if 48 \<le> n \<and> n \<le> 57 then Some (n - 48)
      else if 97 \<le> n \<and> n \<le> 102 then Some (n - 87)
      else if 65 \<le> n \<and> n \<le> 70 then Some (n - 55) else None)"

definition simple_escape :: "char \<Rightarrow> char option" where
  "simple_escape e = map_of [(CHR 0x22, CHR 0x22), (backslash, backslash), (CHR ''/'', CHR ''/''), (CHR ''b'', CHR 0x08),
     (CHR ''f'', CHR 0x0C), (CHR ''n'', CHR 0x0A), (CHR ''r'', CHR 0x0D), (CHR ''t'', CHR 0x09)] e"

text \<open>The rest of a string literal, after its opening quote.\<close>

fun read_chars :: "string \<Rightarrow> (string \<times> string) option" where
  "read_chars [] = None"
| "read_chars (c # cs) =
     (if c = CHR 0x22 then Some ([], cs)
      else if c = backslash then
        (case cs of
           [] \<Rightarrow> None
         | e # ds \<Rightarrow>
             if e = CHR ''u'' then
               (case ds of
                  a # b # h # l # rest \<Rightarrow>
                    (case (json_hex a, json_hex b, json_hex h, json_hex l) of
                       (Some 0, Some 0, Some x, Some y) \<Rightarrow>
                         map_option (\<lambda>(t, r). (char_of (16 * x + y) # t, r)) (read_chars rest)
                     | _ \<Rightarrow> None)
                | _ \<Rightarrow> None)
             else (case simple_escape e of
                 None \<Rightarrow> None | Some d \<Rightarrow> map_option (\<lambda>(t, r). (d # t, r)) (read_chars ds)))
      else if (of_char c :: nat) < 32 then None
      else map_option (\<lambda>(t, r). (c # t, r)) (read_chars cs))"

definition read_string :: "string \<Rightarrow> (string \<times> string) option" where
  "read_string s = (case s of [] \<Rightarrow> None | c # cs \<Rightarrow> if c = CHR 0x22 then read_chars cs else None)"

text \<open>\<open>-?(0|[1-9][0-9]*)\<close>, with neither a fraction nor an exponent after it.\<close>

definition read_digits :: "string \<Rightarrow> (nat \<times> string) option" where
  "read_digits s =
     (let ds = takeWhile is_digit s; r = dropWhile is_digit s in
      if ds = [] \<or> (hd ds = CHR ''0'' \<and> length ds > 1) \<or> (r \<noteq> [] \<and> hd r \<in> set ''.eE'') then None
      else Some (dec_value 0 ds, r))"

definition read_int :: "string \<Rightarrow> (int \<times> string) option" where
  "read_int s =
     (case s of
        c # cs \<Rightarrow> if c = CHR ''-'' then map_option (\<lambda>(n, r). (- int n, r)) (read_digits cs)
          else map_option (\<lambda>(n, r). (int n, r)) (read_digits s)
      | [] \<Rightarrow> None)"

text \<open>A keyword of the text and what follows it.\<close>

definition after :: "string \<Rightarrow> string \<Rightarrow> string option" where
  "after w s = (if take (length w) s = w then Some (drop (length w) s) else None)"

text \<open>
  Recursive descent; every call has less text before it than its caller, so that fuel of the length of the text
  is enough. A repeated key keeps its last value.
\<close>

fun read_value :: "nat \<Rightarrow> string \<Rightarrow> (json \<times> string) option"
  and read_elements :: "nat \<Rightarrow> string \<Rightarrow> (json list \<times> string) option"
  and read_members :: "nat \<Rightarrow> (string, json) dict \<Rightarrow> string \<Rightarrow> ((string, json) dict \<times> string) option"
where
  "read_value 0 s = None"
| "read_value (Suc n) s =
     (case s of
        [] \<Rightarrow> None
      | c # cs \<Rightarrow>
          if c = CHR 0x22 then map_option (\<lambda>(t, r). (CStr t, r)) (read_chars cs)
          else if c = CHR ''['' then
            (if skip cs \<noteq> [] \<and> hd (skip cs) = CHR '']'' then Some (CList [], tl (skip cs))
             else map_option (\<lambda>(xs, r). (CList xs, r)) (read_elements n (skip cs)))
          else if c = CHR 0x7B then
            (if skip cs \<noteq> [] \<and> hd (skip cs) = CHR 0x7D then Some (CDict [], tl (skip cs))
             else map_option (\<lambda>(kvs, r). (CDict kvs, r)) (read_members n [] (skip cs)))
          else if c = CHR ''n'' then map_option (\<lambda>r. (CNull, r)) (after ''null'' s)
          else if c = CHR ''t'' then map_option (\<lambda>r. (CBool True, r)) (after ''true'' s)
          else if c = CHR ''f'' then map_option (\<lambda>r. (CBool False, r)) (after ''false'' s)
          else map_option (\<lambda>(i, r). (CInt i, r)) (read_int s))"
| "read_elements 0 s = None"
| "read_elements (Suc n) s =
     (case read_value n s of
        None \<Rightarrow> None
      | Some (v, r) \<Rightarrow>
          (case skip r of
             [] \<Rightarrow> None
           | c # cs \<Rightarrow>
               if c = CHR '']'' then Some ([v], cs)
               else if c = CHR '','' then map_option (\<lambda>(vs, t). (v # vs, t)) (read_elements n (skip cs))
               else None))"
| "read_members 0 d s = None"
| "read_members (Suc n) d s =
     (case read_string s of
        None \<Rightarrow> None
      | Some (k, r) \<Rightarrow>
          (case skip r of
             [] \<Rightarrow> None
           | c # cs \<Rightarrow>
               if c \<noteq> CHR '':'' then None
               else (case read_value n (skip cs) of
                   None \<Rightarrow> None
                 | Some (v, t) \<Rightarrow>
                     (case skip t of
                        [] \<Rightarrow> None
                      | e # es \<Rightarrow>
                          if e = CHR 0x7D then Some (dict_set k v d, es)
                          else if e = CHR '','' then read_members n (dict_set k v d) (skip es)
                          else None))))"

definition loads :: "string \<Rightarrow> json result" where
  "loads s =
     (case read_value (Suc (length s)) (skip s) of
        None \<Rightarrow> Inl (PyError ''JSONDecodeError'')
      | Some (v, r) \<Rightarrow> if skip r = [] then Ok v else Inl (PyError ''JSONDecodeError''))"

section \<open>Reading what was written\<close>

lemma json_hex_digit: "n < 16 \<Longrightarrow> json_hex (hex_digit n) = Some n"
proof -
  assume "n < 16"
  then have "n \<in> {0, 1, 2, 3, 4, 5, 6, 7, 8, 9, 10, 11, 12, 13, 14, 15}"
    unfolding insert_iff empty_iff by arith
  then show ?thesis by (elim insertE) (simp_all add: json_hex_def hex_digit_def)
qed

lemma read_chars_esc: "read_chars (esc_char c @ s) = map_option (\<lambda>(t, r). (c # t, r)) (read_chars s)"
proof (cases c rule: esc_char_cases)
  case plain
  then show ?thesis by (auto simp: esc_char_alt split: if_splits)
next
  case (two d)
  then show ?thesis by (auto simp: simple_escape_def backslash_def)
next
  case hex
  have "(of_char c :: nat) < 256" by (rule of_char_bound)
  then have "of_char c div 16 < (16::nat)" "of_char c mod 16 < (16::nat)"
    using less_mult_imp_div_less [of "of_char c" 16 16] by simp_all
  moreover have "char_of (16 * (of_char c div 16) + of_char c mod 16 :: nat) = c" by simp
  moreover have "json_hex (CHR ''0'') = Some 0" by (simp add: json_hex_def)
  ultimately show ?thesis using hex by (simp add: json_hex_digit backslash_def)
qed

lemma read_chars_quote: "read_chars (concat (map esc_char s) @ CHR 0x22 # r) = Some (s, r)"
  by (induction s) (simp_all add: read_chars_esc del: read_chars.simps(2), simp)

lemma skip_delim [simp]: "delim r \<Longrightarrow> skip r = r"
  by (cases r) (auto simp: delim_def skip_def white_def)

lemma skip_emit [simp]: "skip (emit j @ r) = emit j @ r"
proof -
  have "\<not> white (hd (emit j))"
    using hd_emit [of j] head_class_bound [of j] by (auto simp: white_def char_class_def int_char_def is_digit_def)
  then show ?thesis by (cases "emit j") (simp_all add: skip_def)
qed

lemma skip_quote [simp]: "skip (CHR 0x22 # r) = CHR 0x22 # r"
  by (simp add: skip_def white_def)

lemma is_digit_takeWhile: "delim r \<Longrightarrow> takeWhile is_digit (digits_of n @ r) = digits_of n"
  "delim r \<Longrightarrow> dropWhile is_digit (digits_of n @ r) = r"
proof -
  assume r: "delim r"
  have "\<And>c cs. r = c # cs \<Longrightarrow> \<not> is_digit c" using r delim_not_int_char by (auto simp: int_char_def)
  then have "takeWhile is_digit r = []" "dropWhile is_digit r = r" by (cases r; simp)+
  then show "takeWhile is_digit (digits_of n @ r) = digits_of n" "dropWhile is_digit (digits_of n @ r) = r"
    using digits_of_digits [of n] by simp_all
qed

lemma digits_of_no_zero: "hd (digits_of n) = CHR ''0'' \<Longrightarrow> length (digits_of n) = 1"
proof (induction n rule: digits_of.induct)
  case (1 n)
  show ?case
  proof (cases "n < 10")
    case True
    then show ?thesis by (subst digits_of.simps) simp
  next
    case False
    have "digits_of n = digits_of (n div 10) @ [digit (n mod 10)]" using False by (subst digits_of.simps) simp
    with "1.prems" have "hd (digits_of (n div 10)) = CHR ''0''" by simp
    with "1.IH" False have len: "length (digits_of (n div 10)) = 1" by simp
    then obtain c where "digits_of (n div 10) = [c]" by (auto simp: length_Suc_conv)
    with \<open>hd (digits_of (n div 10)) = CHR ''0''\<close> have "digits_of (n div 10) = ''0''" by simp
    then have "n div 10 = 0" using dec_value_digits_of [of "n div 10"] by simp
    with False show ?thesis by simp
  qed
qed

lemma read_digits_of: "delim r \<Longrightarrow> read_digits (digits_of n @ r) = Some (n, r)"
  using digits_of_no_zero [of n]
  by (auto simp: read_digits_def is_digit_takeWhile dec_value_digits_of delim_def Let_def)

lemma read_int_str: "delim r \<Longrightarrow> read_int (str_int i @ r) = Some (i, r)"
proof (cases "i < 0")
  case False
  assume "delim r"
  have "\<exists>c cs. digits_of (nat i) = c # cs \<and> is_digit c"
    using hd_digits_of [of "nat i"] by (metis digits_of_nonempty list.exhaust_sel)
  then obtain c cs where "digits_of (nat i) = c # cs" "c \<noteq> CHR ''-''" using not_is_digit_minus by blast
  then show ?thesis using False read_digits_of [OF \<open>delim r\<close>, of "nat i"] by (simp add: read_int_def str_int_def)
qed (simp add: read_int_def str_int_def read_digits_of)

lemma read_int_head: "n = Suc m \<Longrightarrow> delim r \<Longrightarrow> read_value n (str_int i @ r) = Some (CInt i, r)"
proof -
  assume n: "n = Suc m" and r: "delim r"
  obtain c cs where c: "str_int i = c # cs" by (cases "str_int i") simp_all
  then have "int_char c" using hd_str_int [of i] by simp
  then have "c \<notin> {CHR 0x22, CHR ''['', CHR 0x7B, CHR ''n'', CHR ''t'', CHR ''f''}" by (auto simp: int_char_def is_digit_def)
  with c n read_int_str [OF r, of i] show ?thesis by simp
qed

text \<open>
  The elements and members of an encoded array or object, given that every value in them is read back;
  the fuel is the length of their text.
\<close>

lemma py_join_len: "length (py_join '','' (w # ws)) = length w + (if ws = [] then 0 else Suc (length (py_join '','' ws)))"
  by (cases ws) simp_all

lemma py_join_Cons: "py_join '','' (w # ws) @ r = w @ (if ws = [] then r else CHR '','' # py_join '','' ws @ r)"
  by (cases ws) simp_all

lemma skip_head: "\<not> white c \<Longrightarrow> skip (c # cs) = c # cs"
  by (simp add: skip_def)

lemma white_marks [simp]: "\<not> white (CHR '','')" "\<not> white (CHR '']'')" "\<not> white (CHR 0x7D)" "\<not> white (CHR '':'')" "\<not> white (CHR 0x22)"
  by (simp_all add: white_def)

lemma skip_join_emit: "xs \<noteq> [] \<Longrightarrow> skip (py_join '','' (map emit xs) @ r) = py_join '','' (map emit xs) @ r"
  by (cases xs) (simp_all add: py_join_Cons)

lemma read_elements_emit:
  assumes "\<And>x n r. x \<in> set xs \<Longrightarrow> length (emit x) \<le> n \<Longrightarrow> delim r \<Longrightarrow> read_value n (emit x @ r) = Some (x, r)"
    and "xs \<noteq> []" "length (py_join '','' (map emit xs)) < n"
  shows "read_elements n (py_join '','' (map emit xs) @ CHR '']'' # r) = Some (xs, r)"
  using assms
proof (induction xs arbitrary: n)
  case (Cons x xs)
  then obtain m where n: "n = Suc m" by (cases n) simp_all
  have len: "length (emit x) \<le> m" using Cons.prems(3) n by (simp add: py_join_len split: if_splits)
  have d: "delim (CHR '']'' # r)" "delim (CHR '','' # z)" for z by (simp_all add: delim_def)
  show ?case
  proof (cases "xs = []")
    case True
    with Cons.prems(1) [of x m "CHR '']'' # r"] len d n show ?thesis by (simp add: skip_head)
  next
    case False
    let ?t = "py_join '','' (map emit xs) @ CHR '']'' # r"
    have "length (py_join '','' (map emit xs)) < m" using Cons.prems(3) n False by (simp add: py_join_len)
    then have "read_elements m ?t = Some (xs, r)" using Cons.IH [OF Cons.prems(1) False] by simp
    with Cons.prems(1) [of x m "CHR '','' # ?t"] len d n False skip_join_emit [OF False]
    show ?thesis by (simp add: skip_head py_join_Cons)
  qed
qed simp

lemma read_members_emit:
  assumes "\<And>k x n r. (k, x) \<in> set kvs \<Longrightarrow> length (emit x) \<le> n \<Longrightarrow> delim r \<Longrightarrow> read_value n (emit x @ r) = Some (x, r)"
    and "kvs \<noteq> []" "length (py_join '','' (map (\<lambda>(k, v). quote k @ '':'' @ emit v) kvs)) < n"
    and "distinct (map fst (d @ kvs))"
  shows "read_members n d (py_join '','' (map (\<lambda>(k, v). quote k @ '':'' @ emit v) kvs) @ CHR 0x7D # r) = Some (d @ kvs, r)"
  using assms
proof (induction kvs arbitrary: n d)
  case (Cons kv kvs)
  let ?f = "\<lambda>(k, v). quote k @ '':'' @ emit v"
  obtain k x where kv: "kv = (k, x)" by (cases kv)
  from Cons.prems obtain m where n: "n = Suc m" by (cases n) simp_all
  have len: "length (emit x) \<le> m" using Cons.prems(3) n kv by (simp add: py_join_len split: if_splits)
  have dl: "delim (CHR 0x7D # r)" "delim (CHR '','' # z)" for z by (simp_all add: delim_def)
  have str: "read_string (quote k @ s) = Some (k, s)" for s
    using read_chars_quote [of k s] by (simp add: read_string_def quote_def)
  have new: "dict_set k x d = d @ [(k, x)]" using Cons.prems(4) kv by (intro dict_set_new) auto
  show ?case
  proof (cases "kvs = []")
    case True
    with Cons.prems(1) [of k x m "CHR 0x7D # r"] len dl n kv str new show ?thesis by (simp add: skip_head)
  next
    case False
    let ?t = "py_join '','' (map ?f kvs) @ CHR 0x7D # r"
    have l: "length (py_join '','' (map ?f kvs)) < m" using Cons.prems(3) n kv False by (simp add: py_join_len)
    have "distinct (map fst ((d @ [(k, x)]) @ kvs))" using Cons.prems(4) kv by simp
    then have "read_members m (d @ [(k, x)]) ?t = Some ((d @ [(k, x)]) @ kvs, r)"
      by (intro Cons.IH) (use Cons.prems(1) False l in auto)
    moreover have "skip ?t = ?t" using False by (cases kvs) (auto simp: py_join_Cons quote_def)
    moreover have "read_value m (emit x @ CHR '','' # ?t) = Some (x, CHR '','' # ?t)"
      using Cons.prems(1) [of k x m "CHR '','' # ?t"] len dl kv by simp
    moreover have "py_join '','' (map ?f (kv # kvs)) @ CHR 0x7D # r = quote k @ CHR '':'' # emit x @ CHR '','' # ?t"
      using False kv by (simp add: py_join_Cons)
    ultimately show ?thesis using n str new kv by (simp add: skip_head)
  qed
qed simp

lemma read_value_emit: "json_wf j \<Longrightarrow> length (emit j) \<le> n \<Longrightarrow> delim r \<Longrightarrow> read_value n (emit j @ r) = Some (j, r)"
proof (induction j arbitrary: n r)
  case (CStr s)
  then obtain m where "n = Suc m" by (cases n) (simp_all add: quote_def)
  with read_chars_quote [of s r] show ?case by (simp add: quote_def)
next
  case (CInt i)
  then obtain m where "n = Suc m" by (cases n) simp_all
  with read_int_head CInt show ?case by simp
next
  case (CList xs)
  then obtain m where n: "n = Suc m" by (cases n) simp_all
  show ?case
  proof (cases "xs = []")
    case True
    with n show ?thesis by (simp add: skip_head)
  next
    case False
    then have "emit (hd xs) \<noteq> []" "hd (emit (hd xs)) \<noteq> CHR '']''"
      using hd_emit [of "hd xs"] head_class_bound [of "hd xs"] class7 by auto
    with False have "hd (py_join '','' (map emit xs) @ CHR '']'' # r) \<noteq> CHR '']''" "py_join '','' (map emit xs) @ z \<noteq> []" for z
      by (cases xs; simp add: py_join_Cons)+
    moreover have "read_elements m (py_join '','' (map emit xs) @ CHR '']'' # r) = Some (xs, r)"
      using CList n False by (intro read_elements_emit) auto
    ultimately show ?thesis using n False by (simp add: skip_join_emit)
  qed
next
  case (CDict kvs)
  then obtain m where n: "n = Suc m" by (cases n) simp_all
  let ?f = "\<lambda>(k, v). quote k @ '':'' @ emit v"
  show ?case
  proof (cases "kvs = []")
    case True
    with n show ?thesis by (simp add: skip_head)
  next
    case False
    then obtain z where z: "py_join '','' (map ?f kvs) @ CHR 0x7D # r = CHR 0x22 # z"
      by (cases kvs) (auto simp: py_join_Cons quote_def)
    have "read_members m [] (py_join '','' (map ?f kvs) @ CHR 0x7D # r) = Some ([] @ kvs, r)"
    proof (rule read_members_emit)
      show "read_value n (emit x @ r) = Some (x, r)" if "(k, x) \<in> set kvs" "length (emit x) \<le> n" "delim r" for k x n r
      proof -
        have "x \<in> Basic_BNFs.snds (k, x)" by simp
        with CDict.IH [OF that(1) this] CDict.prems that show ?thesis by auto
      qed
    qed (use CDict.prems n False in simp_all)
    with n z show ?thesis by (simp add: skip_head)
  qed
next
  case CNull
  then obtain m where "n = Suc m" by (cases n) simp_all
  then show ?case by (simp add: after_def)
next
  case (CBool b)
  then obtain m where "n = Suc m" by (cases n) (simp_all split: if_splits)
  then show ?case by (simp add: after_def)
qed

text \<open>\<open>json.loads\<close> gives back the document it reads, so what was encoded is read as itself, its keys sorted.\<close>

lemma loads_emit: "json_wf j \<Longrightarrow> loads (emit j) = Inr j"
  using read_value_emit [of j "Suc (length (emit j))" "[]"] skip_emit [of j "[]"]
  by (simp add: loads_def delim_def skip_def del: read_value.simps)

lemma loads_canonical:
  assumes "normalize H v = Inr j"
  shows "loads (dumps j) = Inr (sort_json j)" "json_abs (sort_json j) = json_abs j"
  using normalize_wf_bounded(1) [OF assms] by (simp_all add: dumps_def loads_emit sort_json_wf json_abs_sort)

end
