(* ===== verification/Effects.thy ===== *)
theory Effects
  imports Outbox JsonText
begin

text \<open>
  \<open>sqlite/repository.py\<close>, the rest of the ledger: reservations of external effects and of resumed nodes,
  responses, approvals and checkpoints. Each is a table beside those of \<^const>\<open>empty_ledger\<close>; columns that only
  ever hold a constant are left out and decimal texts are their numbers. \<open>INSERT OR REPLACE\<close> is
  \<^const>\<open>AList.update\<close>.
\<close>

record EffectReservation =
  er_scope_id :: string
  er_stream_id :: string
  er_status :: string
  er_request_digest :: string

record ApprovalRow =
  ap_subject_digest :: string
  ap_scope_id :: string
  ap_expires_at :: int
  ap_revoked_revision :: "int option"

record Checkpoint =
  cp_format_version :: int
  cp_body_digest :: string
  cp_body :: string

record Repository =
  rp_ledger :: Ledger
  rp_effects :: "(string, EffectReservation) dict"
  rp_nodes :: "(string \<times> string, string) dict"
  rp_responses :: "(string \<times> string, string) dict"
  rp_subjects :: "(string, string \<times> string) dict"
  rp_approvals :: "(string, ApprovalRow) dict"
  rp_checkpoints :: "(string, Checkpoint) dict"

definition on_ledger :: "(Ledger, 'a) op \<Rightarrow> (Repository, 'a) op" where
  "on_ledger m s = (let (r, t) = m (rp_ledger s) in (r, s\<lparr>rp_ledger := t\<rparr>))"

section \<open>Effects and nodes\<close>

definition reserve_effect :: "hash_env \<Rightarrow> string \<Rightarrow> string \<Rightarrow> string \<Rightarrow> pymap \<Rightarrow> (Repository, bool) op" where
  "reserve_effect H scope_id stream_id effect_key request =
     obind (olift (digest H (obj_dict request))) (\<lambda>request_digest.
     tx (obind (on_ledger (require_scope scope_id stream_id)) (\<lambda>_ s.
       (case dict_get (rp_effects s) effect_key of
          Some row \<Rightarrow>
            if er_request_digest row \<noteq> request_digest then (raise ''IDEMPOTENCY_CONFLICT'' effect_key, s)
            else (Ok False, s)
        | None \<Rightarrow>
            (Ok True, s\<lparr>rp_effects := dict_set effect_key \<lparr>er_scope_id = scope_id, er_stream_id = stream_id,
               er_status = ''reserved'', er_request_digest = request_digest\<rparr> (rp_effects s)\<rparr>)))))"

definition set_effect :: "string \<Rightarrow> string \<Rightarrow> Repository \<Rightarrow> Repository" where
  "set_effect effect_key status s =
     (case dict_get (rp_effects s) effect_key of
        None \<Rightarrow> s
      | Some row \<Rightarrow> s\<lparr>rp_effects := dict_set effect_key (row\<lparr>er_status := status\<rparr>) (rp_effects s)\<rparr>)"

definition effect_status :: "Repository \<Rightarrow> string \<Rightarrow> string option" where
  "effect_status s effect_key = map_option er_status (dict_get (rp_effects s) effect_key)"

definition dispatch_effect :: "string \<Rightarrow> (Repository, unit) op" where
  "dispatch_effect effect_key = tx (\<lambda>s.
     if effect_status s effect_key = Some ''reserved'' then (Ok (), set_effect effect_key ''dispatched'' s)
     else (raise ''EFFECT_NOT_RESERVED'' effect_key, s))"

definition mark_effect_unknown :: "string \<Rightarrow> (Repository, unit) op" where
  "mark_effect_unknown effect_key = tx (oput (\<lambda>s.
     if effect_status s effect_key = Some ''dispatched'' then set_effect effect_key ''unknown'' s else s))"

definition reserve_node :: "hash_env \<Rightarrow> string \<Rightarrow> string \<Rightarrow> string \<Rightarrow> (Repository, string) op" where
  "reserve_node H scope_id stream_id node_id =
     tx (obind (on_ledger (require_scope scope_id stream_id)) (\<lambda>_ s.
       (case dict_get (rp_nodes s) (stream_id, node_id) of
          Some d \<Rightarrow> (Ok d, s)
        | None \<Rightarrow>
            (case digest H (obj_dict [(''stream'', PStr stream_id), (''node'', PStr node_id)]) of
               Inl e \<Rightarrow> (Inl e, s)
             | Inr d \<Rightarrow> (Ok d, s\<lparr>rp_nodes := dict_set (stream_id, node_id) d (rp_nodes s)\<rparr>)))))"

section \<open>Responses\<close>

definition record_response :: "hash_env \<Rightarrow> string \<Rightarrow> string \<Rightarrow> string \<Rightarrow> pymap \<Rightarrow> (Repository, unit) op" where
  "record_response H scope_id stream_id request_id payload =
     tx (obind (on_ledger (require_scope scope_id stream_id)) (\<lambda>_.
         obind (olift (digest H (obj_dict payload))) (\<lambda>d.
         oput (\<lambda>s. s\<lparr>rp_responses := dict_set (stream_id, request_id) d (rp_responses s)\<rparr>))))"

definition response_for :: "string \<Rightarrow> string \<Rightarrow> string \<Rightarrow> (Repository, string option) op" where
  "response_for scope_id stream_id request_id =
     obind (on_ledger (require_scope scope_id stream_id)) (\<lambda>_ s.
       (Ok (dict_get (rp_responses s) (stream_id, request_id)), s))"

section \<open>Approvals\<close>

text \<open>
  The scope is a foreign key of the subject and of the approval, and the approval id, which is also the
  nonce, is unique.
\<close>

definition insert_approval :: "string \<Rightarrow> string \<Rightarrow> string \<Rightarrow> int \<Rightarrow> string \<Rightarrow> (Repository, unit) op" where
  "insert_approval scope_id approval_id subject expires_at artifact s =
     (if scope_id \<notin> set (dict_keys (lg_scopes (rp_ledger s))) \<or> approval_id \<in> set (dict_keys (rp_approvals s))
      then (integrity_error, s)
      else (Ok (), s\<lparr>rp_subjects := insert_new subject (scope_id, artifact) (rp_subjects s),
        rp_approvals := dict_set approval_id \<lparr>ap_subject_digest = subject, ap_scope_id = scope_id,
          ap_expires_at = expires_at, ap_revoked_revision = None\<rparr> (rp_approvals s)\<rparr>))"

definition record_approval :: "hash_env \<Rightarrow> string \<Rightarrow> string \<Rightarrow> string \<Rightarrow> int \<Rightarrow> (Repository, unit) op" where
  "record_approval H scope_id approval_id subject expires_at =
     tx (obind (on_ledger (put_artifact H scope_id [CHR 0x7B, CHR 0x7D])) (\<lambda>artifact.
       insert_approval scope_id approval_id subject expires_at artifact))"

definition revoke_approval :: "string \<Rightarrow> int \<Rightarrow> (Repository, unit) op" where
  "revoke_approval approval_id revision = tx (oput (\<lambda>s.
     (case dict_get (rp_approvals s) approval_id of
        None \<Rightarrow> s
      | Some row \<Rightarrow> s\<lparr>rp_approvals := dict_set approval_id (row\<lparr>ap_revoked_revision := Some revision\<rparr>) (rp_approvals s)\<rparr>)))"

definition approval_usable :: "Repository \<Rightarrow> string \<Rightarrow> int \<Rightarrow> bool" where
  "approval_usable s approval_id now =
     (case dict_get (rp_approvals s) approval_id of
        None \<Rightarrow> False
      | Some row \<Rightarrow> if ap_revoked_revision row \<noteq> None then False else ap_expires_at row > now)"

section \<open>Checkpoints\<close>

definition decode_text :: "string \<Rightarrow> string result" where
  "decode_text data = (case utf8_decode data of None \<Rightarrow> Inl (PyError ''UnicodeDecodeError'') | Some t \<Rightarrow> Ok t)"

definition write_checkpoint :: "hash_env \<Rightarrow> string \<Rightarrow> int \<Rightarrow> pymap \<Rightarrow> (Repository, unit) op" where
  "write_checkpoint H stream_id format_version body =
     obind (olift (canonical_bytes H (obj_dict body))) (\<lambda>data.
     tx (obind (olift (decode_text data)) (\<lambda>t.
       oput (\<lambda>s. s\<lparr>rp_checkpoints := dict_set stream_id \<lparr>cp_format_version = format_version,
         cp_body_digest = raw_digest H data, cp_body = t\<rparr> (rp_checkpoints s)\<rparr>))))"

definition read_checkpoint :: "hash_env \<Rightarrow> Repository \<Rightarrow> string \<Rightarrow> int \<Rightarrow> json result" where
  "read_checkpoint H s stream_id reader_version =
     (case dict_get (rp_checkpoints s) stream_id of
        None \<Rightarrow> raise ''CORRUPT_CHECKPOINT'' ''no checkpoint recorded''
      | Some row \<Rightarrow>
          if cp_format_version row > reader_version
          then raise ''VERSION_CONFLICT'' (''checkpoint v'' @ str_int (cp_format_version row) @ '' exceeds reader v''
            @ str_int reader_version)
          else if raw_digest H (utf8 (cp_body row)) \<noteq> cp_body_digest row
          then raise ''CORRUPT_CHECKPOINT'' ''checkpoint digest mismatch''
          else loads (cp_body row))"

section \<open>Calls\<close>

text \<open>
  Everything clients do to a repository, deletion of streams included; the checkpoints of the streams in
  \<open>W\<close> may be written.
\<close>

inductive repo_call :: "hash_env \<Rightarrow> string set \<Rightarrow> Repository \<Rightarrow> Repository \<Rightarrow> bool" for H W where
  ledger: "ledger_call H (rp_ledger s) l \<Longrightarrow> repo_call H W s (s\<lparr>rp_ledger := l\<rparr>)"
| deleted: "delete_stream st at (rp_ledger s) = (r, l) \<Longrightarrow> repo_call H W s (s\<lparr>rp_ledger := l\<rparr>)"
| effect: "reserve_effect H sc st k q s = (r, t) \<Longrightarrow> repo_call H W s t"
| dispatched: "dispatch_effect k s = (r, t) \<Longrightarrow> repo_call H W s t"
| unknown: "mark_effect_unknown k s = (r, t) \<Longrightarrow> repo_call H W s t"
| node: "reserve_node H sc st n s = (r', t) \<Longrightarrow> repo_call H W s t"
| response: "record_response H sc st q p s = (r, t) \<Longrightarrow> repo_call H W s t"
| approval: "record_approval H sc a sd ex s = (r, t) \<Longrightarrow> repo_call H W s t"
| revoked: "revoke_approval a n s = (r, t) \<Longrightarrow> repo_call H W s t"
| checkpoint: "st \<in> W \<Longrightarrow> write_checkpoint H st v b s = (r, t) \<Longrightarrow> repo_call H W s t"

lemma on_ledger_Ok: "on_ledger m s = (Inr x, t) \<longleftrightarrow> (\<exists>l. m (rp_ledger s) = (Inr x, l) \<and> t = s\<lparr>rp_ledger := l\<rparr>)"
  by (auto simp: on_ledger_def Let_def split: prod.splits)

lemma require_scope_state: "require_scope sc st s = (r, t) \<Longrightarrow> t = s"
  by (auto simp: require_scope_def split: option.splits if_splits)

lemma scoped_Ok: "obind (on_ledger (require_scope sc st)) f s = (Inr x, t) \<longleftrightarrow>
    (\<exists>l. require_scope sc st (rp_ledger s) = (Inr (), l)) \<and> f () s = (Inr x, t)"
  by (auto simp: obind_Ok_iff on_ledger_Ok dest: require_scope_state)

lemma olift_Ok: "obind (olift r) f s = (Inr x, t) \<longleftrightarrow> (\<exists>y. r = Inr y \<and> f y s = (Inr x, t))"
  by (cases r) (simp_all add: obind_def)

text \<open>What a call does to the tables: it is refused, or it writes one of them as follows.\<close>

lemma repo_call_cases:
  assumes "repo_call H W s t"
  obtains (same) "t = s"
  | (ledger) l where "t = s\<lparr>rp_ledger := l\<rparr>"
  | (reserved) k row where "dict_get (rp_effects s) k = None" "t = s\<lparr>rp_effects := dict_set k row (rp_effects s)\<rparr>"
  | (moved) k old new where "effect_status s k = Some old" "(old, new) \<in> {(''reserved'', ''dispatched''), (''dispatched'', ''unknown'')}"
      "t = set_effect k new s"
  | (node) k d where "dict_get (rp_nodes s) k = None" "t = s\<lparr>rp_nodes := dict_set k d (rp_nodes s)\<rparr>"
  | (response) k d where "t = s\<lparr>rp_responses := dict_set k d (rp_responses s)\<rparr>"
  | (approval) a row l subs where "dict_get (rp_approvals s) a = None"
      "t = s\<lparr>rp_ledger := l, rp_subjects := subs, rp_approvals := dict_set a row (rp_approvals s)\<rparr>"
  | (revoked) a row n where "dict_get (rp_approvals s) a = Some row"
      "t = s\<lparr>rp_approvals := dict_set a (row\<lparr>ap_revoked_revision := Some n\<rparr>) (rp_approvals s)\<rparr>"
  | (checkpoint) st row where "st \<in> W" "t = s\<lparr>rp_checkpoints := dict_set st row (rp_checkpoints s)\<rparr>"
  using assms
proof (cases rule: repo_call.cases)
  case (effect sc st k q r)
  show thesis
  proof (cases r)
    case (Inl e)
    with effect have "t = s" by (auto simp: reserve_effect_def obind_err_iff dest: tx_err_unchanged)
    then show thesis by (rule same)
  next
    case (Inr b)
    show thesis
    proof (cases "dict_get (rp_effects s) k")
      case None
      with effect Inr reserved [OF None] show thesis by (auto simp: reserve_effect_def olift_Ok tx_Ok_iff scoped_Ok)
    next
      case (Some row)
      with effect Inr have "t = s" by (auto simp: reserve_effect_def olift_Ok tx_Ok_iff scoped_Ok split: if_splits)
      then show thesis by (rule same)
    qed
  qed
next
  case (dispatched k r)
  then show thesis by (auto simp: dispatch_effect_def tx_def raise_def split: if_splits intro: same moved)
next
  case (unknown k r)
  then show thesis by (auto simp: mark_effect_unknown_def tx_def split: if_splits intro: same moved)
next
  case (node sc st n r)
  show thesis
  proof (cases r)
    case (Inl e)
    with node have "t = s" by (auto simp: reserve_node_def dest: tx_err_unchanged)
    then show thesis by (rule same)
  next
    case (Inr d)
    with node show thesis
      by (auto simp: reserve_node_def tx_Ok_iff scoped_Ok split: option.splits sum.splits intro: same that(5))
  qed
next
  case (response sc st q p r)
  show thesis
  proof (cases r)
    case (Inl e)
    with response have "t = s" by (auto simp: record_response_def dest: tx_err_unchanged)
    then show thesis by (rule same)
  next
    case (Inr d)
    with response show thesis
      by (auto simp: record_response_def tx_Ok_iff scoped_Ok olift_Ok intro: that(6))
  qed
next
  case (approval sc a sd ex r)
  show thesis
  proof (cases r)
    case (Inl e)
    with approval have "t = s" by (auto simp: record_approval_def dest: tx_err_unchanged)
    then show thesis by (rule same)
  next
    case (Inr d)
    with approval obtain x l where "dict_get (rp_approvals s) a = None"
      "t = s\<lparr>rp_ledger := l, rp_subjects := insert_new sd (sc, x) (rp_subjects s),
         rp_approvals := dict_set a \<lparr>ap_subject_digest = sd, ap_scope_id = sc, ap_expires_at = ex, ap_revoked_revision = None\<rparr>
           (rp_approvals s)\<rparr>"
      by (auto simp: record_approval_def tx_Ok_iff obind_Ok_iff on_ledger_Ok insert_approval_def dict_get_None_iff
          simp del: set_map split: if_splits)
    then show thesis by (rule that(7))
  qed
next
  case (revoked a n r)
  then show thesis
    by (auto simp: revoke_approval_def tx_def split: option.splits intro: same that(8))
next
  case (checkpoint st v b r)
  show thesis
  proof (cases r)
    case (Inl e)
    with checkpoint have "t = s" by (auto simp: write_checkpoint_def obind_err_iff dest: tx_err_unchanged)
    then show thesis by (rule same)
  next
    case (Inr d)
    with checkpoint show thesis
      by (auto simp: write_checkpoint_def tx_Ok_iff olift_Ok intro: that(9))
  qed
qed (auto intro: ledger)

section \<open>Effects are dispatched once\<close>

lemma set_effect_get: "dict_get (rp_effects (set_effect k new s)) k' =
    (if k' = k then map_option (\<lambda>row. row\<lparr>er_status := new\<rparr>) (dict_get (rp_effects s) k) else dict_get (rp_effects s) k')"
  by (simp add: set_effect_def split: option.split)

lemma set_effect_sel [simp]:
  "rp_nodes (set_effect k new s) = rp_nodes s" "rp_approvals (set_effect k new s) = rp_approvals s"
  "rp_checkpoints (set_effect k new s) = rp_checkpoints s" "rp_ledger (set_effect k new s) = rp_ledger s"
  by (simp_all add: set_effect_def split: option.split)

text \<open>An effect that left \<open>reserved\<close>, with the digest of its request.\<close>

definition effect_gone :: "string \<Rightarrow> string \<Rightarrow> Repository \<Rightarrow> bool" where
  "effect_gone k rd s \<longleftrightarrow> (\<exists>row. dict_get (rp_effects s) k = Some row \<and> er_request_digest row = rd \<and>
     er_status row \<noteq> ''reserved'')"

lemma call_effect_gone: "repo_call H W s t \<Longrightarrow> effect_gone k rd s \<Longrightarrow> effect_gone k rd t"
proof (erule repo_call_cases)
  fix k' old new
  assume "effect_status s k' = Some old" "(old, new) \<in> {(''reserved'', ''dispatched''), (''dispatched'', ''unknown'')}"
    "t = set_effect k' new s" "effect_gone k rd s"
  then show "effect_gone k rd t" by (auto simp: effect_gone_def set_effect_get)
qed (auto simp: effect_gone_def)

lemma calls_effect_gone: "(repo_call H W)\<^sup>*\<^sup>* s t \<Longrightarrow> effect_gone k rd s \<Longrightarrow> effect_gone k rd t"
  by (induction rule: rtranclp_induct) (auto dest: call_effect_gone)

lemma dispatch_effect_Ok: "dispatch_effect k s = (Inr x, t) \<longleftrightarrow>
    effect_status s k = Some ''reserved'' \<and> t = set_effect k ''dispatched'' s"
  by (auto simp: dispatch_effect_def tx_def raise_def)


section \<open>Revoked approvals and standing decisions\<close>

definition approval_revoked :: "string \<Rightarrow> Repository \<Rightarrow> bool" where
  "approval_revoked a s \<longleftrightarrow> (\<exists>row. dict_get (rp_approvals s) a = Some row \<and> ap_revoked_revision row \<noteq> None)"

lemma call_revoked: "repo_call H W s t \<Longrightarrow> approval_revoked a s \<Longrightarrow> approval_revoked a t"
  by (erule repo_call_cases) (auto simp: approval_revoked_def)

lemma calls_revoked: "(repo_call H W)\<^sup>*\<^sup>* s t \<Longrightarrow> approval_revoked a s \<Longrightarrow> approval_revoked a t"
  by (induction rule: rtranclp_induct) (auto dest: call_revoked)

definition approval_expiry :: "string \<Rightarrow> int \<Rightarrow> Repository \<Rightarrow> bool" where
  "approval_expiry a ex s \<longleftrightarrow> (\<exists>row. dict_get (rp_approvals s) a = Some row \<and> ap_expires_at row = ex)"

lemma calls_expiry: "(repo_call H W)\<^sup>*\<^sup>* s t \<Longrightarrow> approval_expiry a ex s \<Longrightarrow> approval_expiry a ex t"
proof (induction rule: rtranclp_induct)
  case (step t u)
  from step.hyps(2) step.IH [OF step.prems] show ?case by (elim repo_call_cases) (auto simp: approval_expiry_def)
qed simp

lemma record_approval_known:
  assumes "a \<in> set (dict_keys (rp_approvals s))"
  shows "\<exists>e. record_approval H sc a sd ex s = (Inl e, s)"
proof -
  obtain r l where p: "put_artifact H sc [CHR 0x7B, CHR 0x7D] (rp_ledger s) = (r, l)"
    by (cases "put_artifact H sc [CHR 0x7B, CHR 0x7D] (rp_ledger s)")
  with assms show ?thesis
    by (cases r) (simp_all add: record_approval_def tx_def obind_def on_ledger_def insert_approval_def integrity_error_def
        del: set_map)
qed

text \<open>
  A recorded approval binds for good: after any later calls it is usable at no time from its expiry on,
  whatever is recorded since; once revoked it is never usable again; and its id cannot be recorded a second time.
\<close>

theorem approval_cannot_return:
  assumes "record_approval H sc a sd ex s = (Inr (), t)" "(repo_call H W)\<^sup>*\<^sup>* t u"
  shows "(\<forall>now \<ge> ex. \<not> approval_usable u a now) \<and> (\<exists>e. record_approval H sc' a sd' ex' u = (Inl e, u)) \<and>
    (\<forall>n v w now. revoke_approval a n u = (Inr (), v) \<and> (repo_call H W)\<^sup>*\<^sup>* v w \<longrightarrow> \<not> approval_usable w a now)"
proof -
  from assms(1) have "approval_expiry a ex t"
    by (auto simp: record_approval_def tx_Ok_iff obind_Ok_iff on_ledger_Ok insert_approval_def approval_expiry_def split: if_splits)
  from calls_expiry [OF assms(2) this] obtain row where row: "dict_get (rp_approvals u) a = Some row" "ap_expires_at row = ex"
    unfolding approval_expiry_def by blast
  then have "a \<in> set (dict_keys (rp_approvals u))" by (metis dict_get_None_iff option.distinct(1))
  moreover have "\<not> approval_usable w a now" if "revoke_approval a n u = (Inr (), v)" "(repo_call H W)\<^sup>*\<^sup>* v w" for n v w now
  proof -
    from that(1) row have "approval_revoked a v" by (auto simp: revoke_approval_def tx_def approval_revoked_def)
    from calls_revoked [OF that(2) this] show ?thesis by (auto simp: approval_revoked_def approval_usable_def)
  qed
  moreover have "\<forall>now \<ge> ex. \<not> approval_usable u a now" using row by (simp add: approval_usable_def)
  ultimately show ?thesis using record_approval_known by blast
qed

section \<open>Checkpoints come back as they were written\<close>

lemma calls_checkpoint: "(repo_call H (- {st}))\<^sup>*\<^sup>* s t \<Longrightarrow> dict_get (rp_checkpoints t) st = dict_get (rp_checkpoints s) st"
proof (induction rule: rtranclp_induct)
  case (step t u)
  from step.hyps(2) step.IH show ?case by (elim repo_call_cases) auto
qed simp

text \<open>
  Claim C18. A checkpoint round-trips: after any calls that do not write the stream's checkpoint again, deletions
  included, a reader of its version or a newer one gets back the very document that was written, and an older
  reader is refused.
\<close>

theorem checkpoint_roundtrip:
  assumes "write_checkpoint H st v body s = (Inr (), t)" "(repo_call H (- {st}))\<^sup>*\<^sup>* t u"
  shows "\<exists>j. normalize H (obj_dict body) = Inr j \<and>
    (if v \<le> reader then \<exists>d. read_checkpoint H u st reader = Inr d \<and> json_abs d = json_abs j
     else fails_with ''VERSION_CONFLICT'' (read_checkpoint H u st reader))"
proof -
  from assms(1) obtain j where j: "normalize H (obj_dict body) = Inr j"
    and t: "dict_get (rp_checkpoints t) st =
      Some \<lparr>cp_format_version = v, cp_body_digest = raw_digest H (utf8 (dumps j)), cp_body = dumps j\<rparr>"
    by (auto simp: write_checkpoint_def olift_Ok tx_Ok_iff canonical_bytes_Ok_iff decode_text_def)
  with calls_checkpoint [OF assms(2)] loads_canonical [OF j] show ?thesis
    by (auto simp: read_checkpoint_def)
qed

text \<open>A body that was changed under its digest is refused, unless the digests collide.\<close>

lemma tampered_checkpoint_refused:
  assumes "dict_get (rp_checkpoints s) st = Some row" "cp_format_version row \<le> reader"
    and "cp_body_digest row = raw_digest H (utf8 b)" "raw_digest H (utf8 (cp_body row)) \<noteq> raw_digest H (utf8 b)"
  shows "read_checkpoint H s st reader = raise ''CORRUPT_CHECKPOINT'' ''checkpoint digest mismatch''"
  using assms by (simp add: read_checkpoint_def)

section \<open>A run on a concrete repository\<close>

definition small_ledger :: Ledger where
  "small_ledger = empty_ledger\<lparr>lg_scopes := [(''sc'', (''t'', ''u'', ''w'')), (''sc2'', (''t'', ''u2'', ''w''))],
     lg_streams := [(''st'', \<lparr>st_scope_id = ''sc'', st_revision = 0, st_entity_type = ''run'', st_status = ''open''\<rparr>),
       (''st2'', \<lparr>st_scope_id = ''sc2'', st_revision = 0, st_entity_type = ''run'', st_status = ''open''\<rparr>)]\<rparr>"

definition small_repo :: Repository where
  "small_repo = \<lparr>rp_ledger = small_ledger, rp_effects = [], rp_nodes = [], rp_responses = [], rp_subjects = [],
     rp_approvals = [], rp_checkpoints = []\<rparr>"

definition reserved_repo :: Repository where
  "reserved_repo = snd (reserve_effect plain_hash ''sc'' ''st'' ''mail'' [] small_repo)"

lemma reserved_repo_runs:
  "effect_status reserved_repo ''mail'' = Some ''reserved''"
  "fst (reserve_effect plain_hash ''sc'' ''st'' ''mail'' [] small_repo) = Inr True"
  by code_simp+


lemma approval_cannot_return_witness:
  "\<not> approval_usable (snd (record_approval plain_hash ''sc'' ''a'' ''plan'' 9 small_repo)) ''a'' 9"
proof -
  have "fst (record_approval plain_hash ''sc'' ''a'' ''plan'' 9 small_repo) = Inr ()" by code_simp
  then have "record_approval plain_hash ''sc'' ''a'' ''plan'' 9 small_repo =
      (Inr (), snd (record_approval plain_hash ''sc'' ''a'' ''plan'' 9 small_repo))" by (metis prod.collapse)
  from approval_cannot_return [OF this rtranclp.rtrancl_refl] show ?thesis by simp
qed

definition node_position :: pymap where
  "node_position = [(''step'', PInt 3), (''at'', PStr ''review'')]"

lemma checkpoint_roundtrip_witness:
  "\<exists>d. read_checkpoint plain_hash (snd (dispatch_effect ''mail'' (snd (write_checkpoint plain_hash ''st'' 2 node_position reserved_repo))))
     ''st'' 2 = Inr d \<and> json_abs d = json_abs (CDict [(''step'', CInt 3), (''at'', CStr ''review'')])"
proof -
  let ?t = "snd (write_checkpoint plain_hash ''st'' 2 node_position reserved_repo)"
  have "fst (write_checkpoint plain_hash ''st'' 2 node_position reserved_repo) = Inr ()" by code_simp
  then have w: "write_checkpoint plain_hash ''st'' 2 node_position reserved_repo = (Inr (), ?t)" by (metis prod.collapse)
  have "repo_call plain_hash (- {''st''}) ?t (snd (dispatch_effect ''mail'' ?t))"
    by (rule repo_call.dispatched [OF prod.collapse [symmetric]])
  then have "(repo_call plain_hash (- {''st''}))\<^sup>*\<^sup>* ?t (snd (dispatch_effect ''mail'' ?t))" by (rule r_into_rtranclp)
  from checkpoint_roundtrip [OF w this, of 2] obtain j where
    j: "normalize plain_hash (obj_dict node_position) = Inr j"
    "\<exists>d. read_checkpoint plain_hash (snd (dispatch_effect ''mail'' ?t)) ''st'' 2 = Inr d \<and> json_abs d = json_abs j" by auto
  have "normalize plain_hash (obj_dict node_position) = Inr (CDict [(''step'', CInt 3), (''at'', CStr ''review'')])"
    by code_simp
  with j show ?thesis by simp
qed

text \<open>
  The key of an effect is global: the first scope's reservation answers the same request of another scope, which
  is told that its effect is already reserved.
\<close>

lemma effect_keys_shared: "fst (reserve_effect plain_hash ''sc2'' ''st2'' ''mail'' [] reserved_repo) = Inr False"
  by code_simp

text \<open>Deleting a stream leaves its checkpoint readable.\<close>

lemma deleted_checkpoint_readable: "read_checkpoint H (s\<lparr>rp_ledger := l\<rparr>) st reader = read_checkpoint H s st reader"
  by (simp add: read_checkpoint_def)

text \<open>A node of a stream keeps the decision it first got.\<close>

lemma node_decision_kept:
  assumes "reserve_node H sc st n s = (Inr d, t)" "(repo_call H W)\<^sup>*\<^sup>* t u" "stream_scope (rp_ledger u) st = Some sc"
  shows "reserve_node H sc st n u = (Inr d, u)"
proof -
  from assms(1) have "dict_get (rp_nodes t) (st, n) = Some d"
    by (auto simp: reserve_node_def tx_Ok_iff scoped_Ok split: option.splits sum.splits)
  with assms(2) have "dict_get (rp_nodes u) (st, n) = Some d"
  proof (induction rule: rtranclp_induct)
    case (step u v)
    from step.hyps(2) step.IH [OF step.prems] show ?case by (elim repo_call_cases) auto
  qed
  with assms(3) show ?thesis by (simp add: reserve_node_def obind_def on_ledger_def require_scope_def tx_def Let_def)
qed

end
