(* ===== verification/Transitions.thy ===== *)
theory Transitions
  imports PyText Lifecycle "HOL-Library.Sublist"
begin

text \<open>
  \<open>kernel/transitions.py\<close>: the candidate lifecycle and the governed plan lifecycle as tables of
  allowed moves with gates. The gates are separate: review evidence, a human decision and an
  execution permission, none implied by another. Runs of requests are related to the gates they
  must have passed.
\<close>

section \<open>The tables\<close>

definition TRANSITIONS :: "(string \<times> string list) list" where
  "TRANSITIONS =
    [(''proposed'', [''static_validated'', ''rejected'', ''revoked'']),
     (''static_validated'', [''evaluating'', ''rejected'', ''revoked'']),
     (''evaluating'', [''evaluated'', ''inconclusive'', ''rejected'', ''revoked'']),
     (''inconclusive'', [''evaluating'', ''rejected'', ''revoked'']),
     (''evaluated'', [''reviewed'', ''rejected'', ''revoked'']),
     (''reviewed'', [''await_approval'', ''rejected'', ''revoked'']),
     (''await_approval'', [''promoted'', ''rejected'', ''revoked'']),
     (''promoted'', [''revoked'']),
     (''rejected'', []),
     (''revoked'', [])]"

definition PLAN_TRANSITIONS :: "(string \<times> string list) list" where
  "PLAN_TRANSITIONS =
    [(''draft'', [''static_validated'', ''rejected'']),
     (''static_validated'', [''in_review'', ''rejected'']),
     (''in_review'', [''amendment_requested'', ''human_review'', ''rejected'']),
     (''amendment_requested'', [''draft'', ''rejected'']),
     (''human_review'', [''approved'', ''rejected'', ''deferred'', ''cancelled'']),
     (''deferred'', [''human_review'', ''cancelled'']),
     (''approved'', [''executable'', ''amendment_requested'', ''cancelled'']),
     (''executable'', [''executing'', ''amendment_requested'', ''cancelled'']),
     (''executing'', [''completed'', ''failed'', ''cancelled'']),
     (''completed'', []),
     (''failed'', [''draft'', ''cancelled'']),
     (''rejected'', []),
     (''cancelled'', [])]"

definition allowed_from :: "(string \<times> string list) list \<Rightarrow> string \<Rightarrow> string list" where
  "allowed_from table current = (case map_of table current of None \<Rightarrow> [] | Some ts \<Rightarrow> ts)"

section \<open>The validators\<close>

definition transition :: "string \<Rightarrow> string \<Rightarrow> bool \<Rightarrow> string result" where
  "transition current target evidence_ready =
     (if target \<notin> set (allowed_from TRANSITIONS current)
      then raise ''INVALID_TRANSITION'' (current @ '' -> '' @ target)
      else if target = ''promoted'' \<and> \<not> evidence_ready
      then raise ''PROMOTION_NOT_AUTHORIZED'' ''verified receipts are required''
      else Ok target)"

definition plan_transition :: "string \<Rightarrow> string \<Rightarrow> bool \<Rightarrow> bool \<Rightarrow> bool \<Rightarrow> string result" where
  "plan_transition current target reviewed decision_ready permit_ready =
     (if target \<notin> set (allowed_from PLAN_TRANSITIONS current)
      then raise ''INVALID_TRANSITION'' (current @ '' -> '' @ target)
      else if current = ''in_review'' \<and> target = ''human_review'' \<and> \<not> reviewed
      then raise ''REVIEW_REQUIRED'' ''independent review must finish first''
      else if target = ''approved'' \<and> \<not> decision_ready
      then raise ''APPROVAL_REQUIRED'' ''no approved plan decision exists''
      else if target = ''executable'' \<and> \<not> permit_ready
      then raise ''APPROVAL_REQUIRED'' ''plan approval is not execution permission''
      else Ok target)"

section \<open>Runs of requests\<close>

text \<open>Requests to the candidate lifecycle: a target with the evidence flag.\<close>

definition cand_step :: "string \<Rightarrow> string \<times> bool \<Rightarrow> string result" where
  "cand_step s r = transition s (fst r) (snd r)"

record plan_request =
  pr_target :: string
  pr_reviewed :: bool
  pr_decision :: bool
  pr_permit :: bool

definition plan_step :: "string \<Rightarrow> plan_request \<Rightarrow> string result" where
  "plan_step s r = plan_transition s (pr_target r) (pr_reviewed r) (pr_decision r) (pr_permit r)"

lemma transition_Ok_iff:
  "transition c t ev = Inr t' \<longleftrightarrow>
     t' = t \<and> t \<in> set (allowed_from TRANSITIONS c) \<and> (t = ''promoted'' \<longrightarrow> ev)"
  by (auto simp: transition_def)

lemma plan_transition_Ok_iff:
  "plan_transition c t rv dr pr = Inr t' \<longleftrightarrow>
     t' = t \<and> t \<in> set (allowed_from PLAN_TRANSITIONS c) \<and>
     (c = ''in_review'' \<and> t = ''human_review'' \<longrightarrow> rv) \<and>
     (t = ''approved'' \<longrightarrow> dr) \<and> (t = ''executable'' \<longrightarrow> pr)"
  by (auto simp: plan_transition_def)

lemma table_closed:
  assumes "list_all (\<lambda>(c, ts). subset_list ts (map fst table)) table" "t \<in> set (allowed_from table c)"
  shows "c \<in> set (map fst table) \<and> t \<in> set (map fst table)"
proof -
  from assms(2) obtain ts where ts: "(c, ts) \<in> set table" "t \<in> set ts"
    by (cases "map_of table c") (auto simp: allowed_from_def dest: map_of_SomeD)
  with assms(1) have "set ts \<subseteq> set (map fst table)" by (auto simp: list_all_iff)
  with ts show ?thesis by force
qed

interpretation cand: lifecycle cand_step "set (map fst TRANSITIONS)" fst
proof unfold_locales
  fix s r s'
  assume *: "cand_step s r = Inr s'"
  show "s \<in> set (map fst TRANSITIONS) \<and> s' \<in> set (map fst TRANSITIONS)"
    by (rule table_closed) (use * in \<open>simp_all add: cand_step_def transition_Ok_iff, simp add: TRANSITIONS_def\<close>)
  show "s' = fst r" using * by (simp add: cand_step_def transition_Ok_iff)
qed

interpretation plan: lifecycle plan_step "set (map fst PLAN_TRANSITIONS)" pr_target
proof unfold_locales
  fix s r s'
  assume *: "plan_step s r = Inr s'"
  show "s \<in> set (map fst PLAN_TRANSITIONS) \<and> s' \<in> set (map fst PLAN_TRANSITIONS)"
    by (rule table_closed) (use * in \<open>simp_all add: plan_step_def plan_transition_Ok_iff, simp add: PLAN_TRANSITIONS_def\<close>)
  show "s' = pr_target r" using * by (simp add: plan_step_def plan_transition_Ok_iff)
qed

definition cand_run :: "string \<Rightarrow> (string \<times> bool) list \<Rightarrow> string result" where
  "cand_run = cand.run"

definition plan_run :: "string \<Rightarrow> plan_request list \<Rightarrow> string result" where
  "plan_run = plan.run"

lemmas cand_run_simps [simp] = cand.run.simps [folded cand_run_def]
lemmas plan_run_simps [simp] = plan.run.simps [folded plan_run_def]
lemmas cand_run_leaves = cand.run_leaves [folded cand_run_def]
lemmas plan_run_leaves = plan.run_leaves [folded plan_run_def]

section \<open>Candidates\<close>

text \<open>
  A set of states closed but for one way out, \<open>g\<close>: a run that ends outside has made the request
  for \<open>g\<close>, and the rest of the run starts there.
\<close>

definition only_exit :: "(string \<times> string list) list \<Rightarrow> string list \<Rightarrow> string \<Rightarrow> bool" where
  "only_exit table A g \<longleftrightarrow>
     g \<notin> set A \<and> list_all (\<lambda>s. list_all (\<lambda>t. t \<in> set A \<or> t = g) (allowed_from table s)) A"

lemma only_exitD: "only_exit T A g \<Longrightarrow> s \<in> set A \<Longrightarrow> t \<in> set (allowed_from T s) \<Longrightarrow> t \<in> set A \<or> t = g"
  by (auto simp: only_exit_def list_all_iff)

lemma cand_exit:
  assumes "cand_run s rs = Inr s'" "s \<in> set A" "s' \<notin> set A" "only_exit TRANSITIONS A g"
  obtains xs r ys t where "rs = xs @ r # ys" "fst r = g" "t \<in> set A" "cand_step t r = Inr g" "cand_run g ys = Inr s'"
proof -
  from cand_run_leaves [OF assms(1-3)] obtain xs r ys t where
    r: "rs = xs @ r # ys" "t \<in> set A" "fst r \<notin> set A" "cand_step t r = Inr (fst r)" "cand_run (fst r) ys = Inr s'"
    by blast
  then have "fst r \<in> set (allowed_from TRANSITIONS t)" by (simp add: cand_step_def transition_Ok_iff)
  with only_exitD [OF assms(4) r(2)] r(3) have "fst r = g" by blast
  with r that show ?thesis by blast
qed

lemma cand_gate:
  assumes "only_exit TRANSITIONS A g" "s \<in> set A" "s' \<notin> set A"
    and "\<And>ys. cand_run g ys = Inr s' \<Longrightarrow> subseq gs (map fst ys)"
    and "cand_run s rs = Inr s'"
  shows "subseq (g # gs) (map fst rs)"
proof -
  obtain xs r ys t where "rs = xs @ r # ys" "fst r = g" "cand_run g ys = Inr s'"
    using cand_exit [OF assms(5,2,3,1)] by metis
  with assms(4) have "subseq (g # gs) (map fst (r # ys))" by simp
  with \<open>rs = xs @ r # ys\<close> show ?thesis by (metis list_emb_append2 map_append)
qed

lemmas table_eval = only_exit_def allowed_from_def TRANSITIONS_def PLAN_TRANSITIONS_def

definition cand_pipeline :: "string list" where
  "cand_pipeline = [''static_validated'', ''evaluating'', ''evaluated'', ''reviewed'', ''await_approval'', ''promoted'']"

lemma pipeline_subseq:
  assumes "cand_run ''proposed'' rs = Inr ''promoted''"
  shows "subseq cand_pipeline (map fst rs)"
  unfolding cand_pipeline_def
proof (rule cand_gate [OF _ _ _ _ assms, of "[''rejected'', ''revoked'', ''proposed'']"])
  fix ys
  assume "cand_run ''static_validated'' ys = Inr ''promoted''"
  then show "subseq [''evaluating'', ''evaluated'', ''reviewed'', ''await_approval'', ''promoted''] (map fst ys)"
  proof (rule cand_gate [rotated -1, of _ _ _ "[''rejected'', ''revoked'', ''static_validated'']"])
    fix ys
    assume "cand_run ''evaluating'' ys = Inr ''promoted''"
    then show "subseq [''evaluated'', ''reviewed'', ''await_approval'', ''promoted''] (map fst ys)"
    proof (rule cand_gate [rotated -1, of _ _ _ "[''rejected'', ''revoked'', ''evaluating'', ''inconclusive'']"])
      fix ys
      assume "cand_run ''evaluated'' ys = Inr ''promoted''"
      then show "subseq [''reviewed'', ''await_approval'', ''promoted''] (map fst ys)"
      proof (rule cand_gate [rotated -1, of _ _ _ "[''rejected'', ''revoked'', ''evaluated'']"])
        fix ys
        assume "cand_run ''reviewed'' ys = Inr ''promoted''"
        then show "subseq [''await_approval'', ''promoted''] (map fst ys)"
        proof (rule cand_gate [rotated -1, of _ _ _ "[''rejected'', ''revoked'', ''reviewed'']"])
          fix ys
          assume "cand_run ''await_approval'' ys = Inr ''promoted''"
          then show "subseq [''promoted''] (map fst ys)"
            by (rule cand_gate [rotated -1, of _ _ _ "[''rejected'', ''revoked'', ''await_approval'']"])
              (simp_all add: table_eval)
        qed (simp_all add: table_eval)
      qed (simp_all add: table_eval)
    qed (simp_all add: table_eval)
  qed (simp_all add: table_eval)
qed (simp_all add: table_eval)

lemma promoted_evidence:
  assumes "cand_run ''proposed'' rs = Inr ''promoted''"
  shows "(''promoted'', True) \<in> set rs"
proof -
  let ?A = "[''proposed'', ''static_validated'', ''evaluating'', ''inconclusive'', ''evaluated'', ''reviewed'',
    ''await_approval'', ''rejected'', ''revoked'']"
  obtain xs r ys t where r: "rs = xs @ r # ys" "fst r = ''promoted''" "cand_step t r = Inr ''promoted''"
    by (rule cand_exit [OF assms, of ?A "''promoted''"]) (auto simp: table_eval)
  then have "snd r" by (simp add: cand_step_def transition_Ok_iff)
  with r have "r = (''promoted'', True)" by (cases r) auto
  with r(1) show ?thesis by simp
qed

text \<open>
  A candidate is promoted only through the whole pipeline: static validation, evaluation,
  review and the approval wait were each requested, in that order, and promotion itself was requested
  with verified evidence.
\<close>

theorem promotion_needs_pipeline:
  assumes "cand_run ''proposed'' rs = Inr ''promoted''"
  shows "subseq cand_pipeline (map fst rs) \<and> (''promoted'', True) \<in> set rs"
  using pipeline_subseq [OF assms] promoted_evidence [OF assms] by blast

lemma promotion_needs_pipeline_witness:
  "subseq cand_pipeline
     [''static_validated'', ''evaluating'', ''inconclusive'', ''evaluating'', ''evaluated'', ''reviewed'',
      ''await_approval'', ''promoted'']"
  using promotion_needs_pipeline
    [of "[(''static_validated'', False), (''evaluating'', False), (''inconclusive'', False),
       (''evaluating'', False), (''evaluated'', False), (''reviewed'', False), (''await_approval'', False),
       (''promoted'', True)]"]
  by (simp add: cand_step_def transition_def table_eval)

text \<open>
  Refusal and revocation are final: no request moves a rejected or revoked candidate, and
  a promoted one can only be revoked.
\<close>

theorem withdrawal_is_final:
  assumes "cand_run s rs = Inr s'"
  shows "(s \<in> {''rejected'', ''revoked''} \<longrightarrow> rs = [] \<and> s' = s) \<and>
         (s = ''promoted'' \<longrightarrow> s' \<in> {''promoted'', ''revoked''})"
proof (intro conjI impI)
  assume "s \<in> {''rejected'', ''revoked''}"
  then have "\<not> succeeds (cand_step s r)" for r
    by (auto simp: succeeds_iff cand_step_def transition_Ok_iff table_eval)
  then have "rs = [] \<and> s' = s" using assms unfolding cand_run_def by (rule cand.run_stuck)
  then show "rs = []" "s' = s" by simp_all
next
  assume "s = ''promoted''"
  show "s' \<in> {''promoted'', ''revoked''}"
  proof (rule ccontr)
    assume "s' \<notin> {''promoted'', ''revoked''}"
    with assms \<open>s = ''promoted''\<close> have *: "s \<in> set [''promoted'', ''revoked'']" "s' \<notin> set [''promoted'', ''revoked'']"
      by auto
    obtain xs r ys t where "t \<in> set [''promoted'', ''revoked'']" "cand_step t r = Inr (fst r)"
      "fst r \<notin> set [''promoted'', ''revoked'']"
      using cand_run_leaves [OF assms *] by blast
    then show False by (auto simp: cand_step_def transition_Ok_iff table_eval)
  qed
qed

lemma withdrawal_is_final_witness:
  "cand_run ''promoted'' [(''revoked'', False)] = Inr ''revoked'' \<and> ''revoked'' \<in> {''promoted'', ''revoked''}"
  using withdrawal_is_final [of "''promoted''" "[(''revoked'', False)]" "''revoked''"]
  by (simp add: cand_step_def transition_def table_eval)

section \<open>Plans\<close>

lemma plan_exit:
  assumes "plan_run s rs = Inr s'" "s \<in> set A" "s' \<notin> set A" "only_exit PLAN_TRANSITIONS A g"
  obtains xs r ys t where "rs = xs @ r # ys" "pr_target r = g" "t \<in> set A" "plan_step t r = Inr g"
    "plan_run g ys = Inr s'"
proof -
  from plan_run_leaves [OF assms(1-3)] obtain xs r ys t where
    r: "rs = xs @ r # ys" "t \<in> set A" "pr_target r \<notin> set A" "plan_step t r = Inr (pr_target r)"
      "plan_run (pr_target r) ys = Inr s'" by blast
  then have "pr_target r \<in> set (allowed_from PLAN_TRANSITIONS t)"
    by (simp add: plan_step_def plan_transition_Ok_iff)
  with only_exitD [OF assms(4) r(2)] r(3) have "pr_target r = g" by blast
  with r that show ?thesis by blast
qed

definition plan_authorised :: "string list" where
  "plan_authorised = [''executable'', ''executing'', ''completed'', ''failed'']"

text \<open>
  Execution rests on three separate gates: a plan that started as a draft and is
  executable, executing, completed or failed has passed, in this order, a request for human review
  with review evidence, an approval with a resolved decision, and a request for execution with a
  permit.
\<close>

theorem plan_execution_gated:
  assumes "plan_run ''draft'' rs = Inr s" "s \<in> set plan_authorised"
  shows "\<exists>xs r1 ys r2 zs r3 ws. rs = xs @ r1 # ys @ r2 # zs @ r3 # ws \<and>
           pr_target r1 = ''human_review'' \<and> pr_reviewed r1 \<and>
           pr_target r2 = ''approved'' \<and> pr_decision r2 \<and>
           pr_target r3 = ''executable'' \<and> pr_permit r3"
proof -
  let ?A1 = "[''draft'', ''static_validated'', ''in_review'', ''amendment_requested'', ''rejected'']"
  let ?A2 = "?A1 @ [''human_review'', ''deferred'', ''cancelled'']"
  let ?A3 = "?A2 @ [''approved'']"
  have out: "s \<notin> set ?A1" "s \<notin> set ?A2" "s \<notin> set ?A3" using assms(2) by (auto simp: plan_authorised_def)
  obtain xs r1 us t1 where 1: "rs = xs @ r1 # us" "pr_target r1 = ''human_review''" "t1 \<in> set ?A1"
    "plan_step t1 r1 = Inr ''human_review''" "plan_run ''human_review'' us = Inr s"
    by (rule plan_exit [OF assms(1) _ out(1), of "''human_review''"]) (simp_all add: table_eval)
  obtain ys r2 vs t2 where 2: "us = ys @ r2 # vs" "pr_target r2 = ''approved''"
    "plan_step t2 r2 = Inr ''approved''" "plan_run ''approved'' vs = Inr s"
    by (rule plan_exit [OF 1(5) _ out(2), of "''approved''"]) (simp_all add: table_eval)
  obtain zs r3 ws t3 where 3: "vs = zs @ r3 # ws" "pr_target r3 = ''executable''"
    "plan_step t3 r3 = Inr ''executable''"
    by (rule plan_exit [OF 2(4) _ out(3), of "''executable''"]) (simp_all add: table_eval)
  have "list_all (\<lambda>t. ''human_review'' \<in> set (allowed_from PLAN_TRANSITIONS t) \<longrightarrow> t = ''in_review'') ?A1"
    by (simp add: table_eval)
  moreover have "''human_review'' \<in> set (allowed_from PLAN_TRANSITIONS t1)"
    using 1(4) by (simp add: plan_step_def plan_transition_Ok_iff)
  ultimately have "t1 = ''in_review''" using 1(3) unfolding list_all_iff by blast
  with 1(2,4) have "pr_reviewed r1" by (simp add: plan_step_def plan_transition_Ok_iff)
  moreover have "pr_decision r2" "pr_permit r3"
    using 2(2,3) 3(2,3) by (simp_all add: plan_step_def plan_transition_Ok_iff)
  moreover have "rs = xs @ r1 # ys @ r2 # zs @ r3 # ws" using 1(1) 2(1) 3(1) by simp
  ultimately show ?thesis using 1(2) 2(2) 3(2) by blast
qed

lemma plan_execution_gated_witness:
  "\<exists>rs. plan_run ''draft'' rs = Inr ''executing'' \<and>
     (\<exists>xs r1 ys r2 zs r3 ws. rs = xs @ r1 # ys @ r2 # zs @ r3 # ws \<and>
           pr_target r1 = ''human_review'' \<and> pr_reviewed r1 \<and>
           pr_target r2 = ''approved'' \<and> pr_decision r2 \<and>
           pr_target r3 = ''executable'' \<and> pr_permit r3)"
proof -
  let ?r = "\<lambda>t a b c. \<lparr>pr_target = t, pr_reviewed = a, pr_decision = b, pr_permit = c\<rparr>"
  let ?rs = "[?r ''static_validated'' False False False, ?r ''in_review'' False False False,
    ?r ''human_review'' True False False, ?r ''deferred'' False False False,
    ?r ''human_review'' False False False, ?r ''approved'' False True False,
    ?r ''executable'' False False True, ?r ''executing'' False False False]"
  have run: "plan_run ''draft'' ?rs = Inr ''executing''"
    by (simp add: plan_step_def plan_transition_def table_eval)
  have "''executing'' \<in> set plan_authorised" by (simp add: plan_authorised_def)
  from plan_execution_gated [OF run this] run show ?thesis by blast
qed

end
