(* ===== verification/Approvals.thy ===== *)
theory Approvals
  imports Canonical
begin

text \<open>
  \<open>kernel/approvals.py\<close>: signed permits and the human approval desk. Ed25519 is not part of the
  repository: key generation, signing and verification are parameters, gathered in \<open>sig_env\<close>, and
  what the theorems ask of them are named hypotheses. The desk is a record of its dictionaries; its
  operations return the state with the result, so that an exception keeps what was written before.
\<close>

section \<open>Permits\<close>

definition PURPOSES :: "string list" where
  "PURPOSES = [''plan_approval'', ''execute'', ''spec'', ''release'']"

record SignedPermit =
  pm_permit_id :: string
  pm_subject_digest :: string
  pm_shown_digest :: string
  pm_user_event_id :: string
  pm_scope_id :: string
  pm_purpose :: string
  pm_audience :: string
  pm_nonce :: string
  pm_issued_at :: int
  pm_expires_at :: int
  pm_signature :: string

text \<open>Ed25519: a private key signs, a public key checks a signature over a message.\<close>

record ('sk, 'pk) sig_env =
  sg_sign :: "'sk \<Rightarrow> string \<Rightarrow> string"
  sg_verify :: "'pk \<Rightarrow> string \<Rightarrow> string \<Rightarrow> bool"

text \<open>\<open>bytes.hex()\<close> and \<open>bytes.fromhex\<close>, which skips ASCII white space between bytes.\<close>

definition to_hex :: "string \<Rightarrow> string" where
  "to_hex bs = concat (map (\<lambda>b. [hex_digit (of_char b div 16), hex_digit (of_char b mod 16)]) bs)"

definition hex_value :: "char \<Rightarrow> nat option" where
  "hex_value c =
     (let n = of_char c :: nat in
      if 48 \<le> n \<and> n \<le> 57 then Some (n - 48)
      else if 97 \<le> n \<and> n \<le> 102 then Some (n - 87)
      else if 65 \<le> n \<and> n \<le> 70 then Some (n - 55)
      else None)"

definition ascii_space :: "char \<Rightarrow> bool" where
  "ascii_space c \<longleftrightarrow> (let n = of_char c :: nat in n = 32 \<or> 9 \<le> n \<and> n \<le> 13)"

fun from_hex :: "string \<Rightarrow> string option" where
  "from_hex [] = Some []"
| "from_hex [c] = (if ascii_space c then Some [] else None)"
| "from_hex (c # d # cs) =
     (if ascii_space c then from_hex (d # cs)
      else (case (hex_value c, hex_value d) of
          (Some m, Some n) \<Rightarrow> map_option (\<lambda>bs. char_of (16 * m + n) # bs) (from_hex cs)
        | _ \<Rightarrow> None))"

definition permit_keys :: "string list" where
  "permit_keys = [''permit_id'', ''subject_digest'', ''shown_digest'', ''user_event_id'', ''scope_id'',
     ''purpose'', ''audience'', ''nonce'', ''issued_at'', ''expires_at'']"

definition permit_values :: "SignedPermit \<Rightarrow> pyobj list" where
  "permit_values p = [PStr (pm_permit_id p), PStr (pm_subject_digest p), PStr (pm_shown_digest p),
     PStr (pm_user_event_id p), PStr (pm_scope_id p), PStr (pm_purpose p), PStr (pm_audience p),
     PStr (pm_nonce p), PInt (pm_issued_at p), PInt (pm_expires_at p)]"

definition permit_body :: "hash_env \<Rightarrow> SignedPermit \<Rightarrow> string result" where
  "permit_body H permit = canonical_bytes H (obj_dict (zip permit_keys (permit_values permit)))"

text \<open>The fields of \<open>p\<close> are the keyword arguments of the call; its signature is not read.\<close>

definition issue_permit :: "hash_env \<Rightarrow> ('sk, 'pk) sig_env \<Rightarrow> 'sk \<Rightarrow> SignedPermit \<Rightarrow> SignedPermit result" where
  "issue_permit H E key p =
     (if pm_purpose p \<notin> set PURPOSES then raise ''WRONG_APPROVAL_ACTION'' (pm_purpose p)
      else
        (let unsigned = p\<lparr>pm_signature := ''''\<rparr> in
         rbind (permit_body H unsigned) (\<lambda>body.
           Ok (unsigned\<lparr>pm_signature := to_hex (sg_sign E key body)\<rparr>))))"

definition verify_permit ::
  "hash_env \<Rightarrow> ('sk, 'pk) sig_env \<Rightarrow> SignedPermit \<Rightarrow> 'pk \<Rightarrow> string \<Rightarrow> string \<Rightarrow> int \<Rightarrow> (string \<Rightarrow> bool) \<Rightarrow> unit result"
where
  "verify_permit H E permit trust_root purpose subject_digest now is_revoked =
     rbind (permit_body H permit) (\<lambda>body.
       if (case from_hex (pm_signature permit) of None \<Rightarrow> True | Some sig \<Rightarrow> \<not> sg_verify E trust_root sig body)
       then raise ''INVALID_SIGNATURE'' (pm_permit_id permit)
       else if is_revoked (pm_permit_id permit) then raise ''PERMIT_REVOKED'' (pm_permit_id permit)
       else if now \<ge> pm_expires_at permit then raise ''PERMIT_EXPIRED'' (pm_permit_id permit)
       else if pm_purpose permit \<noteq> purpose
       then raise ''WRONG_APPROVAL_ACTION'' (pm_purpose permit @ '' used as '' @ purpose)
       else if pm_subject_digest permit \<noteq> subject_digest
       then raise ''SUBJECT_MISMATCH'' (pm_subject_digest permit)
       else Ok ())"

section \<open>The desk\<close>

record DisplayRecord =
  dr_request_id :: string
  dr_display_revision :: int
  dr_display_digest :: string
  dr_subject_digest :: string
  dr_audience :: string
  dr_nonce :: string
  dr_expires_at :: int
  dr_purpose :: string
  dr_dependencies :: "(string, string list) dict"

record DecisionResult =
  res_status :: string
  res_kind :: string
  res_receipt :: "string option"
  res_permitted :: "string list"

record ApprovalDesk =
  ad_requests :: "(string, DisplayRecord) dict"
  ad_opened :: "string list"
  ad_decisions :: "(string, DecisionResult) dict"
  ad_seq :: int

definition empty_desk :: ApprovalDesk where
  "empty_desk = \<lparr>ad_requests = [], ad_opened = [], ad_decisions = [], ad_seq = 0\<rparr>"

definition display_digest :: "hash_env \<Rightarrow> string \<Rightarrow> string \<Rightarrow> string result" where
  "display_digest H text subject =
     digest H (obj_dict (zip [''text'', ''subject''] [PStr text, PStr subject]))"

definition present ::
  "hash_env \<Rightarrow> string \<Rightarrow> string \<Rightarrow> string \<Rightarrow> string \<Rightarrow> int \<Rightarrow> string \<Rightarrow> (string, string list) dict \<Rightarrow>
     (ApprovalDesk, DisplayRecord) op"
where
  "present H subject_digest shown_text audience nonce expires_at purpose dependencies d =
     (let d1 = d\<lparr>ad_seq := ad_seq d + 1\<rparr> in
      case display_digest H shown_text subject_digest of
        Inl e \<Rightarrow> (Inl e, d1)
      | Inr shown \<Rightarrow>
          (let record =
             \<lparr>dr_request_id = ''req'' @ str_int (ad_seq d1), dr_display_revision = 1, dr_display_digest = shown,
              dr_subject_digest = subject_digest, dr_audience = audience, dr_nonce = nonce,
              dr_expires_at = expires_at, dr_purpose = purpose, dr_dependencies = dependencies\<rparr>
           in (Ok record, d1\<lparr>ad_requests := dict_set (dr_request_id record) record (ad_requests d1)\<rparr>)))"

definition open_display :: "string \<Rightarrow> ApprovalDesk \<Rightarrow> ApprovalDesk" where
  "open_display request_id d =
     (if dict_get (ad_requests d) request_id \<noteq> None
      then d\<lparr>ad_opened := List.insert request_id (ad_opened d)\<rparr> else d)"

definition revise_display :: "hash_env \<Rightarrow> string \<Rightarrow> string \<Rightarrow> (ApprovalDesk, unit) op" where
  "revise_display H request_id shown_text d =
     (case dict_get (ad_requests d) request_id of
        None \<Rightarrow> (Inl (PyError ''KeyError''), d)
      | Some record \<Rightarrow>
          (case display_digest H shown_text (dr_subject_digest record) of
             Inl e \<Rightarrow> (Inl e, d)
           | Inr shown \<Rightarrow>
               (Ok (), d\<lparr>ad_requests := dict_set request_id
                  (record\<lparr>dr_display_revision := dr_display_revision record + 1, dr_display_digest := shown\<rparr>)
                  (ad_requests d)\<rparr>)))"

text \<open>The arguments of \<open>submit\<close> after the request id.\<close>

record submission =
  sb_actor :: string
  sb_nonce :: string
  sb_decision :: string
  sb_shown_text :: string
  sb_display_revision :: int
  sb_client_event_id :: string
  sb_now :: int
  sb_choices :: "string list"
  sb_amendment :: "string option"

definition marker_digest :: "hash_env \<Rightarrow> string \<Rightarrow> string \<Rightarrow> string \<Rightarrow> string result" where
  "marker_digest H request_id decision actor =
     digest H (obj_dict (zip [''request'', ''decision'', ''actor'']
       [PStr request_id, PStr decision, PStr actor]))"

definition receipt_digest :: "hash_env \<Rightarrow> DisplayRecord \<Rightarrow> string \<Rightarrow> string \<Rightarrow> string \<Rightarrow> string result" where
  "receipt_digest H record nonce actor client_event =
     digest H (obj_dict (zip [''subject'', ''nonce'', ''actor'', ''client_event'', ''purpose'']
       [PStr (dr_subject_digest record), PStr nonce, PStr actor, PStr client_event, PStr (dr_purpose record)]))"

text \<open>The identity, expiry and display checks; \<open>Some\<close> is a replayed decision returned early.\<close>

definition submit_checks ::
  "hash_env \<Rightarrow> string \<Rightarrow> submission \<Rightarrow> DisplayRecord \<Rightarrow> ApprovalDesk \<Rightarrow> DecisionResult option result"
where
  "submit_checks H request_id sb record d =
     (if sb_actor sb \<noteq> dr_audience record then raise ''ACL_DENIED'' (sb_actor sb)
      else if sb_nonce sb \<noteq> dr_nonce record then raise ''NONCE_MISMATCH'' (sb_nonce sb)
      else (case dict_get (ad_decisions d) (sb_client_event_id sb) of
          Some existing \<Rightarrow>
            rbind (marker_digest H request_id (sb_decision sb) (sb_actor sb)) (\<lambda>marker.
            rbind (marker_digest H request_id (res_kind existing) (sb_actor sb)) (\<lambda>prior.
              if marker = prior then Ok (Some existing)
              else raise ''IDEMPOTENCY_CONFLICT'' (sb_client_event_id sb)))
        | None \<Rightarrow>
            if sb_now sb \<ge> dr_expires_at record then raise ''DECISION_EXPIRED'' request_id
            else rbind (display_digest H (sb_shown_text sb) (dr_subject_digest record)) (\<lambda>shown.
              if shown \<noteq> dr_display_digest record then raise ''DISPLAY_INTEGRITY_FAILURE'' request_id
              else if sb_display_revision sb \<noteq> dr_display_revision record then raise ''STALE_DISPLAY'' request_id
              else if sb_decision sb = ''approve'' \<and> (\<exists>a \<in> set_option (sb_amendment sb). a \<noteq> [])
              then raise ''INPUT_INVALID'' ''structured approve carries no amendment''
              else Ok None)))"

definition check_choice :: "DisplayRecord \<Rightarrow> string list \<Rightarrow> string \<Rightarrow> unit result" where
  "check_choice record choices choice =
     (let required = (case dict_get (dr_dependencies record) choice of None \<Rightarrow> [] | Some ds \<Rightarrow> ds);
          missing = minus_list required choices
      in if missing \<noteq> []
         then raise ''DEPENDENCY_NOT_AUTHORIZED'' (choice @ '' requires '' @ repr_list (sorted_set missing))
         else Ok ())"

definition submit :: "hash_env \<Rightarrow> string \<Rightarrow> submission \<Rightarrow> (ApprovalDesk, DecisionResult) op" where
  "submit H request_id sb d =
     (case dict_get (ad_requests d) request_id of
        None \<Rightarrow> (raise ''UNKNOWN_REQUEST'' request_id, d)
      | Some record \<Rightarrow>
          (case submit_checks H request_id sb record d of
             Inl e \<Rightarrow> (Inl e, d)
           | Inr (Some existing) \<Rightarrow> (Ok existing, d)
           | Inr None \<Rightarrow>
               if sb_decision sb \<noteq> ''approve'' \<or> request_id \<notin> set (ad_opened d)
               then
                 (let result = \<lparr>res_status = ''deferred'', res_kind = sb_decision sb, res_receipt = None,
                                res_permitted = []\<rparr>
                  in (Ok result, d\<lparr>ad_decisions := dict_set (sb_client_event_id sb) result (ad_decisions d)\<rparr>))
               else
                 (case rbind (for_each (check_choice record (sb_choices sb)) (sb_choices sb)) (\<lambda>_.
                         receipt_digest H record (sb_nonce sb) (sb_actor sb) (sb_client_event_id sb)) of
                    Inl e \<Rightarrow> (Inl e, d)
                  | Inr receipt \<Rightarrow>
                      (let result = \<lparr>res_status = ''approved'', res_kind = sb_decision sb,
                                     res_receipt = Some receipt,
                                     res_permitted = (if sb_choices sb \<noteq> [] then sb_choices sb else [''*''])\<rparr>
                       in (Ok result,
                           d\<lparr>ad_decisions := dict_set (sb_client_event_id sb) result (ad_decisions d)\<rparr>)))))"

definition settle :: "string \<Rightarrow> int \<Rightarrow> ApprovalDesk \<Rightarrow> string result" where
  "settle request_id now d =
     (case dict_get (ad_requests d) request_id of
        None \<Rightarrow> Inl (PyError ''KeyError'')
      | Some record \<Rightarrow> if now \<ge> dr_expires_at record then Ok ''expired'' else Ok ''pending'')"

section \<open>Signatures\<close>

lemma hex_value_digit: "n < 16 \<Longrightarrow> hex_value (hex_digit n) = Some n"
  by (simp add: hex_value_def hex_digit_def Let_def of_char_of)

lemma hex_digit_not_space: "n < 16 \<Longrightarrow> \<not> ascii_space (hex_digit n)"
  by (simp add: ascii_space_def hex_digit_def Let_def of_char_of)

lemma from_hex_to_hex: "from_hex (to_hex bs) = Some bs"
proof (induction bs)
  case (Cons b bs)
  have b: "of_char b div 16 < (16::nat)" "of_char b mod 16 < (16::nat)"
    using of_char_bound [of b] by (simp_all add: less_mult_imp_div_less)
  have "char_of (16 * (of_char b div 16) + of_char b mod 16 :: nat) = b" by simp
  with Cons b show ?case by (simp add: to_hex_def hex_value_digit hex_digit_not_space)
qed (simp add: to_hex_def)

lemma permit_body_signature [simp]: "permit_body H (p\<lparr>pm_signature := s\<rparr>) = permit_body H p"
  by (simp add: permit_body_def permit_values_def)

lemma verify_permit_Ok_iff:
  "verify_permit H E p pk purpose subj now revoked = Inr () \<longleftrightarrow>
     (\<exists>body sig. permit_body H p = Inr body \<and> from_hex (pm_signature p) = Some sig \<and> sg_verify E pk sig body) \<and>
     \<not> revoked (pm_permit_id p) \<and> now < pm_expires_at p \<and> pm_purpose p = purpose \<and> pm_subject_digest p = subj"
  by (auto simp: verify_permit_def rbind_eq_Ok_iff split: option.splits)

lemma issue_permit_Ok_iff:
  "issue_permit H E key p = Inr q \<longleftrightarrow>
     pm_purpose p \<in> set PURPOSES \<and>
     (\<exists>body. permit_body H p = Inr body \<and> q = p\<lparr>pm_signature := to_hex (sg_sign E key body)\<rparr>)"
  by (auto simp: issue_permit_def rbind_eq_Ok_iff Let_def)

text \<open>
  An issued permit verifies under its key exactly while it should: for its own purpose and
  subject, before its expiry and until it is revoked.
\<close>

theorem issued_permit_verifies:
  assumes "\<And>body. sg_verify E pk (sg_sign E key body) body"
    and "issue_permit H E key p = Inr q"
  shows "verify_permit H E q pk purpose subj now revoked = Inr () \<longleftrightarrow>
           \<not> revoked (pm_permit_id p) \<and> now < pm_expires_at p \<and> pm_purpose p = purpose \<and> pm_subject_digest p = subj"
proof -
  from assms(2) obtain body where "permit_body H p = Inr body"
    and q: "q = p\<lparr>pm_signature := to_hex (sg_sign E key body)\<rparr>" by (auto simp: issue_permit_Ok_iff)
  with assms(1) show ?thesis by (auto simp: verify_permit_Ok_iff from_hex_to_hex)
qed

definition echo_sig :: "(unit, unit) sig_env" where
  "echo_sig = \<lparr>sg_sign = (\<lambda>_ m. m), sg_verify = (\<lambda>_ s m. s = m)\<rparr>"

definition sample_permit :: SignedPermit where
  "sample_permit = \<lparr>pm_permit_id = ''p1'', pm_subject_digest = ''s'', pm_shown_digest = ''d'',
     pm_user_event_id = ''u'', pm_scope_id = ''w'', pm_purpose = ''execute'', pm_audience = ''a'',
     pm_nonce = ''n'', pm_issued_at = 0, pm_expires_at = 9, pm_signature = ''''\<rparr>"

lemma sample_permit_simps [simp]:
  "pm_permit_id sample_permit = ''p1''" "pm_subject_digest sample_permit = ''s''"
  "pm_purpose sample_permit = ''execute''" "pm_expires_at sample_permit = 9"
  by (simp_all add: sample_permit_def)

lemma permit_keys_ok: "distinct permit_keys" "list_all ascii permit_keys" "length permit_keys = length (permit_values p)"
  by (simp_all add: permit_keys_def permit_values_def ascii_def)

lemma permit_body_eq:
  assumes "nfc_ascii H"
  shows "permit_body H p =
    rbind (normalize_list H (permit_values p)) (\<lambda>js. Ok (utf8 (dumps (CDict (zip permit_keys js)))))"
  unfolding permit_body_def by (rule obj_dict_bytes_succeed [OF assms permit_keys_ok(3,1,2)])

lemma sample_permit_issues: "\<exists>q. issue_permit plain_hash echo_sig () sample_permit = Inr q"
  by (simp add: issue_permit_Ok_iff permit_body_eq PURPOSES_def)
    (simp add: sample_permit_def permit_values_def max_safe_int_def)

lemma issued_permit_verifies_witness:
  "\<exists>q. issue_permit plain_hash echo_sig () sample_permit = Inr q \<and>
     verify_permit plain_hash echo_sig q () ''execute'' ''s'' 3 (\<lambda>i. i = ''p2'') = Inr () \<and>
     verify_permit plain_hash echo_sig q () ''release'' ''s'' 3 (\<lambda>i. i = ''p2'') \<noteq> Inr ()"
proof -
  obtain q where q: "issue_permit plain_hash echo_sig () sample_permit = Inr q" using sample_permit_issues ..
  have sig: "sg_verify echo_sig () (sg_sign echo_sig () b) b" for b by (simp add: echo_sig_def)
  from issued_permit_verifies [of echo_sig "()" "()", OF sig q] q show ?thesis
    by (auto simp: sample_permit_def)
qed

text \<open>What a signature fixes of a permit: every field, text up to normalization.\<close>

definition permit_terms :: "hash_env \<Rightarrow> SignedPermit \<Rightarrow> string list \<times> int \<times> int" where
  "permit_terms H p =
     (map (norm_text H) [pm_permit_id p, pm_subject_digest p, pm_shown_digest p, pm_user_event_id p,
        pm_scope_id p, pm_purpose p, pm_audience p, pm_nonce p], pm_issued_at p, pm_expires_at p)"

lemma permit_body_binds:
  assumes "nfc_ascii H" "permit_body H p = Inr b" "permit_body H q = Inr b"
  shows "permit_terms H p = permit_terms H q"
proof -
  obtain js ls where n: "normalize_list H (permit_values p) = Inr js" "normalize_list H (permit_values q) = Inr ls"
    "map json_abs js = map json_abs ls"
    using obj_dict_bytes_eq [OF assms(1) permit_keys_ok(3,3,1,2) assms(2,3) [unfolded permit_body_def]] by blast
  from n(1,2) have "js = map CStr (fst (permit_terms H p)) @ [CInt (pm_issued_at p), CInt (pm_expires_at p)]"
    "ls = map CStr (fst (permit_terms H q)) @ [CInt (pm_issued_at q), CInt (pm_expires_at q)]"
    by (auto simp: permit_values_def permit_terms_def norm_text_def rbind_eq_Ok_iff split: if_splits)
  with n(3) show ?thesis by (simp add: permit_terms_def)
qed



section \<open>The desk's decisions\<close>

lemma submit_checks_None_iff:
  "submit_checks H rid sb rec d = Inr None \<longleftrightarrow>
     sb_actor sb = dr_audience rec \<and> sb_nonce sb = dr_nonce rec \<and>
     dict_get (ad_decisions d) (sb_client_event_id sb) = None \<and> sb_now sb < dr_expires_at rec \<and>
     display_digest H (sb_shown_text sb) (dr_subject_digest rec) = Inr (dr_display_digest rec) \<and>
     sb_display_revision sb = dr_display_revision rec \<and>
     (sb_decision sb = ''approve'' \<longrightarrow> sb_amendment sb \<in> {None, Some []})"
  by (cases "sb_amendment sb")
    (auto simp: submit_checks_def rbind_eq_Ok_iff split: option.splits)

lemma submit_checks_Some:
  "submit_checks H rid sb rec d = Inr (Some r) \<Longrightarrow>
     dict_get (ad_decisions d) (sb_client_event_id sb) = Some r"
  by (auto simp: submit_checks_def rbind_eq_Ok_iff split: option.splits if_splits)

lemma check_choice_Ok_iff:
  "check_choice rec choices c = Inr () \<longleftrightarrow>
     (\<forall>ds. dict_get (dr_dependencies rec) c = Some ds \<longrightarrow> set ds \<subseteq> set choices)"
  by (cases "dict_get (dr_dependencies rec) c") (auto simp: check_choice_def Let_def)

text \<open>A submission that changes the desk records one decision, new and of one of two kinds.\<close>

lemma submit_effect:
  assumes "submit H rid sb d = (r, d')"
  shows "d' = d \<and> (\<forall>res. r = Inr res \<longrightarrow> dict_get (ad_decisions d) (sb_client_event_id sb) = Some res) \<or>
    (\<exists>rec res. dict_get (ad_requests d) rid = Some rec \<and> submit_checks H rid sb rec d = Inr None \<and>
       r = Inr res \<and> d' = d\<lparr>ad_decisions := dict_set (sb_client_event_id sb) res (ad_decisions d)\<rparr> \<and>
       (res_receipt res = None \<and> res_status res = ''deferred'' \<and> res_kind res = sb_decision sb \<or>
        res_status res = ''approved'' \<and> res_kind res = ''approve'' \<and> sb_decision sb = ''approve'' \<and>
        rid \<in> set (ad_opened d) \<and> (\<forall>c \<in> set (sb_choices sb). check_choice rec (sb_choices sb) c = Inr ()) \<and>
        res_permitted res = (if sb_choices sb \<noteq> [] then sb_choices sb else [''*'']) \<and>
        (\<exists>rc. res_receipt res = Some rc \<and>
           receipt_digest H rec (dr_nonce rec) (dr_audience rec) (sb_client_event_id sb) = Inr rc)))"
proof (cases "dict_get (ad_requests d) rid")
  case None
  with assms show ?thesis by (auto simp: submit_def)
next
  case (Some rec)
  show ?thesis
  proof (cases "submit_checks H rid sb rec d")
    case (Inl e)
    with Some assms show ?thesis by (auto simp: submit_def)
  next
    case (Inr o')
    show ?thesis
    proof (cases o')
      case None
      with Inr have "sb_actor sb = dr_audience rec" "sb_nonce sb = dr_nonce rec"
        by (simp_all add: submit_checks_None_iff)
      with None Inr Some assms show ?thesis
        by (auto simp: submit_def Let_def rbind_eq_Ok_iff for_each_Ok_iff split: if_splits sum.splits)
    next
      case (Some r')
      with Inr \<open>dict_get (ad_requests d) rid = Some rec\<close> assms submit_checks_Some [of H rid sb rec d r']
      show ?thesis by (auto simp: submit_def)
    qed
  qed
qed

text \<open>
  An approval binds what the user saw: a submission that newly earns a receipt came from the
  request's audience with its nonce, before it expired, as an explicit approve over an opened display
  whose current revision shows exactly the text submitted; the chosen parts are closed under the
  request's dependencies; and the receipt is the digest of that request, actor and event.
\<close>

theorem approval_binds_display:
  assumes "submit H rid sb d = (Inr r, d')" "res_receipt r = Some rc"
    and "dict_get (ad_decisions d) (sb_client_event_id sb) = None"
  shows "\<exists>rec. dict_get (ad_requests d) rid = Some rec \<and> rid \<in> set (ad_opened d) \<and>
    sb_decision sb = ''approve'' \<and> sb_actor sb = dr_audience rec \<and> sb_nonce sb = dr_nonce rec \<and>
    sb_now sb < dr_expires_at rec \<and> sb_display_revision sb = dr_display_revision rec \<and>
    display_digest H (sb_shown_text sb) (dr_subject_digest rec) = Inr (dr_display_digest rec) \<and>
    (\<forall>c \<in> set (sb_choices sb). \<forall>ds. dict_get (dr_dependencies rec) c = Some ds \<longrightarrow> set ds \<subseteq> set (sb_choices sb)) \<and>
    receipt_digest H rec (dr_nonce rec) (dr_audience rec) (sb_client_event_id sb) = Inr rc"
  using submit_effect [OF assms(1)] assms(2,3) by (auto simp: submit_checks_None_iff check_choice_Ok_iff)

definition sample_submission :: submission where
  "sample_submission =
     \<lparr>sb_actor = ''ann'', sb_nonce = ''n'', sb_decision = ''approve'', sb_shown_text = ''plan'',
      sb_display_revision = 1, sb_client_event_id = ''ev'', sb_now = 3, sb_choices = [], sb_amendment = None\<rparr>"

lemma display_digest_Ok: "nfc_ascii H \<Longrightarrow> \<exists>x. display_digest H text subject = Inr x"
  using digest_obj_strs_Ok [of H "[''text'', ''subject'']" "[text, subject]"]
  by (simp add: display_digest_def ascii_def)

lemma receipt_digest_Ok: "nfc_ascii H \<Longrightarrow> \<exists>x. receipt_digest H rec nonce actor ev = Inr x"
  using digest_obj_strs_Ok [of H "[''subject'', ''nonce'', ''actor'', ''client_event'', ''purpose'']"
      "[dr_subject_digest rec, nonce, actor, ev, dr_purpose rec]"]
  by (simp add: receipt_digest_def ascii_def)

lemma approval_binds_display_witness:
  "\<exists>d r d' rc. submit plain_hash ''req1'' sample_submission d = (Inr r, d') \<and> res_receipt r = Some rc \<and>
     (\<exists>rec. dict_get (ad_requests d) ''req1'' = Some rec \<and> sb_now sample_submission < dr_expires_at rec \<and>
        display_digest plain_hash ''plan'' (dr_subject_digest rec) = Inr (dr_display_digest rec))"
proof -
  obtain x where x: "display_digest plain_hash ''plan'' ''s'' = Inr x" using display_digest_Ok nfc_plain(3) by blast
  let ?rec = "\<lparr>dr_request_id = ''req1'', dr_display_revision = 1, dr_display_digest = x, dr_subject_digest = ''s'',
    dr_audience = ''ann'', dr_nonce = ''n'', dr_expires_at = 9, dr_purpose = ''execute'', dr_dependencies = []\<rparr>"
  let ?d = "\<lparr>ad_requests = [(''req1'', ?rec)], ad_opened = [''req1''], ad_decisions = [], ad_seq = 1\<rparr>"
  obtain rc where rc: "receipt_digest plain_hash ?rec ''n'' ''ann'' ''ev'' = Inr rc"
    using receipt_digest_Ok nfc_plain(3) by blast
  have "\<exists>r d'. submit plain_hash ''req1'' sample_submission ?d = (Inr r, d') \<and> res_receipt r = Some rc"
    using x rc by (simp add: submit_def submit_checks_def sample_submission_def Let_def)
  then obtain r d' where sub: "submit plain_hash ''req1'' sample_submission ?d = (Inr r, d')" "res_receipt r = Some rc"
    by blast
  have new: "dict_get (ad_decisions ?d) (sb_client_event_id sample_submission) = None" by simp
  from approval_binds_display [OF sub new]
  have "\<exists>rec. dict_get (ad_requests ?d) ''req1'' = Some rec \<and> sb_now sample_submission < dr_expires_at rec \<and>
      display_digest plain_hash ''plan'' (dr_subject_digest rec) = Inr (dr_display_digest rec)"
    by (auto simp: sample_submission_def)
  with sub show ?thesis by blast
qed

text \<open>
  The desk's life: the states its four mutating operations lead to from the empty desk, whether a call
  returns or fails.
\<close>

inductive desk_step :: "hash_env \<Rightarrow> ApprovalDesk \<Rightarrow> ApprovalDesk \<Rightarrow> bool" for H where
  step_present: "present H subj text aud nonce exp pur deps d = (r, d') \<Longrightarrow> desk_step H d d'"
| step_open: "desk_step H d (open_display rid d)"
| step_revise: "revise_display H rid text d = (r, d') \<Longrightarrow> desk_step H d d'"
| step_submit: "submit H rid sb d = (r, d') \<Longrightarrow> desk_step H d d'"

inductive desk_reach :: "hash_env \<Rightarrow> ApprovalDesk \<Rightarrow> bool" for H where
  reach_empty: "desk_reach H empty_desk"
| reach_step: "desk_reach H d \<Longrightarrow> desk_step H d d' \<Longrightarrow> desk_reach H d'"

definition earned :: "hash_env \<Rightarrow> ApprovalDesk \<Rightarrow> string \<Rightarrow> DecisionResult \<Rightarrow> bool" where
  "earned H d ev r \<longleftrightarrow>
     res_status r = ''approved'' \<and> res_kind r = ''approve'' \<and>
     (\<exists>rid rec rc. res_receipt r = Some rc \<and> rid \<in> set (ad_opened d) \<and> dict_get (ad_requests d) rid = Some rec \<and>
        receipt_digest H rec (dr_nonce rec) (dr_audience rec) ev = Inr rc)"

definition desk_ok :: "hash_env \<Rightarrow> ApprovalDesk \<Rightarrow> bool" where
  "desk_ok H d \<longleftrightarrow>
     0 \<le> ad_seq d \<and>
     (\<forall>rid. dict_get (ad_requests d) rid \<noteq> None \<longrightarrow> (\<exists>i. 1 \<le> i \<and> i \<le> ad_seq d \<and> rid = ''req'' @ str_int i)) \<and>
     (\<forall>ev r. dict_get (ad_decisions d) ev = Some r \<longrightarrow>
        res_status r = ''deferred'' \<and> res_receipt r = None \<or> earned H d ev r)"

text \<open>A request stays presented, to the same audience for the same subject; a display stays opened.\<close>

definition desk_le :: "ApprovalDesk \<Rightarrow> ApprovalDesk \<Rightarrow> bool" where
  "desk_le d d' \<longleftrightarrow>
     set (ad_opened d) \<subseteq> set (ad_opened d') \<and>
     (\<forall>rid rec. dict_get (ad_requests d) rid = Some rec \<longrightarrow>
        (\<exists>rec'. dict_get (ad_requests d') rid = Some rec' \<and> dr_subject_digest rec' = dr_subject_digest rec \<and>
           dr_nonce rec' = dr_nonce rec \<and> dr_audience rec' = dr_audience rec \<and> dr_purpose rec' = dr_purpose rec))"

lemma earned_mono: "desk_le d d' \<Longrightarrow> earned H d ev r \<Longrightarrow> earned H d' ev r"
proof -
  assume le: "desk_le d d'" and e: "earned H d ev r"
  from e obtain rid rec rc where r: "res_receipt r = Some rc" "rid \<in> set (ad_opened d)"
    "dict_get (ad_requests d) rid = Some rec" "receipt_digest H rec (dr_nonce rec) (dr_audience rec) ev = Inr rc"
    by (auto simp: earned_def)
  from le r(3) obtain rec' where rec': "dict_get (ad_requests d') rid = Some rec'"
    "dr_subject_digest rec' = dr_subject_digest rec" "dr_nonce rec' = dr_nonce rec"
    "dr_audience rec' = dr_audience rec" "dr_purpose rec' = dr_purpose rec"
    unfolding desk_le_def by blast
  then have "receipt_digest H rec' (dr_nonce rec') (dr_audience rec') ev = Inr rc"
    using r(4) by (simp add: receipt_digest_def)
  moreover have "rid \<in> set (ad_opened d')" using le r(2) by (auto simp: desk_le_def)
  ultimately show ?thesis using e r(1) rec'(1) by (auto simp: earned_def)
qed

lemma desk_ok_same_decisions:
  "desk_ok H d \<Longrightarrow> desk_le d d' \<Longrightarrow> ad_decisions d' = ad_decisions d \<Longrightarrow> 0 \<le> ad_seq d' \<Longrightarrow>
   (\<forall>rid. dict_get (ad_requests d') rid \<noteq> None \<longrightarrow> (\<exists>i. 1 \<le> i \<and> i \<le> ad_seq d' \<and> rid = ''req'' @ str_int i)) \<Longrightarrow>
     desk_ok H d'"
proof -
  assume ok: "desk_ok H d" and le: "desk_le d d'" and same: "ad_decisions d' = ad_decisions d"
    and seq: "0 \<le> ad_seq d'"
    "\<forall>rid. dict_get (ad_requests d') rid \<noteq> None \<longrightarrow> (\<exists>i. 1 \<le> i \<and> i \<le> ad_seq d' \<and> rid = ''req'' @ str_int i)"
  have "res_status r = ''deferred'' \<and> res_receipt r = None \<or> earned H d' ev r"
    if "dict_get (ad_decisions d') ev = Some r" for ev r
    using that ok earned_mono [OF le, of H ev r] unfolding desk_ok_def same by blast
  with seq show ?thesis by (auto simp only: desk_ok_def)
qed

lemma desk_le_refl [simp]: "desk_le d d"
  by (simp add: desk_le_def)

lemma desk_le_decisions [simp]: "desk_le d (d\<lparr>ad_decisions := x\<rparr>)"
  by (simp add: desk_le_def)

lemma present_ok:
  assumes "present H subj text aud nonce exp pur deps d = (r, d')" "desk_ok H d"
  shows "desk_le d d' \<and> desk_ok H d'"
proof -
  let ?id = "''req'' @ str_int (ad_seq d + 1)"
  have fresh: "dict_get (ad_requests d) ?id = None"
    using assms(2) by (cases "dict_get (ad_requests d) ?id") (auto simp: desk_ok_def str_int_inj)
  have seq: "0 \<le> ad_seq d" using assms(2) by (simp add: desk_ok_def)
  from assms(1) consider "d' = d\<lparr>ad_seq := ad_seq d + 1\<rparr>"
    | rec where "d' = d\<lparr>ad_seq := ad_seq d + 1, ad_requests := dict_set ?id rec (ad_requests d)\<rparr>"
    by (auto simp: present_def Let_def split: sum.splits)
  then show ?thesis
  proof cases
    case 1
    then have le: "desk_le d d'" by (simp add: desk_le_def)
    have "desk_ok H d'"
      by (rule desk_ok_same_decisions [OF assms(2) le]) (use 1 assms(2) in \<open>fastforce simp: desk_ok_def\<close>)+
    with le show ?thesis by simp
  next
    case 2
    then have le: "desk_le d d'" using fresh by (auto simp: desk_le_def)
    have "desk_ok H d'"
      by (rule desk_ok_same_decisions [OF assms(2) le]) (use 2 seq assms(2) in \<open>fastforce simp: desk_ok_def\<close>)+
    with le show ?thesis by simp
  qed
qed

lemma open_ok: "desk_ok H d \<Longrightarrow> desk_ok H (open_display rid d)"
  by (rule desk_ok_same_decisions [of H d])
    (auto simp: open_display_def desk_le_def desk_ok_def split: if_splits)

lemma revise_ok:
  assumes "revise_display H rid text d = (r, d')" "desk_ok H d"
  shows "desk_ok H d'"
proof -
  from assms(1) consider "d' = d"
    | rec x where "dict_get (ad_requests d) rid = Some rec"
      "d' = d\<lparr>ad_requests := dict_set rid (rec\<lparr>dr_display_revision := dr_display_revision rec + 1,
         dr_display_digest := x\<rparr>) (ad_requests d)\<rparr>"
    by (auto simp: revise_display_def split: option.splits sum.splits)
  then show ?thesis
  proof cases
    case 1
    with assms(2) show ?thesis by simp
  next
    case 2
    then have le: "desk_le d d'" by (auto simp: desk_le_def)
    show ?thesis
      by (rule desk_ok_same_decisions [OF assms(2) le]) (use 2 assms(2) in \<open>auto simp: desk_ok_def\<close>)
  qed
qed

lemma submit_ok:
  assumes "submit H rid sb d = (r, d')" "desk_ok H d"
  shows "desk_ok H d'"
  using submit_effect [OF assms(1)]
proof (elim disjE exE conjE)
  fix rec res
  assume rec: "dict_get (ad_requests d) rid = Some rec"
    and d': "d' = d\<lparr>ad_decisions := dict_set (sb_client_event_id sb) res (ad_decisions d)\<rparr>"
  assume "res_receipt res = None" "res_status res = ''deferred''"
  with d' assms(2) show ?thesis by (auto simp: desk_ok_def earned_def)
next
  fix rec res rc
  assume rec: "dict_get (ad_requests d) rid = Some rec"
    and d': "d' = d\<lparr>ad_decisions := dict_set (sb_client_event_id sb) res (ad_decisions d)\<rparr>"
  assume "res_status res = ''approved''" "res_kind res = ''approve''" "rid \<in> set (ad_opened d)"
    "res_receipt res = Some rc" "receipt_digest H rec (dr_nonce rec) (dr_audience rec) (sb_client_event_id sb) = Inr rc"
  with rec d' have "earned H d' (sb_client_event_id sb) res" by (auto simp: earned_def)
  with d' assms(2) show ?thesis by (auto simp: desk_ok_def earned_def)
qed (use assms(2) in simp)

lemma desk_reach_ok: "desk_reach H d \<Longrightarrow> desk_ok H d"
proof (induction rule: desk_reach.induct)
  case reach_empty
  then show ?case by (simp add: desk_ok_def empty_desk_def)
next
  case (reach_step d d')
  from reach_step.hyps(2) show ?case
    by cases (use reach_step.IH in \<open>blast intro: present_ok [THEN conjunct2] open_ok revise_ok submit_ok\<close>)+
qed

text \<open>
  Claim C6. No receipt without a human approval: at any moment of the desk's life, a recorded decision
  with a receipt is an explicit approve over a request whose display was opened, and its receipt is
  the digest of that request's subject, nonce, audience and purpose with the deciding event; every
  other decision is deferred.
\<close>

theorem desk_receipts_earned:
  assumes "desk_reach H d" "dict_get (ad_decisions d) ev = Some r"
  shows "if res_receipt r = None then res_status r = ''deferred'' else earned H d ev r"
proof -
  from desk_reach_ok [OF assms(1)] assms(2)
  have "res_status r = ''deferred'' \<and> res_receipt r = None \<or> earned H d ev r" unfolding desk_ok_def by blast
  then show ?thesis by (auto simp: earned_def [of H d ev r])
qed

lemma desk_receipts_earned_witness:
  "\<exists>d r. desk_reach plain_hash d \<and> dict_get (ad_decisions d) ''ev'' = Some r \<and>
     (if res_receipt r = None then res_status r = ''deferred'' else earned plain_hash d ''ev'' r) \<and>
     res_receipt r \<noteq> None"
proof -
  obtain x where x: "display_digest plain_hash ''plan'' ''s'' = Inr x" using display_digest_Ok nfc_plain(3) by blast
  let ?rec = "\<lparr>dr_request_id = ''req'' @ str_int 1, dr_display_revision = 1, dr_display_digest = x,
    dr_subject_digest = ''s'', dr_audience = ''ann'', dr_nonce = ''n'', dr_expires_at = 9,
    dr_purpose = ''execute'', dr_dependencies = []\<rparr>"
  obtain rc where rc: "receipt_digest plain_hash ?rec ''n'' ''ann'' ''ev'' = Inr rc"
    using receipt_digest_Ok nfc_plain(3) by blast
  define d1 where "d1 = \<lparr>ad_requests = [(''req'' @ str_int 1, ?rec)], ad_opened = [], ad_decisions = [], ad_seq = 1\<rparr>"
  have 1: "present plain_hash ''s'' ''plan'' ''ann'' ''n'' 9 ''execute'' [] empty_desk = (Inr ?rec, d1)"
    using x by (simp add: present_def empty_desk_def d1_def Let_def)
  define d2 where "d2 = open_display (''req'' @ str_int 1) d1"
  have d2: "d2 = d1\<lparr>ad_opened := [''req'' @ str_int 1]\<rparr>" by (simp add: d2_def open_display_def d1_def)
  let ?res = "\<lparr>res_status = ''approved'', res_kind = ''approve'', res_receipt = Some rc, res_permitted = [''*'']\<rparr>"
  have 3: "submit plain_hash (''req'' @ str_int 1) sample_submission d2 =
      (Inr ?res, d2\<lparr>ad_decisions := [(''ev'', ?res)]\<rparr>)"
    using x rc by (simp add: submit_def submit_checks_def sample_submission_def Let_def d2 d1_def)
  have "desk_reach plain_hash (d2\<lparr>ad_decisions := [(''ev'', ?res)]\<rparr>)"
    using desk_reach.intros step_present [OF 1] step_open [of plain_hash d1 "''req'' @ str_int 1"] step_submit [OF 3]
    unfolding d2_def by metis
  from desk_receipts_earned [OF this, of "''ev''" ?res] this show ?thesis
    by (intro exI [of _ "d2\<lparr>ad_decisions := [(''ev'', ?res)]\<rparr>"] exI [of _ ?res]) simp
qed

text \<open>
  A repeated event id answers with the decision recorded for it whatever request that decision was
  made on: the two digests the code compares both carry the request of the new call.
\<close>

lemma replay_ignores_request:
  assumes "nfc_ascii H" "dict_get (ad_requests d) rid = Some rec" "sb_actor sb = dr_audience rec"
    "sb_nonce sb = dr_nonce rec" "dict_get (ad_decisions d) (sb_client_event_id sb) = Some r"
    "res_kind r = sb_decision sb"
  shows "submit H rid sb d = (Inr r, d)"
proof -
  obtain x where "marker_digest H rid (sb_decision sb) (sb_actor sb) = Inr x"
    using digest_obj_strs_Ok [OF assms(1), of "[''request'', ''decision'', ''actor'']"
        "[rid, sb_decision sb, sb_actor sb]"] by (auto simp: marker_digest_def ascii_def)
  with assms show ?thesis by (simp add: submit_def submit_checks_def)
qed

end
