(* ===== verification/Actions.thy ===== *)
theory Actions
  imports Approvals
begin

text \<open>
  \<open>kernel/actions.py\<close>: the action broker. Grants are path rules in which a deny wins over every
  allow; a decision needs a registered tool, an authenticated actor and a permit that verifies now; a
  mutation is audited first and re-verified before its effect. The audit log and the effect are
  parameters acting on a world the model leaves open.
\<close>

section \<open>Grants\<close>

definition MODES :: "string list" where
  "MODES = [''manual'', ''auto'', ''headless'', ''acp'', ''resume'']"

record Grant =
  gr_path :: string
  gr_allow :: "string list"
  gr_deny :: "string list"

record Decision =
  dn_allowed :: bool
  dn_code :: string
  dn_detail :: string

definition normalize_path :: "string \<Rightarrow> string result" where
  "normalize_path path =
     (if path = [] \<or> backslash \<in> set path \<or> posix_is_absolute path \<or>
         list_ex (\<lambda>p. p \<in> {'''', ''.'', ''..''}) (posix_parts path)
      then raise ''ACL_DENIED'' path
      else Ok (posix_str path))"

definition intersect_grants :: "Grant list \<Rightarrow> Grant list \<Rightarrow> Grant list" where
  "intersect_grants parent child =
     (let result = concat (map (\<lambda>cg. map (\<lambda>pg.
            \<lparr>gr_path = gr_path cg,
             gr_allow = filter (\<lambda>a. a \<in> set (gr_allow pg)) (gr_allow cg),
             gr_deny = gr_deny cg @ gr_deny pg\<rparr>)
          (filter (\<lambda>pg. gr_path pg = gr_path cg) parent)) child);
          parent_denies = map (\<lambda>g. \<lparr>gr_path = gr_path g, gr_allow = [], gr_deny = gr_deny g\<rparr>)
            (filter (\<lambda>g. gr_deny g \<noteq> [] \<and> list_all (\<lambda>r. gr_path r \<noteq> gr_path g) result) parent)
      in result @ parent_denies)"

definition effective_deny :: "Grant \<Rightarrow> string list" where
  "effective_deny g = (if ''only_write'' \<in> set (gr_allow g) then ''read'' # gr_deny g else gr_deny g)"

definition grant_allows :: "string \<Rightarrow> Grant \<Rightarrow> bool" where
  "grant_allows action g \<longleftrightarrow>
     action \<in> set (gr_allow g) \<or> action \<in> {''create'', ''write_existing''} \<and> ''only_write'' \<in> set (gr_allow g)"

text \<open>The loop over the grants: \<open>None\<close> is the early return at a deny, else the grants that allow.\<close>

fun scan_grants :: "string \<Rightarrow> string \<Rightarrow> Grant list \<Rightarrow> Grant list \<Rightarrow> Grant list option" where
  "scan_grants action normalized allowed_by [] = Some allowed_by"
| "scan_grants action normalized allowed_by (g # gs) =
     (if gr_path g \<noteq> normalized then scan_grants action normalized allowed_by gs
      else if action \<in> set (effective_deny g) then None
      else scan_grants action normalized (if grant_allows action g then allowed_by @ [g] else allowed_by) gs)"

definition evaluate :: "string \<Rightarrow> string \<Rightarrow> Grant list \<Rightarrow> bool \<Rightarrow> Decision result" where
  "evaluate action path grants preexisting =
     rbind (normalize_path path) (\<lambda>normalized.
       (case scan_grants action normalized [] grants of
          None \<Rightarrow> Ok \<lparr>dn_allowed = False, dn_code = ''DENIED'', dn_detail = path\<rparr>
        | Some allowed_by \<Rightarrow>
            if allowed_by = []
            then (if action = ''create'' \<and> \<not> preexisting
                  then Ok \<lparr>dn_allowed = False, dn_code = ''CREATE_APPROVAL_REQUIRED'', dn_detail = path\<rparr>
                  else Ok \<lparr>dn_allowed = False, dn_code = ''SCOPE_DENIED'', dn_detail = path\<rparr>)
            else Ok \<lparr>dn_allowed = True, dn_code = ''ALLOWED'', dn_detail = path\<rparr>))"

section \<open>The broker\<close>

record ActionBroker =
  ab_tools :: "string list"
  ab_grants :: "Grant list"

record 'pk action_request =
  rq_tool :: string
  rq_action :: string
  rq_path :: string
  rq_permit :: "SignedPermit option"
  rq_trust_root :: 'pk
  rq_subject_digest :: string
  rq_now :: int
  rq_is_revoked :: "string \<Rightarrow> bool"
  rq_mode :: string
  rq_actor :: "string option"
  rq_authenticated_actor :: "string option"
  rq_preexisting :: bool
  rq_recipe_approved :: bool
  rq_headless_policy :: bool

definition refuse :: "string \<Rightarrow> string \<Rightarrow> Decision" where
  "refuse code detail = \<lparr>dn_allowed = False, dn_code = code, dn_detail = detail\<rparr>"

definition decide :: "hash_env \<Rightarrow> ('sk, 'pk) sig_env \<Rightarrow> ActionBroker \<Rightarrow> 'pk action_request \<Rightarrow> Decision result" where
  "decide H E b r =
     (if rq_mode r \<notin> set MODES then Ok (refuse ''UNSUPPORTED_MODE'' (rq_mode r))
      else if rq_actor r \<noteq> None \<and> rq_actor r \<noteq> rq_authenticated_actor r
      then Ok (refuse ''ACL_DENIED'' (the (rq_actor r)))
      else if rq_tool r \<notin> set (ab_tools b) then Ok (refuse ''UNKNOWN_TOOL'' (rq_tool r))
      else if rq_tool r = ''execute_recipe'' \<and> \<not> rq_recipe_approved r
      then Ok (refuse ''UNVERIFIED_RECIPE'' (rq_tool r))
      else (case rq_permit r of
          None \<Rightarrow> Ok (refuse ''APPROVAL_REQUIRED'' (rq_path r))
        | Some permit \<Rightarrow>
            (case verify_permit H E permit (rq_trust_root r) ''execute'' (rq_subject_digest r) (rq_now r)
                    (rq_is_revoked r) of
               Inl (CyranoError code message) \<Rightarrow> Ok (refuse code (exn_str (CyranoError code message)))
             | Inl (PyError k) \<Rightarrow> Inl (PyError k)
             | Inr u \<Rightarrow>
                 if \<not> rq_headless_policy r \<and> rq_mode r = ''headless'' then Ok (refuse ''BLOCKED'' (rq_mode r))
                 else evaluate (rq_action r) (rq_path r) (ab_grants b) (rq_preexisting r))))"

definition apply_scoped_patch ::
  "hash_env \<Rightarrow> ('sk, 'pk) sig_env \<Rightarrow> (string \<Rightarrow> ('w, unit) op) \<Rightarrow> SignedPermit \<Rightarrow> 'pk \<Rightarrow> string \<Rightarrow> int \<Rightarrow>
     (string \<Rightarrow> bool) \<Rightarrow> ('w, 'a) op \<Rightarrow> ('w, 'a) op"
where
  "apply_scoped_patch H E audit permit trust_root subject_digest now is_revoked apply_fn w =
     (case audit (''apply:'' @ pm_permit_id permit @ '':'' @ subject_digest) w of
        (Inl (CyranoError code message), w1) \<Rightarrow> (Inl (CyranoError code message), w1)
      | (Inl (PyError k), w1) \<Rightarrow> (raise ''AUDIT_UNAVAILABLE'' k, w1)
      | (Inr u, w1) \<Rightarrow>
          (case verify_permit H E permit trust_root ''execute'' subject_digest now is_revoked of
             Inl e \<Rightarrow> (Inl e, w1)
           | Inr u \<Rightarrow>
               (case apply_fn w1 of
                  (Inl e, w2) \<Rightarrow> (Inl e, w2)
                | (Inr result, w2) \<Rightarrow>
                    (case audit (''applied:'' @ pm_permit_id permit) w2 of
                       (Inl e, w3) \<Rightarrow> (Inl e, w3)
                     | (Inr u, w3) \<Rightarrow> (Ok result, w3)))))"

definition deny_event :: "(string \<Rightarrow> ('w, unit) op) \<Rightarrow> string \<Rightarrow> ('w, unit) op" where
  "deny_event audit detail = audit (''denied:'' @ detail)"

definition check_payload_budget :: "string \<Rightarrow> string \<Rightarrow> int \<Rightarrow> unit result" where
  "check_payload_budget compressed decompressed cap =
     (if int (length decompressed) > cap
      then raise ''PAYLOAD_TOO_LARGE'' (str_int (int (length decompressed)) @ '' exceeds cap '' @ str_int cap)
      else Ok ())"

fun ambiguous_loop :: "(string, string) dict \<Rightarrow> string list \<Rightarrow> unit result" where
  "ambiguous_loop lowered [] = Ok ()"
| "ambiguous_loop lowered (name # names) =
     (let key = py_lower name in
      if dict_get lowered key \<noteq> None \<and> dict_get lowered key \<noteq> Some name then raise ''PATH_AMBIGUOUS'' name
      else ambiguous_loop (dict_set key name lowered) names)"

definition reject_ambiguous_path :: "string list \<Rightarrow> unit result" where
  "reject_ambiguous_path names = ambiguous_loop [] names"

lemma refuse_simps [simp]: "\<not> dn_allowed (refuse code detail)" "dn_code (refuse code detail) = code"
  by (simp_all add: refuse_def)

section \<open>Grants: deny wins\<close>

lemma scan_grants_Some:
  "scan_grants a n acc gs = Some r \<longleftrightarrow>
     (\<forall>g \<in> set gs. gr_path g = n \<longrightarrow> a \<notin> set (effective_deny g)) \<and>
     r = acc @ filter (\<lambda>g. gr_path g = n \<and> grant_allows a g) gs"
  by (induction gs arbitrary: acc) (auto split: if_splits)

lemma evaluate_allowed_iff:
  "(\<exists>d. evaluate a path gs pre = Inr d \<and> dn_allowed d) \<longleftrightarrow>
     (\<exists>n. normalize_path path = Inr n \<and>
        (\<forall>g \<in> set gs. gr_path g = n \<longrightarrow> a \<notin> set (effective_deny g)) \<and>
        (\<exists>g \<in> set gs. gr_path g = n \<and> grant_allows a g))"
proof (cases "normalize_path path")
  case (Inl e)
  then show ?thesis by (simp add: evaluate_def)
next
  case (Inr n)
  show ?thesis
  proof (cases "scan_grants a n [] gs")
    case None
    then have "\<not> (\<forall>g \<in> set gs. gr_path g = n \<longrightarrow> a \<notin> set (effective_deny g))"
      using scan_grants_Some [of a n "[]" gs] by auto
    with None Inr show ?thesis by (auto simp: evaluate_def)
  next
    case (Some r)
    then have "\<forall>g \<in> set gs. gr_path g = n \<longrightarrow> a \<notin> set (effective_deny g)"
      "r \<noteq> [] \<longleftrightarrow> (\<exists>g \<in> set gs. gr_path g = n \<and> grant_allows a g)"
      by (auto simp: scan_grants_Some filter_empty_conv)
    with Some Inr show ?thesis by (auto simp: evaluate_def)
  qed
qed

text \<open>
  A path that grants are compared with is canonical: relative, without dot components, and its own
  spelling. Other spellings of it (\<open>./a\<close>, \<open>a//b\<close>) are accepted and mean it.
\<close>

lemma normalize_path_Ok_iff:
  "normalize_path p = Inr n \<longleftrightarrow>
     p \<noteq> [] \<and> backslash \<notin> set p \<and> \<not> posix_is_absolute p \<and> ''..'' \<notin> set (posix_tail p) \<and> n = posix_str p"
proof -
  have "list_ex (\<lambda>q. q \<in> {'''', ''.'', ''..''}) (posix_parts p) \<longleftrightarrow> ''..'' \<in> set (posix_tail p)"
    if "\<not> posix_is_absolute p"
    unfolding posix_root_rel [OF that] list_ex_iff using posix_tail_clean by blast
  then show ?thesis unfolding normalize_path_def by auto
qed

lemma normalize_path_spellings: "normalize_path ''./a//b'' = Inr ''a/b'' \<and> normalize_path ''a/b'' = Inr ''a/b''"
  by (simp add: normalize_path_def posix_str_def posix_root_def posix_tail_def posix_parts_def
      posix_is_absolute_def backslash_def)

lemma intersect_grants_in:
  assumes "g \<in> set (intersect_grants P C)" "gr_allow g \<noteq> []"
  shows "\<exists>cg \<in> set C. \<exists>pg \<in> set P. gr_path cg = gr_path g \<and> gr_path pg = gr_path g \<and>
           set (gr_allow g) = set (gr_allow cg) \<inter> set (gr_allow pg)"
  using assms by (fastforce simp: intersect_grants_def Let_def Int_def)

lemma intersect_grants_pair:
  assumes "cg \<in> set C" "pg \<in> set P" "gr_path pg = gr_path cg"
  shows "\<exists>g \<in> set (intersect_grants P C). gr_path g = gr_path cg \<and> gr_deny g = gr_deny cg @ gr_deny pg \<and>
           set (gr_allow g) = set (gr_allow cg) \<inter> set (gr_allow pg)"
proof -
  let ?g = "\<lparr>gr_path = gr_path cg, gr_allow = filter (\<lambda>a. a \<in> set (gr_allow pg)) (gr_allow cg),
    gr_deny = gr_deny cg @ gr_deny pg\<rparr>"
  have "?g \<in> set (intersect_grants P C)" using assms by (fastforce simp: intersect_grants_def Let_def)
  then show ?thesis by (rule bexI [rotated]) auto
qed

lemma grant_allows_Int:
  "set (gr_allow g) = set (gr_allow cg) \<inter> set (gr_allow pg) \<Longrightarrow> grant_allows a g \<Longrightarrow>
     grant_allows a cg \<and> grant_allows a pg"
  by (auto simp: grant_allows_def)

definition write_only :: "Grant list \<Rightarrow> bool" where
  "write_only gs \<longleftrightarrow> (\<exists>g \<in> set gs. ''only_write'' \<in> set (gr_allow g))"

text \<open>
  A child scope never widens its parent: whatever the intersection of two grant lists
  allows, the parent's and the child's own list each allow too, as long as neither uses
  \<open>only_write\<close> when the action is \<open>read\<close>.
\<close>

theorem intersection_never_widens:
  assumes "evaluate a path (intersect_grants P C) pre = Inr d" "dn_allowed d"
    and "a = ''read'' \<longrightarrow> \<not> write_only P \<and> \<not> write_only C"
  shows "(\<exists>e. evaluate a path P pre = Inr e \<and> dn_allowed e) \<and> (\<exists>e. evaluate a path C pre = Inr e \<and> dn_allowed e)"
proof -
  from assms(1,2) obtain n g where n: "normalize_path path = Inr n"
    and no_deny: "\<forall>g \<in> set (intersect_grants P C). gr_path g = n \<longrightarrow> a \<notin> set (effective_deny g)"
    and g: "g \<in> set (intersect_grants P C)" "gr_path g = n" "grant_allows a g"
    using evaluate_allowed_iff [of a path "intersect_grants P C" pre] by blast
  from g(3) have "gr_allow g \<noteq> []" by (auto simp: grant_allows_def)
  from intersect_grants_in [OF g(1) this] obtain cg pg where
    pair: "cg \<in> set C" "pg \<in> set P" "gr_path cg = n" "gr_path pg = n" "grant_allows a cg" "grant_allows a pg"
    using grant_allows_Int g(2,3) by metis
  have clear: "a \<notin> set (effective_deny x)" if "x \<in> set C \<or> x \<in> set P" "gr_path x = n" for x
  proof -
    have "a \<notin> set (gr_deny x)"
      using that pair intersect_grants_pair [of x C pg P] intersect_grants_pair [of cg C x P] no_deny
      by (fastforce simp: effective_deny_def split: if_splits)
    moreover have "a = ''read'' \<longrightarrow> ''only_write'' \<notin> set (gr_allow x)"
      using that(1) assms(3) by (auto simp: write_only_def)
    ultimately show ?thesis by (auto simp: effective_deny_def)
  qed
  with n pair show ?thesis unfolding evaluate_allowed_iff by blast
qed

lemma intersection_never_widens_witness:
  "let P = [\<lparr>gr_path = ''a'', gr_allow = [''read'', ''create''], gr_deny = [''delete'']\<rparr>];
       C = [\<lparr>gr_path = ''a'', gr_allow = [''read''], gr_deny = []\<rparr>]
   in (\<exists>e. evaluate ''read'' ''a'' P False = Inr e \<and> dn_allowed e) \<and>
      (\<exists>e. evaluate ''read'' ''a'' C False = Inr e \<and> dn_allowed e)"
proof -
  let ?P = "[\<lparr>gr_path = ''a'', gr_allow = [''read'', ''create''], gr_deny = [''delete'']\<rparr>]"
  let ?C = "[\<lparr>gr_path = ''a'', gr_allow = [''read''], gr_deny = []\<rparr>]"
  have "evaluate ''read'' ''a'' (intersect_grants ?P ?C) False =
      Inr \<lparr>dn_allowed = True, dn_code = ''ALLOWED'', dn_detail = ''a''\<rparr>" by code_simp
  then show ?thesis unfolding Let_def
    by (rule intersection_never_widens) (simp_all add: write_only_def)
qed

text \<open>
  Without that condition it does widen: \<open>only_write\<close> denies reading in the list it stands in, but
  the intersection drops it together with the denial.
\<close>

lemma intersection_widens_read:
  "let P = [\<lparr>gr_path = ''a'', gr_allow = [''only_write''], gr_deny = []\<rparr>,
            \<lparr>gr_path = ''a'', gr_allow = [''read''], gr_deny = []\<rparr>];
       C = [\<lparr>gr_path = ''a'', gr_allow = [''read''], gr_deny = []\<rparr>]
   in evaluate ''read'' ''a'' P True = Inr (refuse ''DENIED'' ''a'') \<and>
      evaluate ''read'' ''a'' (intersect_grants P C) True =
        Inr \<lparr>dn_allowed = True, dn_code = ''ALLOWED'', dn_detail = ''a''\<rparr>"
  by code_simp

text \<open>
  The broker allows nothing without authority: an allowed decision means a known mode, an
  actor that is the authenticated one, a registered tool (and an approved recipe), a permit that
  verifies now for execution of this subject, and grants that allow the action on the canonical path
  and nowhere deny it.
\<close>

theorem decide_needs_authority:
  assumes "decide H E b r = Inr d" "dn_allowed d"
  shows "rq_mode r \<in> set MODES \<and> (rq_actor r = None \<or> rq_actor r = rq_authenticated_actor r) \<and>
    rq_tool r \<in> set (ab_tools b) \<and> (rq_tool r = ''execute_recipe'' \<longrightarrow> rq_recipe_approved r) \<and>
    (rq_mode r = ''headless'' \<longrightarrow> rq_headless_policy r) \<and>
    (\<exists>permit. rq_permit r = Some permit \<and>
       verify_permit H E permit (rq_trust_root r) ''execute'' (rq_subject_digest r) (rq_now r)
         (rq_is_revoked r) = Inr ()) \<and>
    (\<exists>n. normalize_path (rq_path r) = Inr n \<and>
       (\<forall>g \<in> set (ab_grants b). gr_path g = n \<longrightarrow> rq_action r \<notin> set (effective_deny g)) \<and>
       (\<exists>g \<in> set (ab_grants b). gr_path g = n \<and> grant_allows (rq_action r) g))"
proof -
  obtain permit where p: "rq_permit r = Some permit"
    using assms by (cases "rq_permit r") (auto simp: decide_def split: if_splits)
  have checks: "rq_mode r \<in> set MODES" "rq_actor r = None \<or> rq_actor r = rq_authenticated_actor r"
    "rq_tool r \<in> set (ab_tools b)" "rq_tool r = ''execute_recipe'' \<longrightarrow> rq_recipe_approved r"
    using assms by (auto simp: decide_def split: if_splits)
  have v: "verify_permit H E permit (rq_trust_root r) ''execute'' (rq_subject_digest r) (rq_now r)
      (rq_is_revoked r) = Inr ()"
    using assms p checks
    by (cases "verify_permit H E permit (rq_trust_root r) ''execute'' (rq_subject_digest r) (rq_now r) (rq_is_revoked r)")
      (auto simp: decide_def split: exn.splits if_splits)
  have e: "rq_mode r = ''headless'' \<longrightarrow> rq_headless_policy r"
    "evaluate (rq_action r) (rq_path r) (ab_grants b) (rq_preexisting r) = Inr d"
    using assms p checks v by (auto simp: decide_def split: if_splits)
  from e(2) assms(2) evaluate_allowed_iff [of "rq_action r" "rq_path r" "ab_grants b" "rq_preexisting r"]
  have "\<exists>n. normalize_path (rq_path r) = Inr n \<and>
       (\<forall>g \<in> set (ab_grants b). gr_path g = n \<longrightarrow> rq_action r \<notin> set (effective_deny g)) \<and>
       (\<exists>g \<in> set (ab_grants b). gr_path g = n \<and> grant_allows (rq_action r) g)" by blast
  with p checks v e(1) show ?thesis by blast
qed

lemma decide_needs_authority_witness:
  "\<exists>r. decide plain_hash echo_sig \<lparr>ab_tools = [''edit''], ab_grants = [\<lparr>gr_path = ''a'', gr_allow = [''read''], gr_deny = []\<rparr>]\<rparr> r
       = Inr \<lparr>dn_allowed = True, dn_code = ''ALLOWED'', dn_detail = ''a''\<rparr> \<and>
     (\<exists>permit. rq_permit r = Some permit \<and>
       verify_permit plain_hash echo_sig permit (rq_trust_root r) ''execute'' (rq_subject_digest r) (rq_now r)
         (rq_is_revoked r) = Inr ())"
proof -
  obtain q where q: "issue_permit plain_hash echo_sig () sample_permit = Inr q" using sample_permit_issues ..
  then have v: "verify_permit plain_hash echo_sig q () ''execute'' ''s'' 3 (\<lambda>_. False) = Inr ()"
    by (auto simp: verify_permit_Ok_iff issue_permit_Ok_iff from_hex_to_hex echo_sig_def)
  let ?b = "\<lparr>ab_tools = [''edit''], ab_grants = [\<lparr>gr_path = ''a'', gr_allow = [''read''], gr_deny = []\<rparr>]\<rparr>"
  let ?r = "\<lparr>rq_tool = ''edit'', rq_action = ''read'', rq_path = ''a'', rq_permit = Some q, rq_trust_root = (),
    rq_subject_digest = ''s'', rq_now = 3, rq_is_revoked = (\<lambda>_. False), rq_mode = ''auto'', rq_actor = None,
    rq_authenticated_actor = None, rq_preexisting = True, rq_recipe_approved = True, rq_headless_policy = True\<rparr>"
  have "evaluate ''read'' ''a'' (ab_grants ?b) True = Inr \<lparr>dn_allowed = True, dn_code = ''ALLOWED'', dn_detail = ''a''\<rparr>"
    by code_simp
  with v have d: "decide plain_hash echo_sig ?b ?r = Inr \<lparr>dn_allowed = True, dn_code = ''ALLOWED'', dn_detail = ''a''\<rparr>"
    by (simp add: decide_def MODES_def)
  from decide_needs_authority [OF d] d show ?thesis by (intro exI [of _ ?r]) simp
qed

text \<open>
  Audit before effect: unless the audit record was written and the permit verifies at that
  moment, the patch is refused and the world is as the audit left it; when the call succeeds, the
  effect ran once, between the two audit records.
\<close>

theorem patch_audited_first:
  "case apply_scoped_patch H E audit permit pk subj now revoked apply_fn w of
     (Inl e, w') \<Rightarrow>
       (fst (audit (''apply:'' @ pm_permit_id permit @ '':'' @ subj) w) = Inr () \<and>
        verify_permit H E permit pk ''execute'' subj now revoked = Inr ()) \<or>
       w' = snd (audit (''apply:'' @ pm_permit_id permit @ '':'' @ subj) w)
   | (Inr x, w') \<Rightarrow>
       verify_permit H E permit pk ''execute'' subj now revoked = Inr () \<and>
       (\<exists>w1 w2. audit (''apply:'' @ pm_permit_id permit @ '':'' @ subj) w = (Inr (), w1) \<and>
          apply_fn w1 = (Inr x, w2) \<and> audit (''applied:'' @ pm_permit_id permit) w2 = (Inr (), w'))"
  by (cases "audit (''apply:'' @ pm_permit_id permit @ '':'' @ subj) w")
    (auto simp: apply_scoped_patch_def split: prod.splits sum.splits exn.splits)

lemma symmetric_pairs:
  assumes "\<And>m n. P m n \<Longrightarrow> P n m" "\<And>m. P m m" "\<forall>m \<in> R. P m x"
  shows "(\<forall>m \<in> insert x (S \<union> R). \<forall>n \<in> S. P m n) \<longleftrightarrow> (\<forall>m \<in> insert x S \<union> R. \<forall>n \<in> insert x S. P m n)"
  using assms by blast

lemma ambiguous_loop_Ok_iff:
  "\<forall>k v. dict_get lowered k = Some v \<longrightarrow> py_lower v = k \<Longrightarrow>
     ambiguous_loop lowered names = Inr () \<longleftrightarrow>
       (\<forall>m \<in> set names \<union> ran (dict_get lowered). \<forall>n \<in> set names. py_lower m = py_lower n \<longrightarrow> m = n)"
proof (induction names arbitrary: lowered)
  case Nil
  then show ?case by simp
next
  case (Cons name names)
  show ?case
  proof (cases "dict_get lowered (py_lower name) \<noteq> None \<and> dict_get lowered (py_lower name) \<noteq> Some name")
    case True
    then obtain v where "dict_get lowered (py_lower name) = Some v" "v \<noteq> name" by auto
    moreover from this Cons.prems have "py_lower v = py_lower name" by blast
    ultimately show ?thesis using True by (auto simp: Let_def ran_def)
  next
    case False
    let ?d = "dict_set (py_lower name) name lowered"
    have wf: "\<forall>k v. dict_get ?d k = Some v \<longrightarrow> py_lower v = k" using Cons.prems by auto
    have "ran (dict_get ?d) = insert name (ran (dict_get lowered))"
      using False by (auto simp: ran_def split: if_splits) (metis option.distinct(1) option.inject)+
    moreover have "ambiguous_loop lowered (name # names) = ambiguous_loop ?d names"
      using False by (auto simp: Let_def)
    ultimately have main: "ambiguous_loop lowered (name # names) = Inr () \<longleftrightarrow>
       (\<forall>m \<in> insert name (set names \<union> ran (dict_get lowered)). \<forall>n \<in> set names. py_lower m = py_lower n \<longrightarrow> m = n)"
      using Cons.IH [OF wf] by simp
    have "m = name" if "m \<in> ran (dict_get lowered)" "py_lower m = py_lower name" for m
    proof -
      from that(1) obtain k where "dict_get lowered k = Some m" unfolding ran_def by blast
      moreover from this Cons.prems that(2) have "k = py_lower name" by metis
      ultimately show ?thesis using False by auto
    qed
    note side = this
    show ?thesis
      unfolding main list.set
    proof (rule symmetric_pairs [where P = "\<lambda>m n. py_lower m = py_lower n \<longrightarrow> m = n"])
      show "py_lower m = py_lower n \<longrightarrow> m = n \<Longrightarrow> py_lower n = py_lower m \<longrightarrow> n = m" for m n by metis
    qed (use side in blast)+
  qed
qed

lemma reject_ambiguous_path_Ok_iff:
  "reject_ambiguous_path names = Inr () \<longleftrightarrow>
     (\<forall>m \<in> set names. \<forall>n \<in> set names. py_lower m = py_lower n \<longrightarrow> m = n)"
  unfolding reject_ambiguous_path_def by (subst ambiguous_loop_Ok_iff) (auto simp: ran_def)

end
