(* ===== verification/Releases.thy ===== *)
theory Releases
  imports PyObj Cas
begin

text \<open>
  \<open>kernel/releases.py\<close>, \<open>kernel/rollout.py\<close> and \<open>kernel/recovery.py\<close>: staging a release, the
  compare-and-swap promotion lane, canary cohorts, the binding of runs to releases, and recovery by
  rollback or revocation.
\<close>

section \<open>Staging\<close>

record ReleaseSubject =
  su_subject_id :: string
  su_parent_id :: string
  su_patch_digest :: string
  su_evidence_refs :: "string list"
  su_approval_ref :: string

definition prepare_release ::
  "hash_env \<Rightarrow> pymap \<Rightarrow> string \<Rightarrow> pymap option \<Rightarrow> bool \<Rightarrow> ReleaseSubject result"
where
  "prepare_release H candidate parent_id approval scoped_delegation =
     (let patch = py_str (get_or candidate ''patch_digest'' (PStr [])) in
      if patch = [] then raise ''INPUT_INVALID'' ''patch digest required''
      else
        (let approval_id = (case approval of None \<Rightarrow> PNone | Some a \<Rightarrow> get_or a ''approval_id'' PNone) in
         if approval_id = PNone \<and> \<not> scoped_delegation
         then raise ''RELEASE_APPROVAL_REQUIRED'' ''promotion needs human approval or scoped delegation''
         else
           (let refs = (case get_or candidate ''evidence_refs'' (PTuple []) of
                  PList xs \<Rightarrow> map py_str xs | PTuple xs \<Rightarrow> map py_str xs | _ \<Rightarrow> []) in
            if refs = [] then raise ''EVIDENCE_REQUIRED'' ''release needs evidence''
            else
              (let approval_ref = (if approval_id \<noteq> PNone then py_str approval_id
                                   else ''delegation:'' @ (if scoped_delegation then ''True'' else ''False'')) in
               rbind (digest H (PList [PStr patch, PStr parent_id, PStr approval_ref])) (\<lambda>subject_id.
                 Ok \<lparr>su_subject_id = subject_id, su_parent_id = parent_id, su_patch_digest = patch,
                     su_evidence_refs = refs, su_approval_ref = approval_ref\<rparr>)))))"

section \<open>The lane\<close>

record Release =
  rl_release_id :: string
  rl_parent_id :: "string option"
  rl_patch_digest :: string
  rl_evidence_refs :: "string list"

record ReleaseLane =
  ln_live :: Release
  ln_history :: "Release list"
  ln_revoked :: "string list"

definition new_lane :: "Release \<Rightarrow> ReleaseLane" where
  "new_lane initial = \<lparr>ln_live = initial, ln_history = [initial], ln_revoked = []\<rparr>"

definition is_revoked :: "ReleaseLane \<Rightarrow> string \<Rightarrow> bool" where
  "is_revoked l release_id \<longleftrightarrow> release_id \<in> set (ln_revoked l)"

definition promote :: "hash_env \<Rightarrow> ReleaseSubject \<Rightarrow> string \<Rightarrow> (ReleaseLane, Release) op" where
  "promote H subject evaluated_digest l =
     (if evaluated_digest \<noteq> su_patch_digest subject
      then (raise ''APPROVAL_INVALID'' ''evaluated digest differs from the subject'', l)
      else if su_parent_id subject \<noteq> rl_release_id (ln_live l)
      then (raise ''STALE_REVISION'' (''parent '' @ su_parent_id subject @ '' is not live''), l)
      else
        (case digest H (PList [PStr (su_subject_id subject), PStr (rl_release_id (ln_live l))]) of
           Inl e \<Rightarrow> (Inl e, l)
         | Inr release_id \<Rightarrow>
             (let release = \<lparr>rl_release_id = release_id, rl_parent_id = Some (rl_release_id (ln_live l)),
                             rl_patch_digest = su_patch_digest subject,
                             rl_evidence_refs = su_evidence_refs subject\<rparr>
              in (Ok release, l\<lparr>ln_history := ln_history l @ [release], ln_live := release\<rparr>))))"

definition find_release :: "ReleaseLane \<Rightarrow> string \<Rightarrow> Release option" where
  "find_release l release_id = List.find (\<lambda>r. rl_release_id r = release_id) (ln_history l)"

definition revoke :: "string \<Rightarrow> (ReleaseLane, Release) op" where
  "revoke release_id l =
     (case find_release l release_id of
        None \<Rightarrow> (raise ''MISSING_RELEASE'' release_id, l)
      | Some release \<Rightarrow> (Ok release, l\<lparr>ln_revoked := List.insert release_id (ln_revoked l)\<rparr>))"

definition rollback :: "string \<Rightarrow> (ReleaseLane, Release) op" where
  "rollback target_id l =
     (case find_release l target_id of
        None \<Rightarrow> (raise ''MISSING_RELEASE'' target_id, l)
      | Some release \<Rightarrow> (Ok release, l\<lparr>ln_live := release\<rparr>))"

section \<open>Rollout\<close>

record CanaryCohort =
  cc_cohort_id :: string
  cc_release_id :: string
  cc_member_ids :: "string list"

definition assign_canary :: "ReleaseLane \<Rightarrow> string list \<Rightarrow> string \<Rightarrow> CanaryCohort result" where
  "assign_canary lane member_ids cohort_id =
     (let members = sorted_set member_ids in
      if members = [] then raise ''INPUT_INVALID'' ''a cohort needs members''
      else Ok \<lparr>cc_cohort_id = cohort_id, cc_release_id = rl_release_id (ln_live lane), cc_member_ids = members\<rparr>)"

record DispatchBinding =
  db_run_id :: string
  db_release_id :: string
  db_state :: string
  db_reason :: string

definition bind_dispatch :: "ReleaseLane \<Rightarrow> pymap \<Rightarrow> DispatchBinding" where
  "bind_dispatch lane run =
     (let run_id = py_str (get_or run ''run_id'' (PStr []));
          used = py_str (get_or run ''release_id'' (PStr []));
          live = rl_release_id (ln_live lane);
          binding = (\<lambda>release state reason.
            \<lparr>db_run_id = run_id, db_release_id = release, db_state = state, db_reason = reason\<rparr>)
      in if is_revoked lane used then binding used ''paused'' ''REVOKED_RELEASE''
         else if py_truthy (get_or run ''started_after_promotion'' (PBool False))
         then (if is_revoked lane live then binding live ''paused'' ''REVOKED_RELEASE''
               else binding live ''bound'' ''live_release'')
         else
           (let pinned = py_str (get_or run ''pinned_release_id'' PNone) in
            if pinned \<notin> set (map rl_release_id (ln_history lane))
            then binding used ''paused'' ''UNKNOWN_PINNED_RELEASE''
            else if is_revoked lane pinned then binding pinned ''paused'' ''REVOKED_RELEASE''
            else binding pinned ''bound'' ''pinned_release''))"

text \<open>\<open>stop_dispatch\<close>: the keys \<open>new_dispatch\<close>, \<open>live_release\<close> and \<open>revoked\<close> of the report.\<close>

definition stop_dispatch :: "ReleaseLane \<Rightarrow> pymap" where
  "stop_dispatch lane =
     [(''new_dispatch'', PStr ''stopped''), (''live_release'', PStr (rl_release_id (ln_live lane))),
      (''revoked'', PBool (is_revoked lane (rl_release_id (ln_live lane))))]"

section \<open>Recovery\<close>

record RecoveryReport =
  rr_action :: string
  rr_new_live :: string
  rr_impacted_sessions :: "string list"
  rr_new_dispatch_stopped :: bool
  rr_user_code_reverted :: bool

definition recovery_target :: "string option \<Rightarrow> string option \<Rightarrow> ReleaseLane \<Rightarrow> string option" where
  "recovery_target target_release revoke_release l =
     (case target_release of
        Some t \<Rightarrow> Some t
      | None \<Rightarrow>
          if revoke_release = None \<or> revoke_release = Some (rl_release_id (ln_live l))
          then rl_parent_id (ln_live l) else Some (rl_release_id (ln_live l)))"

definition recovery_revoke :: "string option \<Rightarrow> (ReleaseLane, unit) op" where
  "recovery_revoke revoke_release =
     (case revoke_release of None \<Rightarrow> oret () | Some rid \<Rightarrow> obind (revoke rid) (\<lambda>_. oret ()))"

definition recovery_report :: "string option \<Rightarrow> pymap list \<Rightarrow> string \<Rightarrow> string \<Rightarrow> RecoveryReport" where
  "recovery_report revoke_release running_runs live_before new_live =
     \<lparr>rr_action = (if revoke_release \<notin> {None, Some []} then ''revoke'' else ''rollback''),
      rr_new_live = new_live,
      rr_impacted_sessions =
        sort [py_str (get_or r ''run_id'' (PStr [])). r \<leftarrow> running_runs,
          py_str (get_or r ''release_id'' (PStr [])) \<noteq> new_live],
      rr_new_dispatch_stopped = (revoke_release = Some live_before \<or> new_live \<noteq> live_before),
      rr_user_code_reverted = False\<rparr>"

definition rollback_or_revoke ::
  "string option \<Rightarrow> string option \<Rightarrow> pymap list \<Rightarrow> (ReleaseLane, RecoveryReport) op"
where
  "rollback_or_revoke target_release revoke_release running_runs =
     obind oget (\<lambda>before.
     obind (recovery_revoke revoke_release) (\<lambda>_.
     obind oget (\<lambda>l.
     obind (olift (case recovery_target target_release revoke_release l of
              None \<Rightarrow> raise ''MISSING_RELEASE'' ''no parent to roll back to'' | Some target \<Rightarrow> Ok target)) (\<lambda>target.
     obind (rollback target) (\<lambda>release.
       oret (recovery_report revoke_release running_runs (rl_release_id (ln_live before))
               (rl_release_id release)))))))"

section \<open>Promotion is a compare-and-swap\<close>

lemma promote_Ok:
  "promote H su ev l = (Inr r, l') \<Longrightarrow>
     ev = su_patch_digest su \<and> su_parent_id su = rl_release_id (ln_live l) \<and>
     digest H (PList [PStr (su_subject_id su), PStr (su_parent_id su)]) = Inr (rl_release_id r) \<and>
     rl_parent_id r = Some (su_parent_id su) \<and> rl_patch_digest r = ev \<and>
     rl_evidence_refs r = su_evidence_refs su \<and>
     l' = l\<lparr>ln_history := ln_history l @ [r], ln_live := r\<rparr>"
  by (auto simp: promote_def Let_def split: if_splits sum.splits)

lemma promote_err: "promote H su ev l = (Inl e, l') \<Longrightarrow> l' = l"
  by (auto simp: promote_def Let_def split: if_splits sum.splits)

lemma promote_stale:
  "su_parent_id su \<noteq> rl_release_id (ln_live l) \<Longrightarrow>
     promote H su ev l = (if ev \<noteq> su_patch_digest su
       then raise ''APPROVAL_INVALID'' ''evaluated digest differs from the subject''
       else raise ''STALE_REVISION'' (''parent '' @ su_parent_id su @ '' is not live''), l)"
  by (simp add: promote_def)

interpretation lane: cas_store "\<lambda>l r. promote H (fst r) (snd r) l" "\<lambda>l. rl_release_id (ln_live l)"
    "\<lambda>r. su_parent_id (fst r)" for H
  by unfold_locales (auto dest: promote_Ok promote_err)

text \<open>
  Only one child of a release is ever promoted from it: once a subject has been promoted to
  a release of its own id, a second subject staged against the same parent is refused, and the lane
  stays as it is. What was promoted is what was evaluated.
\<close>

theorem promotion_race_lost:
  assumes "promote H su ev l = (Inr r, l1)" "su_parent_id su' = su_parent_id su"
    and "rl_release_id r \<noteq> su_parent_id su"
  shows "rl_patch_digest (ln_live l1) = ev \<and> rl_parent_id (ln_live l1) = Some (rl_release_id (ln_live l)) \<and>
    (\<exists>e. promote H su' ev' l1 = (Inl e, l1))"
proof -
  have "\<exists>e. promote H (fst (su', ev')) (snd (su', ev')) l1 = (Inl e, l1)"
  proof (rule lane.race_lost)
    show "promote H (fst (su, ev)) (snd (su, ev)) l = (Inr r, l1)" using assms(1) by simp
    show "rl_release_id (ln_live l1) \<noteq> rl_release_id (ln_live l)"
      using assms promote_Ok [OF assms(1)] by auto
  qed (use assms(2) in simp)
  with promote_Ok [OF assms(1)] show ?thesis by auto
qed

definition sample_subject :: "string \<Rightarrow> ReleaseSubject" where
  "sample_subject sid = \<lparr>su_subject_id = sid, su_parent_id = ''r0'', su_patch_digest = ''p'',
     su_evidence_refs = [''e''], su_approval_ref = ''a''\<rparr>"

definition sample_lane :: ReleaseLane where
  "sample_lane = new_lane \<lparr>rl_release_id = ''r0'', rl_parent_id = None, rl_patch_digest = ''p0'', rl_evidence_refs = []\<rparr>"

lemma sample_promotes:
  "\<exists>r l1. promote plain_hash (sample_subject ''s1'') ''p'' sample_lane = (Inr r, l1) \<and>
     rl_release_id r \<noteq> ''r0''"
  by (simp add: promote_def sample_subject_def sample_lane_def new_lane_def digest_def canonical_bytes_def Let_def)

lemma promotion_race_lost_witness:
  "\<exists>r l1 e. promote plain_hash (sample_subject ''s1'') ''p'' sample_lane = (Inr r, l1) \<and>
     promote plain_hash (sample_subject ''s2'') ''p'' l1 = (Inl e, l1)"
proof -
  obtain r l1 where p: "promote plain_hash (sample_subject ''s1'') ''p'' sample_lane
      = (Inr r, l1)" and "rl_release_id r \<noteq> ''r0''" using sample_promotes by blast
  then show ?thesis
    using promotion_race_lost [OF p, of "sample_subject ''s2''" "''p''"] by (fastforce simp: sample_subject_def)
qed

section \<open>The lane's history\<close>

text \<open>What may happen to a lane: any call of its operations or of the recovery, returning or failing.\<close>

inductive lane_step :: "hash_env \<Rightarrow> ReleaseLane \<Rightarrow> ReleaseLane \<Rightarrow> bool" for H where
  lane_promote: "promote H su ev l = (r, l') \<Longrightarrow> lane_step H l l'"
| lane_revoke: "revoke rid l = (r, l') \<Longrightarrow> lane_step H l l'"
| lane_rollback: "rollback rid l = (r, l') \<Longrightarrow> lane_step H l l'"
| lane_recover: "rollback_or_revoke t rv runs l = (r, l') \<Longrightarrow> lane_step H l l'"

definition lane_le :: "ReleaseLane \<Rightarrow> ReleaseLane \<Rightarrow> bool" where
  "lane_le l l' \<longleftrightarrow> (\<exists>ext. ln_history l' = ln_history l @ ext) \<and> set (ln_revoked l) \<subseteq> set (ln_revoked l')"

definition lane_ok :: "ReleaseLane \<Rightarrow> bool" where
  "lane_ok l \<longleftrightarrow> ln_live l \<in> set (ln_history l) \<and> set (ln_revoked l) \<subseteq> rl_release_id ` set (ln_history l)"

definition lane_moves :: "ReleaseLane \<Rightarrow> ReleaseLane \<Rightarrow> bool" where
  "lane_moves l l' \<longleftrightarrow> (lane_ok l \<longrightarrow> lane_le l l' \<and> lane_ok l')"

lemma lane_moves_refl: "reflp lane_moves"
  by (auto simp: reflp_def lane_moves_def lane_le_def)

lemma lane_moves_trans: "transp lane_moves"
  by (rule transpI) (fastforce simp: lane_moves_def lane_le_def)

lemma find_release_in: "find_release l rid = Some r \<Longrightarrow> r \<in> set (ln_history l) \<and> rl_release_id r = rid"
  by (auto simp: find_release_def find_Some_iff in_set_conv_nth)

lemma find_release_None: "find_release l rid = None \<longleftrightarrow> rid \<notin> rl_release_id ` set (ln_history l)"
  by (auto simp: find_release_def find_None_iff)

lemma promote_moves: "moves lane_moves (promote H su ev)"
  by (auto simp: moves_def lane_moves_def lane_le_def lane_ok_def promote_def Let_def split: sum.splits)

lemma revoke_moves: "moves lane_moves (revoke rid)"
  by (auto simp: moves_def lane_moves_def revoke_def lane_le_def lane_ok_def split: option.splits
      dest!: find_release_in)

lemma rollback_moves: "moves lane_moves (rollback rid)"
  by (auto simp: moves_def lane_moves_def rollback_def lane_le_def lane_ok_def split: option.splits
      dest!: find_release_in)

lemmas lane_pure = moves_pure [OF lane_moves_refl]

lemma recovery_revoke_moves: "moves lane_moves (recovery_revoke rv)"
  by (cases rv) (auto simp: recovery_revoke_def intro!: moves_obind lane_moves_trans revoke_moves lane_pure)

lemma recover_moves: "moves lane_moves (rollback_or_revoke t rv runs)"
  unfolding rollback_or_revoke_def
  by (intro moves_obind lane_moves_trans recovery_revoke_moves rollback_moves lane_pure)

lemma lane_step_moves: "lane_step H l l' \<Longrightarrow> lane_moves l l'"
  by (induction rule: lane_step.induct)
    (blast intro: movesD promote_moves revoke_moves rollback_moves recover_moves)+

text \<open>
  History is never rewritten: through any calls on the lane, the releases recorded stay in
  order as they were, revocations persist, the live release is always a recorded one, and only
  recorded releases are revoked.
\<close>

theorem lane_history_persists:
  assumes "(lane_step H)\<^sup>*\<^sup>* l l'" "lane_ok l"
  shows "(\<exists>ext. ln_history l' = ln_history l @ ext) \<and> set (ln_revoked l) \<subseteq> set (ln_revoked l') \<and>
    ln_live l' \<in> set (ln_history l') \<and> set (ln_revoked l') \<subseteq> rl_release_id ` set (ln_history l')"
proof -
  have "lane_moves l l'"
    using assms(1) by (induction rule: rtranclp_induct)
      (auto intro: reflpD [OF lane_moves_refl] transpD [OF lane_moves_trans] lane_step_moves)
  with assms(2) show ?thesis by (simp add: lane_moves_def lane_le_def lane_ok_def)
qed

lemma lane_history_persists_witness:
  "\<exists>l'. (lane_step plain_hash)\<^sup>*\<^sup>* sample_lane l' \<and> ln_revoked l' = [''r0''] \<and>
     ln_live l' \<in> set (ln_history l') \<and> set (ln_revoked l') \<subseteq> rl_release_id ` set (ln_history l')"
proof -
  let ?H = "plain_hash"
  let ?l = "snd (revoke ''r0'' sample_lane)"
  have s: "(lane_step ?H)\<^sup>*\<^sup>* sample_lane ?l" by (intro r_into_rtranclp lane_revoke [of "''r0''" _ "fst (revoke ''r0'' sample_lane)"]) simp
  have "lane_ok sample_lane" by (simp add: lane_ok_def sample_lane_def new_lane_def)
  from lane_history_persists [OF s this]
  have "ln_live ?l \<in> set (ln_history ?l) \<and> set (ln_revoked ?l) \<subseteq> rl_release_id ` set (ln_history ?l)" by blast
  moreover have "ln_revoked ?l = [''r0'']"
    by (simp add: revoke_def find_release_def sample_lane_def new_lane_def)
  ultimately show ?thesis using s by blast
qed

section \<open>Runs\<close>

text \<open>
  Revocation outranks pins: a run that may dispatch is bound to a recorded, unrevoked
  release, its own release is not revoked either, and that release is the live one when the run started
  after the promotion and its pin otherwise. Every other run is paused.
\<close>

theorem dispatch_binding_safe:
  assumes "lane_ok lane"
  shows "let b = bind_dispatch lane run; used = py_str (get_or run ''release_id'' (PStr [])) in
    (db_state b = ''bound'' \<or> db_state b = ''paused'') \<and>
    (db_state b = ''bound'' \<longrightarrow>
       \<not> is_revoked lane (db_release_id b) \<and> \<not> is_revoked lane used \<and>
       db_release_id b \<in> rl_release_id ` set (ln_history lane) \<and>
       db_release_id b = (if py_truthy (get_or run ''started_after_promotion'' (PBool False))
         then rl_release_id (ln_live lane) else py_str (get_or run ''pinned_release_id'' PNone)))"
  using assms by (auto simp: bind_dispatch_def Let_def lane_ok_def)

lemma dispatch_binding_safe_witness:
  "let b = bind_dispatch sample_lane [(''run_id'', PStr ''x''), (''pinned_release_id'', PStr ''r0'')];
       used = py_str (get_or [(''run_id'', PStr ''x''), (''pinned_release_id'', PStr ''r0'')] ''release_id'' (PStr [])) in
    (db_state b = ''bound'' \<or> db_state b = ''paused'') \<and>
    (db_state b = ''bound'' \<longrightarrow>
       \<not> is_revoked sample_lane (db_release_id b) \<and> \<not> is_revoked sample_lane used \<and>
       db_release_id b \<in> rl_release_id ` set (ln_history sample_lane) \<and>
       db_release_id b = (if py_truthy (get_or [(''run_id'', PStr ''x''), (''pinned_release_id'', PStr ''r0'')]
           ''started_after_promotion'' (PBool False))
         then rl_release_id (ln_live sample_lane)
         else py_str (get_or [(''run_id'', PStr ''x''), (''pinned_release_id'', PStr ''r0'')] ''pinned_release_id'' PNone)))"
  by (rule dispatch_binding_safe) (simp add: lane_ok_def sample_lane_def new_lane_def)

text \<open>
  Recovery is honest: when a rollback or revocation returns, the live release is the one
  reported, the release to revoke is revoked, the history is unchanged, exactly the runs on another
  release are impacted, and dispatch is reported stopped whenever the live pointer moved; when it
  fails, the live pointer has not moved.
\<close>

theorem recovery_honest:
  "case rollback_or_revoke t rv runs l of
     (Inl e, l') \<Rightarrow> ln_live l' = ln_live l \<and> ln_history l' = ln_history l
   | (Inr rep, l') \<Rightarrow>
       rl_release_id (ln_live l') = rr_new_live rep \<and> ln_history l' = ln_history l \<and>
       set_option rv \<subseteq> set (ln_revoked l') \<and>
       set (rr_impacted_sessions rep) = {py_str (get_or r ''run_id'' (PStr [])) | r.
         r \<in> set runs \<and> py_str (get_or r ''release_id'' (PStr [])) \<noteq> rr_new_live rep} \<and>
       (\<not> rr_new_dispatch_stopped rep \<longleftrightarrow> rv \<noteq> Some (rl_release_id (ln_live l)) \<and>
          rl_release_id (ln_live l') = rl_release_id (ln_live l))"
proof -
  have rev: "ln_live u = ln_live l \<and> ln_history u = ln_history l \<and> (succeeds x \<longrightarrow> set_option rv \<subseteq> set (ln_revoked u))"
    if "recovery_revoke rv l = (x, u)" for x u
    using that by (cases rv) (auto simp: recovery_revoke_def revoke_def obind_def split: option.splits)
  have roll: "ln_history v = ln_history u \<and> ln_revoked v = ln_revoked u \<and>
      (case x of Inl e \<Rightarrow> v = u | Inr r \<Rightarrow> ln_live v = r)" if "rollback target u = (x, v)" for target x u v
    using that by (auto simp: rollback_def split: option.splits)
  obtain x u where u: "recovery_revoke rv l = (x, u)" by (cases "recovery_revoke rv l")
  show ?thesis
  proof (cases x)
    case (Inl e)
    with u rev [OF u] show ?thesis by (simp add: rollback_or_revoke_def obind_def)
  next
    case (Inr y)
    show ?thesis
    proof (cases "recovery_target t rv u")
      case None
      with u Inr rev [OF u] show ?thesis by (simp add: rollback_or_revoke_def obind_def)
    next
      case (Some target)
      obtain z v where v: "rollback target u = (z, v)" by (cases "rollback target u")
      show ?thesis
        using u Inr Some v rev [OF u] roll [OF v]
        by (cases z) (auto simp: rollback_or_revoke_def recovery_report_def obind_def split: if_splits)
    qed
  qed
qed

end
