(* ===== verification/Files.thy ===== *)
theory Files
  imports Canonical
begin

text \<open>
  The files under a root directory, as the patch services use them: contents by canonical relative
  path, the paths that are symbolic links, and what a failing write leaves behind. A path the services
  form is \<open>root / path\<close>, so two spellings of a relative path are one file. Also the Base64 text the
  journals keep preimages in.
\<close>

section \<open>Contents\<close>

text \<open>
  \<open>fs_fault\<close> gives, for a file whose writes fail, the content a failed write leaves (from the old
  content and the data), so that a failure may leave the file as it was, truncated or torn.
\<close>

record fsys =
  fs_files :: "(string, string) dict"
  fs_links :: "string list"
  fs_fault :: "string \<Rightarrow> (string \<Rightarrow> string \<Rightarrow> string) option"

definition os_error :: "exn \<Rightarrow> bool" where
  "os_error e \<longleftrightarrow> e \<in> {PyError ''OSError'', PyError ''FileNotFoundError''}"

definition file_content :: "fsys \<Rightarrow> string \<Rightarrow> string option" where
  "file_content fs path = dict_get (fs_files fs) (posix_str path)"

definition is_symlink :: "fsys \<Rightarrow> string \<Rightarrow> bool" where
  "is_symlink fs path \<longleftrightarrow> posix_str path \<in> set (fs_links fs)"

definition read_bytes :: "string \<Rightarrow> fsys \<Rightarrow> string result" where
  "read_bytes path fs =
     (case file_content fs path of None \<Rightarrow> Inl (PyError ''FileNotFoundError'') | Some c \<Rightarrow> Ok c)"

definition put_file :: "string \<Rightarrow> string \<Rightarrow> fsys \<Rightarrow> fsys" where
  "put_file path data fs = fs\<lparr>fs_files := dict_set (posix_str path) data (fs_files fs)\<rparr>"

definition write_bytes :: "string \<Rightarrow> string \<Rightarrow> (fsys, unit) op" where
  "write_bytes path data fs =
     (case fs_fault fs (posix_str path) of
        None \<Rightarrow> (Ok (), put_file path data fs)
      | Some damage \<Rightarrow>
          (Inl (PyError ''OSError''),
           put_file path (damage (case file_content fs path of None \<Rightarrow> [] | Some c \<Rightarrow> c) data) fs))"

definition file_digest :: "hash_env \<Rightarrow> string \<Rightarrow> string" where
  "file_digest H content = ''sha256:'' @ sha256_hex H content"

text \<open>The path check of both services.\<close>

definition check_path :: "string \<Rightarrow> unit result" where
  "check_path path =
     (if path = [] \<or> posix_is_absolute path \<or> backslash \<in> set path \<or>
         list_ex (\<lambda>p. p \<in> {'''', ''.'', ''..''}) (posix_parts path)
      then raise ''ACL_DENIED'' path else Ok ())"

lemma check_path_Ok_iff:
  "check_path p = Inr () \<longleftrightarrow>
     p \<noteq> [] \<and> backslash \<notin> set p \<and> \<not> posix_is_absolute p \<and> ''..'' \<notin> set (posix_tail p)"
proof -
  have "list_ex (\<lambda>q. q \<in> {'''', ''.'', ''..''}) (posix_parts p) \<longleftrightarrow> ''..'' \<in> set (posix_tail p)"
    if "\<not> posix_is_absolute p"
    unfolding posix_root_rel [OF that] list_ex_iff using posix_tail_clean by blast
  then show ?thesis unfolding check_path_def by auto
qed

lemma put_file_content [simp]:
  "file_content (put_file p d fs) q = (if posix_str q = posix_str p then Some d else file_content fs q)"
  by (simp add: put_file_def file_content_def)

lemma put_file_rest [simp]:
  "fs_links (put_file p d fs) = fs_links fs" "fs_fault (put_file p d fs) = fs_fault fs"
  by (simp_all add: put_file_def)

lemma write_bytes_content:
  "write_bytes p d fs = (r, fs') \<Longrightarrow>
     fs_links fs' = fs_links fs \<and> fs_fault fs' = fs_fault fs \<and>
     (posix_str q \<noteq> posix_str p \<longrightarrow> file_content fs' q = file_content fs q) \<and>
     (r = Inr () \<longrightarrow> file_content fs' p = Some d)"
  by (auto simp: write_bytes_def split: option.splits)

lemma write_bytes_err: "write_bytes p d fs = (Inl e, fs') \<Longrightarrow> e = PyError ''OSError'' \<and> fs_fault fs (posix_str p) \<noteq> None"
  by (auto simp: write_bytes_def split: option.splits)

lemma write_bytes_ok: "fs_fault fs (posix_str p) = None \<Longrightarrow> write_bytes p d fs = (Inr (), put_file p d fs)"
  by (simp add: write_bytes_def)

section \<open>Base64\<close>

definition b64_char :: "nat \<Rightarrow> char" where
  "b64_char n =
     (if n < 26 then char_of (65 + n) else if n < 52 then char_of (71 + n)
      else if n < 62 then char_of (n - 4) else if n = 62 then CHR ''+'' else CHR ''/'')"

definition b64_val :: "char \<Rightarrow> nat option" where
  "b64_val c =
     (let n = of_char c :: nat in
      if 65 \<le> n \<and> n \<le> 90 then Some (n - 65) else if 97 \<le> n \<and> n \<le> 122 then Some (n - 71)
      else if 48 \<le> n \<and> n \<le> 57 then Some (n + 4) else if n = 43 then Some 62
      else if n = 47 then Some 63 else None)"

fun b64encode :: "string \<Rightarrow> string" where
  "b64encode [] = []"
| "b64encode [a] =
     (let x = of_char a :: nat in [b64_char (x div 4), b64_char (x mod 4 * 16), CHR ''='', CHR ''=''])"
| "b64encode [a, b] =
     (let x = of_char a :: nat; y = of_char b :: nat in
      [b64_char (x div 4), b64_char (x mod 4 * 16 + y div 16), b64_char (y mod 16 * 4), CHR ''=''])"
| "b64encode (a # b # c # cs) =
     (let x = of_char a :: nat; y = of_char b :: nat; z = of_char c :: nat in
      b64_char (x div 4) # b64_char (x mod 4 * 16 + y div 16) # b64_char (y mod 16 * 4 + z div 64) #
      b64_char (z mod 64) # b64encode cs)"

text \<open>Decoding text in the alphabet; anything else is a decoding error.\<close>

fun b64decode :: "string \<Rightarrow> string result" where
  "b64decode [] = Ok []"
| "b64decode (p # q # r # s # cs) =
     (case (b64_val p, b64_val q) of
        (Some i, Some j) \<Rightarrow>
          (if r = CHR ''='' \<and> s = CHR ''='' \<and> cs = [] then Ok [char_of (i * 4 + j div 16)]
           else (case (b64_val r, b64_val s) of
               (Some k, None) \<Rightarrow>
                 if s = CHR ''='' \<and> cs = []
                 then Ok [char_of (i * 4 + j div 16), char_of (j mod 16 * 16 + k div 4)]
                 else Inl (PyError ''binascii.Error'')
             | (Some k, Some l) \<Rightarrow>
                 rbind (b64decode cs) (\<lambda>bs.
                   Ok (char_of (i * 4 + j div 16) # char_of (j mod 16 * 16 + k div 4) #
                       char_of (k mod 4 * 64 + l) # bs))
             | _ \<Rightarrow> Inl (PyError ''binascii.Error'')))
      | _ \<Rightarrow> Inl (PyError ''binascii.Error''))"
| "b64decode cs = Inl (PyError ''binascii.Error'')"

lemma b64_val_char: "n < 64 \<Longrightarrow> b64_val (b64_char n) = Some n"
  by (auto simp: b64_val_def b64_char_def Let_def of_char_of)

lemma b64_val_pad [simp]: "b64_val (CHR ''='') = None"
  by (simp add: b64_val_def Let_def)

lemma b64_char_pad [simp]: "n < 64 \<Longrightarrow> b64_char n \<noteq> CHR ''=''"
  using b64_val_char [of n] by auto

lemma b64_bounds:
  assumes "(x::nat) < 256" "(y::nat) < 256" "(z::nat) < 256"
  shows "x div 4 < 64" "x mod 4 * 16 < 64" "x mod 4 * 16 + y div 16 < 64" "y mod 16 * 4 < 64"
    "y mod 16 * 4 + z div 64 < 64" "z mod 64 < 64"
proof -
  have d: "y div 16 < 16" "z div 64 < 4" "x div 4 < 64" using assms by (simp_all add: less_mult_imp_div_less)
  have m: "x mod 4 < 4" "y mod 16 < 16" "z mod 64 < 64" by simp_all
  from d m show "x div 4 < 64" "x mod 4 * 16 < 64" "x mod 4 * 16 + y div 16 < 64" "y mod 16 * 4 < 64"
    "y mod 16 * 4 + z div 64 < 64" "z mod 64 < 64" by linarith+
qed

lemma b64_parts:
  assumes "(y::nat) < 256"
  shows "y div 16 div 16 = 0" "y div 16 mod 16 = y div 16" "y div 64 div 4 = 0" "y div 64 mod 4 = y div 64"
    "y div 64 div 16 = 0"
proof -
  have d: "y div 16 < 16" "y div 64 < 4" using assms by (simp_all add: less_mult_imp_div_less)
  then show "y div 16 div 16 = 0" "y div 16 mod 16 = y div 16" "y div 64 div 4 = 0" "y div 64 mod 4 = y div 64"
    "y div 64 div 16 = 0" by simp_all
qed

lemma b64decode_encode: "b64decode (b64encode bs) = Inr bs"
proof (induction bs rule: b64encode.induct)
  case (2 a)
  show ?case
    using b64_bounds [where x = "of_char a" and y = 0 and z = 0] of_char_bound [of a]
    by (simp add: Let_def b64_val_char b64_parts [OF of_char_bound])
next
  case (3 a b)
  show ?case
    using b64_bounds [where x = "of_char a" and y = "of_char b" and z = 0]
      of_char_bound [of a] of_char_bound [of b]
    by (simp add: Let_def b64_val_char b64_parts [OF of_char_bound])
next
  case (4 a b c cs)
  then show ?case
    using b64_bounds [where x = "of_char a" and y = "of_char b" and z = "of_char c"]
      of_char_bound [of a] of_char_bound [of b] of_char_bound [of c]
    by (simp add: Let_def b64_val_char b64_parts [OF of_char_bound])
qed simp

end
