(* ===== verification/Patches.thy ===== *)
theory Patches
  imports Files
begin

text \<open>
  \<open>kernel/patches.py\<close>: applying approved patches to the source under a journal, delivering the
  result, rolling back, and the chain of expected preimages. The journal file is the document the
  service writes, kept under its path; Base64 preimages are encoded and decoded as the code does.
\<close>

section \<open>Data\<close>

definition DELIVERY_MODES :: "string list" where
  "DELIVERY_MODES = [''patch_only'', ''apply_to_source'']"

record ApplyGrant =
  ag_purpose :: string
  ag_subject_digest :: string
  ag_approved_paths :: "string list option"

record FilePatch =
  fp_path :: string
  fp_preimage_digest :: string
  fp_postimage :: string

record ApplyEntry =
  ae_path :: string
  ae_preimage_digest :: string
  ae_postimage_digest :: string
  ae_status :: string

record ApplyJournal =
  aj_journal_id :: string
  aj_status :: string
  aj_entries :: "ApplyEntry list"
  aj_path :: string

record RollbackReport =
  rb_status :: string
  rb_restored :: "string list"
  rb_conflict_preserved :: "string list"
  rb_needs_human_decision :: bool

record WorkDelivery =
  wd_mode :: string
  wd_patch_ref :: "string option"
  wd_source_changed :: bool
  wd_applied_paths :: "string list"

record journal_row =
  jr_path :: string
  jr_preimage_digest :: string
  jr_preimage_b64 :: string
  jr_postimage_digest :: string
  jr_status :: string
  jr_error :: "string option"

record journal_doc =
  jd_status :: string
  jd_files :: "journal_row list"

text \<open>The source tree, the journal files and whether writing a journal file fails.\<close>

record apply_state =
  ps_fs :: fsys
  ps_journals :: "(string, journal_doc) dict"
  ps_journal_fault :: bool

section \<open>Applying\<close>

definition check_patch :: "hash_env \<Rightarrow> ApplyGrant \<Rightarrow> fsys \<Rightarrow> FilePatch \<Rightarrow> unit result" where
  "check_patch H grant fs patch =
     rbind (check_path (fp_path patch)) (\<lambda>_.
       if (case ag_approved_paths grant of None \<Rightarrow> False | Some paths \<Rightarrow> fp_path patch \<notin> set paths)
       then raise ''ACL_DENIED'' (fp_path patch)
       else if is_symlink fs (fp_path patch) then raise ''PATH_ESCAPE'' (fp_path patch)
       else (case file_content fs (fp_path patch) of
           None \<Rightarrow> raise ''SOURCE_MISSING'' (fp_path patch)
         | Some content \<Rightarrow>
             if file_digest H content \<noteq> fp_preimage_digest patch
             then raise ''PREIMAGE_CONFLICT'' (fp_path patch) else Ok ()))"

definition apply_journal_id :: "hash_env \<Rightarrow> ApplyGrant \<Rightarrow> FilePatch list \<Rightarrow> string" where
  "apply_journal_id H grant patches =
     ''apply-'' @ take 12 (sha256_hex H (utf8 (ag_subject_digest grant @ ''|'' @ py_join ''|'' (map fp_path patches))))"

definition patch_row :: "hash_env \<Rightarrow> FilePatch \<Rightarrow> string \<Rightarrow> exn option \<Rightarrow> journal_row" where
  "patch_row H patch preimage failure =
     \<lparr>jr_path = fp_path patch, jr_preimage_digest = fp_preimage_digest patch,
      jr_preimage_b64 = b64encode preimage, jr_postimage_digest = file_digest H (fp_postimage patch),
      jr_status = (if failure = None then ''applied'' else ''failed''),
      jr_error = map_option exn_str failure\<rparr>"

definition patch_entry :: "hash_env \<Rightarrow> FilePatch \<Rightarrow> exn option \<Rightarrow> ApplyEntry" where
  "patch_entry H patch failure =
     \<lparr>ae_path = fp_path patch, ae_preimage_digest = fp_preimage_digest patch,
      ae_postimage_digest = file_digest H (fp_postimage patch),
      ae_status = (if failure = None then ''applied'' else ''failed'')\<rparr>"

fun write_patches ::
  "hash_env \<Rightarrow> FilePatch list \<Rightarrow> string \<times> journal_row list \<times> ApplyEntry list \<Rightarrow>
     (fsys, string \<times> journal_row list \<times> ApplyEntry list) op"
where
  "write_patches H [] acc fs = (Ok acc, fs)"
| "write_patches H (patch # patches) (status, rows, entries) fs =
     (case read_bytes (fp_path patch) fs of
        Inl e \<Rightarrow> (Inl e, fs)
      | Inr preimage \<Rightarrow>
          (case write_bytes (fp_path patch) (fp_postimage patch) fs of
             (Inr u, fs1) \<Rightarrow>
               write_patches H patches
                 (status, rows @ [patch_row H patch preimage None], entries @ [patch_entry H patch None]) fs1
           | (Inl e, fs1) \<Rightarrow>
               if os_error e
               then write_patches H patches
                 (''partial'', rows @ [patch_row H patch preimage (Some e)],
                  entries @ [patch_entry H patch (Some e)]) fs1
               else (Inl e, fs1)))"

definition write_journal :: "string \<Rightarrow> string \<Rightarrow> string \<Rightarrow> journal_row list \<Rightarrow> (apply_state, string) op" where
  "write_journal journal_dir journal_id status rows s =
     (let path = journal_dir @ ''/'' @ journal_id @ ''.json'' in
      if ps_journal_fault s then (Inl (PyError ''OSError''), s)
      else (Ok path, s\<lparr>ps_journals := dict_set path \<lparr>jd_status = status, jd_files = rows\<rparr> (ps_journals s)\<rparr>))"

definition apply_to_target ::
  "hash_env \<Rightarrow> FilePatch list \<Rightarrow> ApplyGrant option \<Rightarrow> string \<Rightarrow> (apply_state, ApplyJournal) op"
where
  "apply_to_target H patches grant journal_dir s =
     (case grant of
        None \<Rightarrow> (raise ''APPROVAL_REQUIRED'' ''no source-apply grant'', s)
      | Some g \<Rightarrow>
          if ag_purpose g \<noteq> ''source_apply'' then (raise ''PURPOSE_MISMATCH'' (ag_purpose g), s)
          else (case for_each (check_patch H g (ps_fs s)) patches of
              Inl e \<Rightarrow> (Inl e, s)
            | Inr u \<Rightarrow>
                (case write_patches H patches (''applied'', [], []) (ps_fs s) of
                   (Inl e, fs1) \<Rightarrow> (Inl e, s\<lparr>ps_fs := fs1\<rparr>)
                 | (Inr (status, rows, entries), fs1) \<Rightarrow>
                     obind (write_journal journal_dir (apply_journal_id H g patches) status rows)
                       (\<lambda>path. oret \<lparr>aj_journal_id = apply_journal_id H g patches, aj_status = status,
                          aj_entries = entries, aj_path = path\<rparr>)
                       (s\<lparr>ps_fs := fs1\<rparr>))))"

section \<open>Delivery\<close>

definition deliver_result :: "string \<Rightarrow> string option \<Rightarrow> ApplyJournal option \<Rightarrow> WorkDelivery result" where
  "deliver_result mode patch_ref journal =
     (if mode \<notin> set DELIVERY_MODES then raise ''INVALID_OUTCOME'' mode
      else if mode = ''patch_only''
      then Ok \<lparr>wd_mode = mode, wd_patch_ref = patch_ref, wd_source_changed = False, wd_applied_paths = []\<rparr>
      else (case journal of
          None \<Rightarrow> raise ''APPLY_INCOMPLETE'' ''cannot claim apply; status=no journal''
        | Some j \<Rightarrow>
            if aj_status j \<noteq> ''applied''
            then raise ''APPLY_INCOMPLETE'' (''cannot claim apply; status='' @ aj_status j)
            else Ok \<lparr>wd_mode = mode, wd_patch_ref = patch_ref, wd_source_changed = True,
                     wd_applied_paths = [ae_path e. e \<leftarrow> aj_entries j, ae_status e = ''applied'']\<rparr>))"

definition authorize_publish :: "ApplyGrant option \<Rightarrow> unit result" where
  "authorize_publish publish_grant =
     (case publish_grant of
        None \<Rightarrow> raise ''PURPOSE_MISMATCH'' ''no publish grant''
      | Some g \<Rightarrow> if ag_purpose g \<noteq> ''publish'' then raise ''PURPOSE_MISMATCH'' (ag_purpose g) else Ok ())"

section \<open>Rollback\<close>

fun rollback_rows ::
  "hash_env \<Rightarrow> journal_row list \<Rightarrow> string list \<times> string list \<Rightarrow> (fsys, string list \<times> string list) op"
where
  "rollback_rows H [] acc fs = (Ok acc, fs)"
| "rollback_rows H (row # rows) (restored, preserved) fs =
     (if jr_status row \<noteq> ''applied'' then rollback_rows H rows (restored, preserved) fs
      else (case read_bytes (jr_path row) fs of
          Inl e \<Rightarrow> (Inl e, fs)
        | Inr content \<Rightarrow>
            if file_digest H content \<noteq> jr_postimage_digest row
            then rollback_rows H rows (restored, preserved @ [jr_path row]) fs
            else (case b64decode (jr_preimage_b64 row) of
                Inl e \<Rightarrow> (Inl e, fs)
              | Inr preimage \<Rightarrow>
                  (case write_bytes (jr_path row) preimage fs of
                     (Inl e, fs1) \<Rightarrow> (Inl e, fs1)
                   | (Inr u, fs1) \<Rightarrow> rollback_rows H rows (restored @ [jr_path row], preserved) fs1))))"

definition rollback_source :: "hash_env \<Rightarrow> ApplyJournal \<Rightarrow> (apply_state, RollbackReport) op" where
  "rollback_source H journal s =
     (case dict_get (ps_journals s) (aj_path journal) of
        None \<Rightarrow> (Inl (PyError ''FileNotFoundError''), s)
      | Some loaded \<Rightarrow>
          (case rollback_rows H (jd_files loaded) ([], []) (ps_fs s) of
             (Inl e, fs1) \<Rightarrow> (Inl e, s\<lparr>ps_fs := fs1\<rparr>)
           | (Inr (restored, preserved), fs1) \<Rightarrow>
               (Ok (if preserved \<noteq> []
                    then \<lparr>rb_status = ''reconciling'', rb_restored = sort restored,
                          rb_conflict_preserved = sort preserved, rb_needs_human_decision = True\<rparr>
                    else \<lparr>rb_status = ''rolled_back'', rb_restored = sort restored,
                          rb_conflict_preserved = [], rb_needs_human_decision = False\<rparr>),
                s\<lparr>ps_fs := fs1\<rparr>)))"

section \<open>The expected chain\<close>

type_synonym expected_chain = "(string, string) dict"

definition chain_expect :: "expected_chain \<Rightarrow> string \<Rightarrow> string option" where
  "chain_expect c path = dict_get c path"

definition chain_advance :: "ApplyJournal \<Rightarrow> ApplyGrant \<Rightarrow> (expected_chain, unit) op" where
  "chain_advance journal grant c =
     (let applied = [e \<leftarrow> aj_entries journal. ae_status e = ''applied''] in
      case (case ag_approved_paths grant of
              None \<Rightarrow> Ok ()
            | Some paths \<Rightarrow>
                for_each (\<lambda>e. if ae_path e \<notin> set paths then raise ''ACL_DENIED'' (ae_path e) else Ok ()) applied) of
        Inl x \<Rightarrow> (Inl x, c)
      | Inr u \<Rightarrow> (Ok (), fold (\<lambda>e. dict_set (ae_path e) (ae_postimage_digest e)) applied c))"

definition chain_check :: "expected_chain \<Rightarrow> string \<Rightarrow> string \<Rightarrow> bool" where
  "chain_check c path dg \<longleftrightarrow> dict_get c path = Some dg"

section \<open>What an apply does\<close>

definition path_key :: "FilePatch \<Rightarrow> string" where
  "path_key p = posix_str (fp_path p)"

definition failure_of :: "fsys \<Rightarrow> FilePatch \<Rightarrow> exn option" where
  "failure_of fs p = (if fs_fault fs (path_key p) = None then None else Some (PyError ''OSError''))"

definition content_after :: "fsys \<Rightarrow> FilePatch \<Rightarrow> string" where
  "content_after fs p =
     (case fs_fault fs (path_key p) of None \<Rightarrow> fp_postimage p
      | Some damage \<Rightarrow> damage (the (file_content fs (fp_path p))) (fp_postimage p))"

definition put_all :: "(FilePatch \<Rightarrow> string) \<Rightarrow> FilePatch list \<Rightarrow> fsys \<Rightarrow> fsys" where
  "put_all f ps fs = fold (\<lambda>p. put_file (fp_path p) (f p)) ps fs"

definition apply_all :: "fsys \<Rightarrow> FilePatch list \<Rightarrow> fsys" where
  "apply_all fs ps = put_all (content_after fs) ps fs"

lemma put_all_simps [simp]:
  "put_all f [] fs = fs" "put_all f (p # ps) fs = put_all f ps (put_file (fp_path p) (f p) fs)"
  by (simp_all add: put_all_def)

lemma put_all_cong: "(\<And>p. p \<in> set ps \<Longrightarrow> f p = g p) \<Longrightarrow> put_all f ps fs = put_all g ps fs"
  by (induction ps arbitrary: fs) auto

lemma put_all_content:
  "distinct (map path_key ps) \<Longrightarrow>
     file_content (put_all f ps fs) q =
       (case List.find (\<lambda>p. path_key p = posix_str q) ps of Some p \<Rightarrow> Some (f p) | None \<Rightarrow> file_content fs q)"
proof (induction ps arbitrary: fs)
  case (Cons p ps)
  have "List.find (\<lambda>x. path_key x = posix_str q) ps = None" if "path_key p = posix_str q"
    using Cons.prems that by (simp add: find_None_iff) (metis imageI)
  with Cons show ?case by (auto simp: path_key_def split: option.splits)
qed simp

lemma write_patch_step:
  assumes "file_content fs (fp_path p) = Some c"
  shows "write_bytes (fp_path p) (fp_postimage p) fs =
    (case failure_of fs p of None \<Rightarrow> Inr () | Some e \<Rightarrow> Inl e, put_file (fp_path p) (content_after fs p) fs)"
  using assms by (auto simp: write_bytes_def failure_of_def content_after_def path_key_def split: option.splits)

lemma failure_of_os [simp]: "failure_of fs p = Some e \<Longrightarrow> os_error e"
  by (auto simp: failure_of_def os_error_def split: if_splits)

lemma put_file_other:
  assumes "path_key q \<noteq> path_key p"
  shows "failure_of (put_file (fp_path p) d fs) q = failure_of fs q"
    "content_after (put_file (fp_path p) d fs) q = content_after fs q"
    "file_content (put_file (fp_path p) d fs) (fp_path q) = file_content fs (fp_path q)"
  using assms by (auto simp: failure_of_def content_after_def path_key_def split: option.splits)

lemma write_patches_spec:
  "distinct (map path_key ps) \<Longrightarrow> \<forall>p \<in> set ps. file_content fs (fp_path p) \<noteq> None \<Longrightarrow>
     write_patches H ps (st, rows, es) fs =
       (Inr (if \<exists>p \<in> set ps. failure_of fs p \<noteq> None then ''partial'' else st,
             rows @ map (\<lambda>p. patch_row H p (the (file_content fs (fp_path p))) (failure_of fs p)) ps,
             es @ map (\<lambda>p. patch_entry H p (failure_of fs p)) ps),
        apply_all fs ps)"
proof (induction ps arbitrary: fs st rows es)
  case (Cons p ps)
  let ?fs = "put_file (fp_path p) (content_after fs p) fs"
  from Cons.prems(2) obtain c where c: "file_content fs (fp_path p) = Some c" by auto
  have other: "failure_of ?fs x = failure_of fs x" "content_after ?fs x = content_after fs x"
    "file_content ?fs (fp_path x) = file_content fs (fp_path x)" if "x \<in> set ps" for x
    using Cons.prems(1) imageI [OF that, of path_key] by (intro put_file_other; auto)+
  have all: "apply_all ?fs ps = apply_all fs (p # ps)"
    unfolding apply_all_def using other(2) by (simp cong: put_all_cong)
  have IH: "write_patches H ps (st', rows', es') ?fs =
       (Inr (if \<exists>p \<in> set ps. failure_of fs p \<noteq> None then ''partial'' else st',
             rows' @ map (\<lambda>p. patch_row H p (the (file_content fs (fp_path p))) (failure_of fs p)) ps,
             es' @ map (\<lambda>p. patch_entry H p (failure_of fs p)) ps), apply_all fs (p # ps))" for st' rows' es'
    using Cons.IH [of ?fs st' rows' es'] Cons.prems other by (simp add: all cong: map_cong)
  show ?case
    using c IH write_patch_step [OF c] by (simp add: read_bytes_def split: option.splits)
qed (simp add: apply_all_def)

lemma check_patch_Ok:
  "check_patch H g fs p = Inr u \<Longrightarrow>
     check_path (fp_path p) = Inr () \<and> (\<forall>paths. ag_approved_paths g = Some paths \<longrightarrow> fp_path p \<in> set paths) \<and>
     \<not> is_symlink fs (fp_path p) \<and>
     (\<exists>c. file_content fs (fp_path p) = Some c \<and> file_digest H c = fp_preimage_digest p)"
  by (auto simp: check_patch_def rbind_eq_Ok_iff split: if_splits option.splits)

lemma apply_Ok:
  assumes "apply_to_target H ps g dir s = (Inr j, s1)" "distinct (map path_key ps)"
  shows "\<exists>gr. g = Some gr \<and> ag_purpose gr = ''source_apply'' \<and>
    (\<forall>p \<in> set ps. check_patch H gr (ps_fs s) p = Inr ()) \<and>
    ps_fs s1 = apply_all (ps_fs s) ps \<and>
    aj_entries j = map (\<lambda>p. patch_entry H p (failure_of (ps_fs s) p)) ps \<and>
    aj_status j = (if \<exists>p \<in> set ps. failure_of (ps_fs s) p \<noteq> None then ''partial'' else ''applied'') \<and>
    dict_get (ps_journals s1) (aj_path j) = Some \<lparr>jd_status = aj_status j, jd_files =
      map (\<lambda>p. patch_row H p (the (file_content (ps_fs s) (fp_path p))) (failure_of (ps_fs s) p)) ps\<rparr>"
proof -
  from assms(1) obtain gr where g: "g = Some gr" "ag_purpose gr = ''source_apply''"
    and checked: "for_each (check_patch H gr (ps_fs s)) ps = Inr ()"
    by (auto simp: apply_to_target_def split: option.splits if_splits sum.splits)
  then have ok: "\<forall>p \<in> set ps. check_patch H gr (ps_fs s) p = Inr ()" by (simp add: for_each_Ok_iff)
  then have "\<forall>p \<in> set ps. file_content (ps_fs s) (fp_path p) \<noteq> None" using check_patch_Ok by fastforce
  note w = write_patches_spec [OF assms(2) this, of H "''applied''" "[]" "[]"]
  from assms(1) have "\<not> ps_journal_fault s"
    by (auto simp: apply_to_target_def g checked w obind_Ok_iff write_journal_def Let_def)
  with assms(1) have j: "j = \<lparr>aj_journal_id = apply_journal_id H gr ps,
      aj_status = (if \<exists>p \<in> set ps. failure_of (ps_fs s) p \<noteq> None then ''partial'' else ''applied''),
      aj_entries = map (\<lambda>p. patch_entry H p (failure_of (ps_fs s) p)) ps,
      aj_path = dir @ ''/'' @ apply_journal_id H gr ps @ ''.json''\<rparr>"
    and s1: "s1 = s\<lparr>ps_fs := apply_all (ps_fs s) ps,
      ps_journals := dict_set (aj_path j) \<lparr>jd_status = aj_status j, jd_files =
        map (\<lambda>p. patch_row H p (the (file_content (ps_fs s) (fp_path p))) (failure_of (ps_fs s) p)) ps\<rparr>
        (ps_journals s)\<rparr>"
    by (auto simp: apply_to_target_def g checked w obind_Ok_iff write_journal_def Let_def split del: if_split)
  show ?thesis using ok g unfolding s1 by (simp add: j)
qed


section \<open>What a rollback does\<close>

definition still_current :: "hash_env \<Rightarrow> fsys \<Rightarrow> FilePatch \<Rightarrow> bool" where
  "still_current H fs p \<longleftrightarrow>
     file_digest H (the (file_content fs (fp_path p))) = file_digest H (fp_postimage p)"

lemma rollback_rows_spec:
  "distinct (map path_key ps) \<Longrightarrow> \<forall>p \<in> set ps. fs_fault fs (path_key p) = None \<Longrightarrow>
   \<forall>p \<in> set ps. file_content fs (fp_path p) \<noteq> None \<Longrightarrow>
     rollback_rows H (map (\<lambda>p. patch_row H p (pre p) (fail p)) ps) (rs, vs) fs =
       (Inr (rs @ map fp_path [p \<leftarrow> ps. fail p = None \<and> still_current H fs p],
             vs @ map fp_path [p \<leftarrow> ps. fail p = None \<and> \<not> still_current H fs p]),
        put_all pre [p \<leftarrow> ps. fail p = None \<and> still_current H fs p] fs)"
proof (induction ps arbitrary: fs rs vs)
  case (Cons p ps)
  from Cons.prems(3) obtain c where c: "file_content fs (fp_path p) = Some c" by auto
  let ?fs = "put_file (fp_path p) (pre p) fs"
  have other: "still_current H ?fs x = still_current H fs x" "file_content ?fs (fp_path x) = file_content fs (fp_path x)"
    if "x \<in> set ps" for x
    using Cons.prems(1) imageI [OF that, of path_key] by (auto simp: still_current_def path_key_def)
  have w: "write_bytes (fp_path p) (pre p) fs = (Inr (), ?fs)"
    using Cons.prems(2) by (intro write_bytes_ok) (simp add: path_key_def)
  have IH: "rollback_rows H (map (\<lambda>p. patch_row H p (pre p) (fail p)) ps) (rs', vs') fs' =
       (Inr (rs' @ map fp_path [p \<leftarrow> ps. fail p = None \<and> still_current H fs p],
             vs' @ map fp_path [p \<leftarrow> ps. fail p = None \<and> \<not> still_current H fs p]),
        put_all pre [p \<leftarrow> ps. fail p = None \<and> still_current H fs p] fs')"
    if "fs' = fs \<or> fs' = ?fs" for rs' vs' fs'
  proof -
    have "\<forall>x \<in> set ps. still_current H fs' x = still_current H fs x" using that other by auto
    then have eq: "[p \<leftarrow> ps. fail p = None \<and> still_current H fs' p] = [p \<leftarrow> ps. fail p = None \<and> still_current H fs p]"
      "[p \<leftarrow> ps. fail p = None \<and> \<not> still_current H fs' p] = [p \<leftarrow> ps. fail p = None \<and> \<not> still_current H fs p]"
      by (auto cong: filter_cong)
    have "\<forall>x \<in> set ps. file_content fs' (fp_path x) \<noteq> None" using that other Cons.prems(3) by auto
    then show ?thesis
      using Cons.IH [of fs' rs' vs'] Cons.prems(1,2) that unfolding eq by auto
  qed
  show ?case
    using c w IH [of fs] IH [of ?fs]
    by (auto simp: read_bytes_def patch_row_def b64decode_encode still_current_def)
qed simp


definition sample_patch :: FilePatch where
  "sample_patch = \<lparr>fp_path = ''a'', fp_preimage_digest = ''sha256:old'', fp_postimage = ''new''\<rparr>"

definition sample_grant :: ApplyGrant where
  "sample_grant = \<lparr>ag_purpose = ''source_apply'', ag_subject_digest = ''s'', ag_approved_paths = Some [''a'']\<rparr>"

definition sample_source :: "(string \<Rightarrow> (string \<Rightarrow> string \<Rightarrow> string) option) \<Rightarrow> apply_state" where
  "sample_source fault = \<lparr>ps_fs = \<lparr>fs_files = [(''a'', ''old''), (''b'', ''x'')], fs_links = [], fs_fault = fault\<rparr>,
     ps_journals = [], ps_journal_fault = False\<rparr>"

lemmas posix_eval = posix_str_def posix_root_def posix_tail_def posix_parts_def posix_is_absolute_def backslash_def

lemma sample_apply:
  "\<exists>j s1. apply_to_target plain_hash [sample_patch] (Some sample_grant) ''d'' (sample_source fault) = (Inr j, s1) \<and>
     aj_status j = (if fault ''a'' = None then ''applied'' else ''partial'') \<and>
     fs_fault (ps_fs s1) = fault \<and> file_content (ps_fs s1) ''a'' \<noteq> None"
  by (auto simp: apply_to_target_def sample_patch_def sample_grant_def sample_source_def check_patch_def
      check_path_def posix_eval is_symlink_def file_content_def file_digest_def read_bytes_def write_bytes_def
      put_file_def obind_def write_journal_def Let_def os_error_def split: option.splits)


text \<open>
  A failed write is journaled with its preimage, but a rollback skips rows that are not applied: a file
  the failure truncated stays truncated, and the rollback reports success.
\<close>

lemma rollback_skips_torn_file:
  "let s = sample_source (\<lambda>p. if p = ''a'' then Some (\<lambda>old data. take 1 data) else None);
       (r, s1) = apply_to_target plain_hash [sample_patch] (Some sample_grant) ''d'' s;
       (rep, s2) = rollback_source plain_hash (case r of Inr j \<Rightarrow> j) s1
   in file_content (ps_fs s) ''a'' = Some ''old'' \<and> file_content (ps_fs s2) ''a'' = Some ''n'' \<and>
      (case rep of Inr x \<Rightarrow> rb_status x = ''rolled_back'')"
  by code_simp

text \<open>
  Two spellings of one path are two patches of one file: both preimage checks pass before either write,
  and the rollback restores the first postimage only.
\<close>

lemma rollback_of_duplicate_path:
  "let s = sample_source (\<lambda>_. None);
       g = sample_grant\<lparr>ag_approved_paths := None\<rparr>;
       ps = [sample_patch, sample_patch\<lparr>fp_path := ''./a'', fp_postimage := ''newer''\<rparr>];
       (r, s1) = apply_to_target plain_hash ps (Some g) ''d'' s;
       (rep, s2) = rollback_source plain_hash (case r of Inr j \<Rightarrow> j) s1
   in file_content (ps_fs s1) ''a'' = Some ''newer'' \<and> file_content (ps_fs s2) ''a'' = Some ''new''"
  by code_simp

lemma chain_fold_get:
  "dict_get (fold (\<lambda>e. dict_set (ae_path e) (ae_postimage_digest e)) es c) p =
     (case List.find (\<lambda>e. ae_path e = p) (rev es) of Some e \<Rightarrow> Some (ae_postimage_digest e) | None \<Rightarrow> dict_get c p)"
  by (induction es rule: rev_induct) (auto split: option.splits)

text \<open>
  The expected chain advances all or nothing, and only within the grant: a journal with an
  applied path outside the grant's approved paths is refused and leaves the chain as it is; otherwise
  every applied path expects its last applied postimage and every other path keeps its expectation.
\<close>

theorem chain_advance_exact:
  "case chain_advance j g c of
     (Inl e, c') \<Rightarrow> c' = c \<and> (\<exists>paths. ag_approved_paths g = Some paths \<and>
        (\<exists>x \<in> set (aj_entries j). ae_status x = ''applied'' \<and> ae_path x \<notin> set paths))
   | (Inr u, c') \<Rightarrow>
       list_all (\<lambda>x. case ag_approved_paths g of None \<Rightarrow> True | Some paths \<Rightarrow> ae_path x \<in> set paths)
         [e \<leftarrow> aj_entries j. ae_status e = ''applied''] \<and>
       chain_expect c' p =
         (case List.find (\<lambda>e. ae_path e = p) (rev [e \<leftarrow> aj_entries j. ae_status e = ''applied'']) of
            Some e \<Rightarrow> Some (ae_postimage_digest e) | None \<Rightarrow> chain_expect c p)"
proof (cases "ag_approved_paths g")
  case None
  then show ?thesis
    unfolding chain_expect_def by (simp add: chain_advance_def Let_def chain_fold_get list_all_iff)
next
  case (Some paths)
  let ?check = "\<lambda>e. if ae_path e \<notin> set paths then raise ''ACL_DENIED'' (ae_path e) else Ok ()"
  let ?es = "[e \<leftarrow> aj_entries j. ae_status e = ''applied'']"
  show ?thesis
  proof (cases "for_each ?check ?es")
    case (Inl e)
    from for_each_errD [OF Inl] obtain x where "x \<in> set ?es" "?check x = Inl e" by blast
    with Some Inl show ?thesis by (auto simp: chain_advance_def Let_def split: if_splits)
  next
    case (Inr u)
    then have "\<forall>x \<in> set ?es. ae_path x \<in> set paths" by (auto simp: for_each_Ok_iff split: if_splits)
    with Some Inr show ?thesis
      unfolding chain_expect_def by (simp add: chain_advance_def Let_def chain_fold_get list_all_iff)
  qed
qed

end
