(* ===== verification/AnchoredEdit.thy ===== *)
theory AnchoredEdit
  imports Files
begin

text \<open>
  \<open>kernel/anchored_edit.py\<close>: edits anchored at exact byte ranges. Python's \<open>bytes.find\<close> and
  slices are modelled with their conventions for empty needles and negative indices; the journal files
  are the documents the service writes, by journal id.
\<close>

section \<open>Bytes\<close>

text \<open>\<open>content.find(needle, start)\<close> for \<open>start \<ge> 0\<close>: the first position, \<open>-1\<close> if there is none.\<close>

definition occurs_at :: "string \<Rightarrow> string \<Rightarrow> nat \<Rightarrow> bool" where
  "occurs_at content needle i \<longleftrightarrow>
     i + length needle \<le> length content \<and> take (length needle) (drop i content) = needle"

definition bytes_find :: "string \<Rightarrow> string \<Rightarrow> nat \<Rightarrow> int" where
  "bytes_find content needle start =
     (case List.find (occurs_at content needle) [start..<Suc (length content)] of
        None \<Rightarrow> - 1 | Some i \<Rightarrow> int i)"

text \<open>\<open>content[:i]\<close> and \<open>content[i:]\<close>\<close>

definition slice_index :: "string \<Rightarrow> int \<Rightarrow> nat" where
  "slice_index content i =
     (if i < 0 then nat (int (length content) + i) else min (nat i) (length content))"

definition slice_to :: "string \<Rightarrow> int \<Rightarrow> string" where
  "slice_to content i = take (slice_index content i) content"

definition slice_from :: "string \<Rightarrow> int \<Rightarrow> string" where
  "slice_from content i = drop (slice_index content i) content"

section \<open>Anchors and hunks\<close>

record PatchAnchor =
  an_path :: string
  an_start :: int
  an_end :: int
  an_expected_digest :: string

record EditHunk =
  hk_anchor :: PatchAnchor
  hk_replacement :: string

definition anchor_for :: "string \<Rightarrow> string \<Rightarrow> (int \<times> int) result" where
  "anchor_for content needle =
     (let first = bytes_find content needle 0 in
      if first < 0 then raise ''PATCH_STALE'' ''anchor text not found''
      else if bytes_find content needle (nat first + 1) \<ge> 0
      then raise ''INPUT_INVALID'' ''anchor text is not unique''
      else Ok (first, first + int (length needle)))"

definition range_digest :: "hash_env \<Rightarrow> string \<Rightarrow> int \<Rightarrow> int \<Rightarrow> string result" where
  "range_digest H content start end' =
     (if start < 0 \<or> end' > int (length content) \<or> start > end' then raise ''INPUT_INVALID'' ''bad byte range''
      else Ok (file_digest H (take (nat (end' - start)) (drop (nat start) content))))"

definition validate_hunk :: "hash_env \<Rightarrow> (string, string) dict \<Rightarrow> EditHunk \<Rightarrow> unit result" where
  "validate_hunk H snapshot hunk =
     (let anchor = hk_anchor hunk in
      rbind (check_path (an_path anchor)) (\<lambda>_.
        (case dict_get snapshot (an_path anchor) of
           None \<Rightarrow> raise ''SOURCE_MISSING'' (an_path anchor)
         | Some content \<Rightarrow>
             rbind (range_digest H content (an_start anchor) (an_end anchor)) (\<lambda>actual.
               if actual \<noteq> an_expected_digest anchor then raise ''PATCH_STALE'' (an_path anchor) else Ok ()))))"

definition validate_patch :: "hash_env \<Rightarrow> EditHunk list \<Rightarrow> (string, string) dict \<Rightarrow> unit result" where
  "validate_patch H hunks snapshot = for_each (validate_hunk H snapshot) hunks"

section \<open>Applying a candidate\<close>

datatype edit_journal =
    Prepared "(string, string) dict"
  | NeedsReconciliation string
  | Blocked string
  | Applied "(string, string) dict"

record edit_state =
  es_fs :: fsys
  es_journals :: "(string, edit_journal) dict"

record ApplyResult =
  ar_digests :: "(string, string) dict"
  ar_journal_id :: string

text \<open>\<open>by_path.setdefault(path, []).append(hunk)\<close>\<close>

fun group_hunks :: "EditHunk list \<Rightarrow> (string, EditHunk list) dict \<Rightarrow> (string, EditHunk list) dict" where
  "group_hunks [] d = d"
| "group_hunks (h # hs) d =
     (let path = an_path (hk_anchor h) in
      group_hunks hs (dict_set path ((case dict_get d path of None \<Rightarrow> [] | Some xs \<Rightarrow> xs) @ [h]) d))"

definition replace_hunk :: "EditHunk \<Rightarrow> string \<Rightarrow> string" where
  "replace_hunk h content =
     slice_to content (an_start (hk_anchor h)) @ hk_replacement h @ slice_from content (an_end (hk_anchor h))"

text \<open>
  \<open>sorted(path_hunks, key=start, reverse=True)\<close> is stable: hunks of one start keep their order.
\<close>

definition descending_hunks :: "EditHunk list \<Rightarrow> EditHunk list" where
  "descending_hunks hs = sort_key (\<lambda>h. - an_start (hk_anchor h)) hs"

definition edit_content :: "EditHunk list \<Rightarrow> string \<Rightarrow> string" where
  "edit_content hs content = fold replace_hunk (descending_hunks hs) content"

definition edit_file ::
  "hash_env \<Rightarrow> (string, string) dict \<Rightarrow> string \<Rightarrow> EditHunk list \<Rightarrow> (fsys, string) op"
where
  "edit_file H preimage_digests path path_hunks fs =
     (case check_path path of
        Inl e \<Rightarrow> (Inl e, fs)
      | Inr u \<Rightarrow>
          if is_symlink fs path then (raise ''PATH_ESCAPE'' (path @ '' became a symlink''), fs)
          else (case read_bytes path fs of
              Inl e \<Rightarrow> (Inl e, fs)
            | Inr content \<Rightarrow>
                (case dict_get preimage_digests path of
                   None \<Rightarrow> (Inl (PyError ''KeyError''), fs)
                 | Some expected \<Rightarrow>
                     if file_digest H content \<noteq> expected
                     then (raise ''PATCH_CONFLICT'' (path @ '' changed since validation''), fs)
                     else obind (write_bytes path (edit_content path_hunks content))
                            (\<lambda>_. oret (file_digest H (edit_content path_hunks content))) fs)))"

fun edit_files ::
  "hash_env \<Rightarrow> (string, string) dict \<Rightarrow> (string, EditHunk list) dict \<Rightarrow> (string, string) dict \<Rightarrow>
     (fsys, (string, string) dict) op"
where
  "edit_files H pre [] digests = oret digests"
| "edit_files H pre ((path, hs) # rest) digests =
     obind (edit_file H pre path hs) (\<lambda>d. edit_files H pre rest (dict_set path d digests))"

definition put_journal :: "string \<Rightarrow> edit_journal \<Rightarrow> edit_state \<Rightarrow> edit_state" where
  "put_journal journal_id doc s = s\<lparr>es_journals := dict_set journal_id doc (es_journals s)\<rparr>"

definition apply_candidate ::
  "hash_env \<Rightarrow> EditHunk list \<Rightarrow> (string, string) dict \<Rightarrow> (edit_state, ApplyResult) op"
where
  "apply_candidate H hunks preimage_digests s =
     (let journal_id = ''j'' @ str_int (int (length (es_journals s)) + 1);
          s1 = put_journal journal_id (Prepared preimage_digests) s in
      case edit_files H preimage_digests (group_hunks hunks []) [] (es_fs s1) of
        (Inr digests, fs') \<Rightarrow>
          (Ok \<lparr>ar_digests = digests, ar_journal_id = journal_id\<rparr>,
           put_journal journal_id (Applied digests) (s1\<lparr>es_fs := fs'\<rparr>))
      | (Inl e, fs') \<Rightarrow>
          (let s2 = s1\<lparr>es_fs := fs'\<rparr> in
           if os_error e
           then (raise ''APPLY_INCOMPLETE'' (exn_str e), put_journal journal_id (NeedsReconciliation (exn_str e)) s2)
           else (case e of
               CyranoError code message \<Rightarrow> (Inl e, put_journal journal_id (Blocked code) s2)
             | PyError k \<Rightarrow> (Inl e, s2))))"

section \<open>Anchors are unique occurrences\<close>

lemma find_upt: "List.find P [a..<b] = Some i \<longleftrightarrow> a \<le> i \<and> i < b \<and> P i \<and> (\<forall>k. a \<le> k \<and> k < i \<longrightarrow> \<not> P k)"
proof
  assume "List.find P [a..<b] = Some i"
  then obtain j where j: "j < b - a" "P (a + j)" "i = a + j" "\<forall>k < j. \<not> P (a + k)"
    by (auto simp: find_Some_iff)
  then have "\<not> P k" if "a \<le> k" "k < i" for k
    using that j(4) [rule_format, of "k - a"] by auto
  with j show "a \<le> i \<and> i < b \<and> P i \<and> (\<forall>k. a \<le> k \<and> k < i \<longrightarrow> \<not> P k)" by auto
next
  assume *: "a \<le> i \<and> i < b \<and> P i \<and> (\<forall>k. a \<le> k \<and> k < i \<longrightarrow> \<not> P k)"
  then have "i - a < length [a..<b] \<and> P ([a..<b] ! (i - a)) \<and> i = [a..<b] ! (i - a) \<and>
      (\<forall>j < i - a. \<not> P ([a..<b] ! j))" by auto
  then show "List.find P [a..<b] = Some i" unfolding find_Some_iff by blast
qed

lemma occurs_bound: "occurs_at content needle i \<Longrightarrow> i < Suc (length content)"
  by (simp add: occurs_at_def)

lemma bytes_find_Some:
  "bytes_find content needle start = int i \<longleftrightarrow>
     start \<le> i \<and> occurs_at content needle i \<and> (\<forall>k. start \<le> k \<and> k < i \<longrightarrow> \<not> occurs_at content needle k)"
  using find_upt [of "occurs_at content needle" start "Suc (length content)" i]
  by (auto simp: bytes_find_def occurs_bound split: option.splits)

lemma bytes_find_neg: "bytes_find content needle start < 0 \<longleftrightarrow> (\<forall>k \<ge> start. \<not> occurs_at content needle k)"
proof -
  have "bytes_find content needle start < 0 \<longleftrightarrow>
      List.find (occurs_at content needle) [start..<Suc (length content)] = None"
    by (auto simp: bytes_find_def split: option.splits)
  also have "\<dots> \<longleftrightarrow> (\<forall>k \<in> set [start..<Suc (length content)]. \<not> occurs_at content needle k)"
    by (auto simp only: find_None_iff)
  finally show ?thesis using occurs_bound by (metis atLeastLessThan_iff set_upt)
qed

text \<open>
  An anchor is the one place its text occurs: the range is returned exactly when the text
  occurs at its start and nowhere else in the file, overlapping occurrences included; otherwise the
  call fails, as stale when there is no occurrence and as ambiguous when there are several.
\<close>

theorem anchor_unique:
  "(anchor_for content needle = Inr (a, b) \<longleftrightarrow>
      (\<exists>i. a = int i \<and> b = int (i + length needle) \<and> (\<forall>k. occurs_at content needle k \<longleftrightarrow> k = i))) \<and>
   (fails_with ''PATCH_STALE'' (anchor_for content needle) \<longleftrightarrow> (\<forall>k. \<not> occurs_at content needle k)) \<and>
   (fails_with ''INPUT_INVALID'' (anchor_for content needle) \<longleftrightarrow>
      (\<exists>i k. i \<noteq> k \<and> occurs_at content needle i \<and> occurs_at content needle k))"
proof (cases "bytes_find content needle 0 < 0")
  case True
  then have none: "\<not> occurs_at content needle k" for k by (simp add: bytes_find_neg)
  from True have "anchor_for content needle = raise ''PATCH_STALE'' ''anchor text not found''"
    by (simp add: anchor_for_def)
  with none show ?thesis by auto
next
  case False
  then obtain i where i: "bytes_find content needle 0 = int i" by (metis int_nat_eq not_less)
  then have first: "occurs_at content needle i" "\<And>k. k < i \<Longrightarrow> \<not> occurs_at content needle k"
    by (simp_all add: bytes_find_Some)
  show ?thesis
  proof (cases "bytes_find content needle (nat (int i) + 1) \<ge> 0")
    case True
    with i have r: "anchor_for content needle = raise ''INPUT_INVALID'' ''anchor text is not unique''"
      by (simp add: anchor_for_def)
    from True have "\<not> (\<forall>k \<ge> Suc i. \<not> occurs_at content needle k)"
      using bytes_find_neg [of content needle "Suc i"] by auto
    then obtain k where "k > i" "occurs_at content needle k" using Suc_le_lessD by blast
    with first(1) have two: "\<And>j. \<not> (\<forall>m. occurs_at content needle m \<longleftrightarrow> m = j)" "\<exists>m. occurs_at content needle m"
      "\<exists>m n. m \<noteq> n \<and> occurs_at content needle m \<and> occurs_at content needle n"
      by (metis less_irrefl)+
    then show ?thesis unfolding r by auto
  next
    case False
    with i have r: "anchor_for content needle = Inr (int i, int i + int (length needle))"
      by (simp add: anchor_for_def Let_def)
    from False have "\<forall>k \<ge> Suc i. \<not> occurs_at content needle k"
      using bytes_find_neg [of content needle "Suc i"] by auto
    with first have only: "occurs_at content needle k \<longleftrightarrow> k = i" for k
      by (metis Suc_leI linorder_neqE_nat)
    then show ?thesis unfolding r by (auto simp: raise_def)
  qed
qed

section \<open>Edits are simultaneous replacements\<close>

definition hunk_start :: "EditHunk \<Rightarrow> nat" where "hunk_start h = nat (an_start (hk_anchor h))"
definition hunk_end :: "EditHunk \<Rightarrow> nat" where "hunk_end h = nat (an_end (hk_anchor h))"

text \<open>The hunks, in order of position from \<open>p\<close>, are ranges of a file of \<open>n\<close> bytes that do not overlap.\<close>

fun apart :: "nat \<Rightarrow> nat \<Rightarrow> EditHunk list \<Rightarrow> bool" where
  "apart n p [] \<longleftrightarrow> p \<le> n"
| "apart n p (h # hs) \<longleftrightarrow>
     0 \<le> an_start (hk_anchor h) \<and> p \<le> hunk_start h \<and> an_start (hk_anchor h) \<le> an_end (hk_anchor h) \<and>
     apart n (hunk_end h) hs"

text \<open>The reference: copy up to each range and put its replacement for it.\<close>

fun splice :: "nat \<Rightarrow> EditHunk list \<Rightarrow> string \<Rightarrow> string" where
  "splice p [] content = drop p content"
| "splice p (h # hs) content =
     take (hunk_start h - p) (drop p content) @ hk_replacement h @ splice (hunk_end h) hs content"

lemma apart_bound: "apart n p hs \<Longrightarrow> p \<le> n"
  by (induction n p hs rule: apart.induct) (auto simp: hunk_start_def hunk_end_def)

lemma fold_descending:
  "apart (length content) p hs \<Longrightarrow> fold replace_hunk (rev hs) content = take p content @ splice p hs content"
proof (induction hs arbitrary: p)
  case (Cons h hs)
  let ?s = "hunk_start h" and ?e = "hunk_end h"
  have e: "apart (length content) ?e hs" and bounds: "p \<le> ?s" "?s \<le> ?e" "0 \<le> an_start (hk_anchor h)"
    "0 \<le> an_end (hk_anchor h)"
    using Cons.prems by (auto simp: hunk_start_def hunk_end_def)
  have le: "?e \<le> length content" using apart_bound [OF e] .
  let ?c = "take ?e content @ splice ?e hs content"
  have c: "fold replace_hunk (rev hs) content = ?c" using Cons.IH [OF e] .
  have "slice_index ?c (an_start (hk_anchor h)) = ?s" "slice_index ?c (an_end (hk_anchor h)) = ?e"
    using bounds le by (auto simp: slice_index_def hunk_start_def hunk_end_def)
  then have "replace_hunk h ?c = take ?s content @ hk_replacement h @ splice ?e hs content"
    using bounds le by (simp add: replace_hunk_def slice_to_def slice_from_def min_def)
  moreover have "take ?s content = take p content @ take (?s - p) (drop p content)"
    using bounds by (metis le_add_diff_inverse take_add)
  ultimately show ?case using c by simp
qed simp

definition hunks_of :: "string \<Rightarrow> EditHunk list \<Rightarrow> EditHunk list" where
  "hunks_of path hs = [h \<leftarrow> hs. an_path (hk_anchor h) = path]"

lemma group_hunks_get:
  "dict_get (group_hunks hs d) path =
     (if hunks_of path hs = [] then dict_get d path
      else Some ((case dict_get d path of None \<Rightarrow> [] | Some xs \<Rightarrow> xs) @ hunks_of path hs))"
  by (induction hs arbitrary: d) (auto simp: hunks_of_def Let_def split: option.splits)

lemma group_hunks_wf: "dict_wf d \<Longrightarrow> dict_wf (group_hunks hs d)"
  by (induction hs arbitrary: d) (simp_all add: Let_def distinct_update)

lemma group_hunks_keys: "set (dict_keys (group_hunks hs d)) = set (dict_keys d) \<union> (\<lambda>h. an_path (hk_anchor h)) ` set hs"
  by (induction hs arbitrary: d) (auto simp: Let_def dom_update)

lemma edit_file_Ok:
  assumes "edit_file H pre path hs fs = (Inr d, fs')"
  shows "\<exists>c. check_path path = Inr () \<and> \<not> is_symlink fs path \<and> file_content fs path = Some c \<and>
    dict_get pre path = Some (file_digest H c) \<and> d = file_digest H (edit_content hs c) \<and>
    (\<forall>q. file_content fs' q = (if posix_str q = posix_str path then Some (edit_content hs c) else file_content fs q)) \<and>
    fs_links fs' = fs_links fs"
  using assms
  by (auto simp: edit_file_def read_bytes_def obind_Ok_iff write_bytes_def
      split: sum.splits if_splits option.splits)

lemma edit_files_Ok:
  "edit_files H pre groups ds fs = (Inr ds', fs') \<Longrightarrow> distinct (map (posix_str \<circ> fst) groups) \<Longrightarrow>
     (\<forall>(path, hs) \<in> set groups. \<exists>c. file_content fs path = Some c \<and> dict_get pre path = Some (file_digest H c) \<and>
        \<not> is_symlink fs path \<and> file_content fs' path = Some (edit_content hs c) \<and>
        dict_get ds' path = Some (file_digest H (edit_content hs c))) \<and>
     (\<forall>q. posix_str q \<notin> posix_str ` fst ` set groups \<longrightarrow> file_content fs' q = file_content fs q) \<and>
     (\<forall>p. p \<notin> fst ` set groups \<longrightarrow> dict_get ds' p = dict_get ds p)"
proof (induction groups arbitrary: ds fs)
  case Nil
  then show ?case by simp
next
  case (Cons g rest)
  obtain path hs where g: "g = (path, hs)" by (cases g)
  from Cons.prems(1) g obtain d fs1 where 1: "edit_file H pre path hs fs = (Inr d, fs1)"
    and 2: "edit_files H pre rest (dict_set path d ds) fs1 = (Inr ds', fs')" by (auto simp: obind_Ok_iff)
  from edit_file_Ok [OF 1] obtain c where c: "file_content fs path = Some c" "\<not> is_symlink fs path"
    "dict_get pre path = Some (file_digest H c)" "d = file_digest H (edit_content hs c)"
    and fs1: "\<And>q. file_content fs1 q = (if posix_str q = posix_str path then Some (edit_content hs c) else file_content fs q)"
    and links: "fs_links fs1 = fs_links fs" by blast
  from Cons.prems(2) g have dist: "distinct (map (posix_str \<circ> fst) rest)"
    and fresh: "posix_str path \<notin> posix_str ` fst ` set rest" by (auto simp: image_comp comp_def)
  note IH = Cons.IH [OF 2 dist]
  have rest: "\<exists>c. file_content fs p = Some c \<and> dict_get pre p = Some (file_digest H c) \<and>
        \<not> is_symlink fs p \<and> file_content fs' p = Some (edit_content ks c) \<and>
        dict_get ds' p = Some (file_digest H (edit_content ks c))" if "(p, ks) \<in> set rest" for p ks
  proof -
    have "posix_str p \<in> posix_str ` fst ` set rest" using imageI [OF imageI [OF that, of fst], of posix_str] by simp
    then have "posix_str p \<noteq> posix_str path" using fresh by metis
    then have same: "file_content fs1 p = file_content fs p" "is_symlink fs1 p = is_symlink fs p"
      using fs1 links by (simp_all add: is_symlink_def)
    show ?thesis using bspec [OF conjunct1 [OF IH] that] by (simp add: same)
  qed
  have "path \<notin> fst ` set rest" using fresh imageI [of path _ posix_str] by blast
  with IH c(4) have "file_content fs' path = Some (edit_content hs c)"
    "dict_get ds' path = Some (file_digest H (edit_content hs c))" using fresh fs1 [of path] by auto
  with c have head: "\<exists>c. file_content fs path = Some c \<and> dict_get pre path = Some (file_digest H c) \<and>
      \<not> is_symlink fs path \<and> file_content fs' path = Some (edit_content hs c) \<and>
      dict_get ds' path = Some (file_digest H (edit_content hs c))" by blast
  have "file_content fs' q = file_content fs q" if "posix_str q \<notin> posix_str ` fst ` set (g # rest)" for q
    using IH that fs1 [of q] g by simp
  moreover have "dict_get ds' p = dict_get ds p" if "p \<notin> fst ` set (g # rest)" for p
    using IH that g by simp
  ultimately show ?case using head rest unfolding g by auto
qed


definition sample_hunk :: "int \<Rightarrow> int \<Rightarrow> string \<Rightarrow> string \<Rightarrow> EditHunk" where
  "sample_hunk a b old new =
     \<lparr>hk_anchor = \<lparr>an_path = ''f'', an_start = a, an_end = b, an_expected_digest = ''sha256:'' @ old\<rparr>,
      hk_replacement = new\<rparr>"

definition sample_edit_state :: edit_state where
  "sample_edit_state =
     \<lparr>es_fs = \<lparr>fs_files = [(''f'', ''abcdef'')], fs_links = [], fs_fault = (\<lambda>_. None)\<rparr>, es_journals = []\<rparr>"

lemma sample_candidate:
  "case apply_candidate plain_hash [sample_hunk 0 1 ''a'' ''XY'', sample_hunk 3 5 ''de'' ''''] [(''f'', ''sha256:abcdef'')]
      sample_edit_state of
     (Inl e, s') \<Rightarrow> False
   | (Inr res, s') \<Rightarrow> file_content (es_fs s') ''f'' = Some ''XYbcf''"
  by code_simp


text \<open>
  Overlapping ranges pass validation, each against the same snapshot, and are then applied to what the
  later range left: the result is not the replacement of either.
\<close>

lemma overlapping_hunks_accepted:
  "let hs = [sample_hunk 0 4 ''abcd'' ''1'', sample_hunk 2 6 ''cdef'' ''2''] in
   validate_patch plain_hash hs [(''f'', ''abcdef'')] = Inr () \<and>
   edit_content hs ''abcdef'' = ''1''"
  by code_simp

end
