(* ===== verification/PlanSubject.thy ===== *)
theory PlanSubject
  imports PyObj
begin

text \<open>
  \<open>planning/subject.py\<close>: work units and plans, the projection of a plan that carries its execution
  meaning, and the sealed subject that reviews and approvals bind to by digest.
\<close>

section \<open>Plans\<close>

definition PRESENTATION_KEYS :: "string list" where
  "PRESENTATION_KEYS = [''progress'', ''display_text'', ''cursor'', ''review_response'', ''approval_ref'',
     ''execution_permit_ref'', ''signature'', ''execution_result'', ''title'', ''notes'']"

record WorkUnitSpec =
  wu_unit_id :: string
  wu_requirement_ids :: "string list"
  wu_acceptance_ids :: "string list"
  wu_dependencies :: "string list"
  wu_write_paths :: "string list"
  wu_read_refs :: "string list"
  wu_consumes :: "string list"
  wu_produces :: "string list"
  wu_exclusive_resources :: "string list"
  wu_test_recipe :: "string option"
  wu_test_oracle :: "string option"
  wu_cost_cap :: "int option"
  wu_effects :: "string list"
  wu_recovery :: "string option"
  wu_owner :: string

record GovernedWorkPlan =
  gp_plan_id :: string
  gp_revision :: int
  gp_requirements :: "string list"
  gp_units :: "WorkUnitSpec list"
  gp_delivery_mode :: string
  gp_budget_cap :: "int option"
  gp_external_effects :: "string list"
  gp_rollback :: "string option"

record PlanReviewSubject =
  sj_subject_id :: string
  sj_plan_id :: string
  sj_revision :: int
  sj_scope :: "(string, string) dict"
  sj_requirements_digest :: string
  sj_work_plan_digest :: string
  sj_source_snapshot_digest :: string
  sj_test_plan_digest :: string
  sj_budget_cap :: "int option"
  sj_external_effects :: "string list"
  sj_recovery_ref :: "string option"

section \<open>Projection\<close>

fun strip_presentation :: "pyobj \<Rightarrow> pyobj" where
  "strip_presentation (PDict kvs) =
     PDict (map (\<lambda>(k, v). (k, strip_presentation v))
       (filter (\<lambda>(k, v). k \<notin> KStr ` set PRESENTATION_KEYS) kvs))"
| "strip_presentation (PList xs) = PList (map strip_presentation xs)"
| "strip_presentation (PTuple xs) = PList (map strip_presentation xs)"
| "strip_presentation v = v"

definition key_str :: "pykey \<Rightarrow> string" where
  "key_str k = (case k of KStr s \<Rightarrow> s | KOther r \<Rightarrow> r)"

function reject_subject_refs :: "pyobj \<Rightarrow> string \<Rightarrow> unit result"
  and reject_refs_items :: "(pykey \<times> pyobj) list \<Rightarrow> string \<Rightarrow> unit result"
  and reject_refs_list :: "pyobj list \<Rightarrow> nat \<Rightarrow> string \<Rightarrow> unit result"
where
  "reject_subject_refs v path =
     (case v of
        PDict kvs \<Rightarrow> reject_refs_items kvs path
      | PList xs \<Rightarrow> reject_refs_list xs 0 path
      | PTuple xs \<Rightarrow> reject_refs_list xs 0 path
      | _ \<Rightarrow> Ok ())"
| "reject_refs_items [] path = Ok ()"
| "reject_refs_items ((key, item) # kvs) path =
     (if key \<in> {KStr ''subject_digest'', KStr ''approval_receipt'', KStr ''permit''}
      then raise ''INVALID_SUBJECT_PROJECTION'' (path @ ''.'' @ key_str key @ '' feeds back into the subject'')
      else rbind (reject_subject_refs item (path @ ''.'' @ key_str key)) (\<lambda>_. reject_refs_items kvs path))"
| "reject_refs_list [] index path = Ok ()"
| "reject_refs_list (item # xs) index path =
     rbind (reject_subject_refs item (path @ ''['' @ str_int (int index) @ '']''))
       (\<lambda>_. reject_refs_list xs (Suc index) path)"
  by pat_completeness auto
termination
  by (relation "measure (\<lambda>x. case x of Inl (v, p) \<Rightarrow> 2 * size v
      | Inr (Inl (kvs, p)) \<Rightarrow> 2 * size_list (size_prod (\<lambda>_. 0) size) kvs + 1
      | Inr (Inr (xs, i, p)) \<Rightarrow> 2 * size_list size xs + 1)") auto

declare reject_subject_refs.simps [simp del]

definition strs :: "string list \<Rightarrow> pyobj" where
  "strs ss = PList (map PStr ss)"

definition opt_str :: "string option \<Rightarrow> pyobj" where
  "opt_str s = (case s of None \<Rightarrow> PNone | Some x \<Rightarrow> PStr x)"

definition opt_int :: "int option \<Rightarrow> pyobj" where
  "opt_int i = (case i of None \<Rightarrow> PNone | Some x \<Rightarrow> PInt x)"

definition unit_keys :: "string list" where
  "unit_keys = [''unit_id'', ''requirement_ids'', ''acceptance_ids'', ''dependencies'', ''write_paths'',
     ''consumes'', ''produces'', ''exclusive_resources'', ''test_recipe'', ''test_oracle'', ''cost_cap'',
     ''effects'', ''recovery'', ''owner'']"

definition unit_values :: "WorkUnitSpec \<Rightarrow> pyobj list" where
  "unit_values u = [PStr (wu_unit_id u), strs (sort (wu_requirement_ids u)), strs (sort (wu_acceptance_ids u)),
     strs (sort (wu_dependencies u)), strs (sort (wu_write_paths u)), strs (sort (wu_consumes u)),
     strs (sort (wu_produces u)), strs (sort (wu_exclusive_resources u)), opt_str (wu_test_recipe u),
     opt_str (wu_test_oracle u), opt_int (wu_cost_cap u), strs (sort (wu_effects u)), opt_str (wu_recovery u),
     PStr (wu_owner u)]"

definition plan_keys :: "string list" where
  "plan_keys = [''plan_id'', ''revision'', ''delivery_mode'', ''budget_cap'', ''external_effects'',
     ''rollback'', ''requirements'', ''units'']"

definition plan_values :: "GovernedWorkPlan \<Rightarrow> pyobj list" where
  "plan_values p = [PStr (gp_plan_id p), PInt (gp_revision p), PStr (gp_delivery_mode p),
     opt_int (gp_budget_cap p), strs (sort (gp_external_effects p)), opt_str (gp_rollback p),
     strs (sort (gp_requirements p)),
     PList (map (\<lambda>u. obj_dict (zip unit_keys (unit_values u))) (sort_key wu_unit_id (gp_units p)))]"

definition plan_projection :: "GovernedWorkPlan \<Rightarrow> pyobj" where
  "plan_projection p = obj_dict (zip plan_keys (plan_values p))"

section \<open>Subjects\<close>

definition build_subject ::
  "hash_env \<Rightarrow> GovernedWorkPlan \<Rightarrow> pymap \<Rightarrow> pymap \<Rightarrow> (string, string) dict \<Rightarrow> string \<Rightarrow> PlanReviewSubject result"
where
  "build_subject H plan requirements_doc source_snapshot scope subject_id =
     (let projection = strip_presentation (plan_projection plan) in
      rbind (reject_subject_refs projection ''plan'') (\<lambda>_.
      rbind (for_each (\<lambda>(name, v). reject_subject_refs v name)
        [(''scope'', obj_dict (map (\<lambda>(k, v). (k, PStr v)) scope)), (''requirements'', obj_dict requirements_doc),
         (''source_snapshot'', obj_dict source_snapshot)]) (\<lambda>_.
      if gp_requirements plan = [] then raise ''INVALID_PLAN'' ''a plan needs requirements''
      else
        rbind (digest H (strip_presentation (obj_dict requirements_doc))) (\<lambda>requirements_digest.
        rbind (digest H projection) (\<lambda>work_plan_digest.
        rbind (digest H (strip_presentation (obj_dict source_snapshot))) (\<lambda>source_snapshot_digest.
        rbind (digest H (strs (sort (map (\<lambda>u. case wu_test_recipe u of None \<Rightarrow> [] | Some r \<Rightarrow> r) (gp_units plan)))))
          (\<lambda>test_plan_digest.
            Ok \<lparr>sj_subject_id = subject_id, sj_plan_id = gp_plan_id plan, sj_revision = gp_revision plan,
                sj_scope = scope, sj_requirements_digest = requirements_digest,
                sj_work_plan_digest = work_plan_digest, sj_source_snapshot_digest = source_snapshot_digest,
                sj_test_plan_digest = test_plan_digest, sj_budget_cap = gp_budget_cap plan,
                sj_external_effects = sort (gp_external_effects plan),
                sj_recovery_ref = gp_rollback plan\<rparr>)))))))"

definition subject_keys :: "string list" where
  "subject_keys = [''subject_id'', ''plan_id'', ''revision'', ''scope'', ''requirements_digest'',
     ''work_plan_digest'', ''source_snapshot_digest'', ''test_plan_digest'', ''budget_cap'',
     ''external_effects'', ''recovery_ref'']"

definition subject_values :: "PlanReviewSubject \<Rightarrow> pyobj list" where
  "subject_values s = [PStr (sj_subject_id s), PStr (sj_plan_id s), PInt (sj_revision s),
     obj_dict (map (\<lambda>(k, v). (k, PStr v)) (sj_scope s)), PStr (sj_requirements_digest s),
     PStr (sj_work_plan_digest s), PStr (sj_source_snapshot_digest s), PStr (sj_test_plan_digest s),
     opt_int (sj_budget_cap s), strs (sort (sj_external_effects s)), opt_str (sj_recovery_ref s)]"

definition subject_digest :: "hash_env \<Rightarrow> PlanReviewSubject \<Rightarrow> string result" where
  "subject_digest H subject = digest H (obj_dict (zip subject_keys (subject_values subject)))"

text \<open>
  Python's \<open>==\<close> on such values: mappings regardless of order, booleans as the integers 0 and 1;
  other objects are equal when their \<open>repr\<close> is.
\<close>

lemma zip_size_less: "(a, b) \<in> set (zip xs ys) \<Longrightarrow> size a < Suc (size_list size xs)"
  using size_list_estimation' [of a xs "size a" size] by (auto dest: set_zip_leftD)

lemma pair_size_less: "(k, b) \<in> set kvs \<Longrightarrow> size b < Suc (size_list (size_prod (\<lambda>_. 0) size) kvs)"
  using size_list_estimation' [of "(k, b)" kvs "size b" "size_prod (\<lambda>_. 0) size"] by simp

fun py_num :: "pyobj \<Rightarrow> int option" where
  "py_num (PBool b) = Some (if b then 1 else 0)"
| "py_num (PInt i) = Some i"
| "py_num v = None"

function py_eq :: "pyobj \<Rightarrow> pyobj \<Rightarrow> bool" where
  "py_eq v w =
     (case (v, w) of
        (PList xs, PList ys) \<Rightarrow> length xs = length ys \<and> list_all (\<lambda>(x, y). py_eq x y) (zip xs ys)
      | (PTuple xs, PTuple ys) \<Rightarrow> length xs = length ys \<and> list_all (\<lambda>(x, y). py_eq x y) (zip xs ys)
      | (PDict kvs, PDict kws) \<Rightarrow> length kvs = length kws \<and>
          list_all (\<lambda>(k, x). case map_of kws k of None \<Rightarrow> False | Some y \<Rightarrow> py_eq x y) kvs
      | _ \<Rightarrow> (if py_num v \<noteq> None \<or> py_num w \<noteq> None then py_num v = py_num w else v = w))"
  by pat_completeness auto
termination
  by (relation "measure (\<lambda>(v, w). size v)") (auto simp: zip_size_less pair_size_less)

declare py_eq.simps [simp del]

definition presentation_only_change :: "pyobj \<Rightarrow> pyobj \<Rightarrow> bool" where
  "presentation_only_change old new \<longleftrightarrow> py_eq (strip_presentation old) (strip_presentation new)"

section \<open>What a sealed plan fixes\<close>

text \<open>The execution meaning of units and plans: every field the projection carries, text normalized.\<close>

definition texts :: "hash_env \<Rightarrow> string list \<Rightarrow> string list" where
  "texts H ss = map (norm_text H) (sort ss)"

definition unit_terms :: "hash_env \<Rightarrow> WorkUnitSpec \<Rightarrow> string list \<times> string list list \<times> string option list \<times> int option" where
  "unit_terms H u =
     ([norm_text H (wu_unit_id u), norm_text H (wu_owner u)],
      [texts H (wu_requirement_ids u), texts H (wu_acceptance_ids u), texts H (wu_dependencies u),
       texts H (wu_write_paths u), texts H (wu_consumes u), texts H (wu_produces u),
       texts H (wu_exclusive_resources u), texts H (wu_effects u)],
      map (map_option (norm_text H)) [wu_test_recipe u, wu_test_oracle u, wu_recovery u], wu_cost_cap u)"

definition plan_terms where
  "plan_terms H p =
     (norm_text H (gp_plan_id p), gp_revision p, norm_text H (gp_delivery_mode p), gp_budget_cap p,
      texts H (gp_external_effects p), map_option (norm_text H) (gp_rollback p), texts H (gp_requirements p),
      map (unit_terms H) (sort_key wu_unit_id (gp_units p)))"

lemma meaning_strs: "meaning H (strs ss) = Some (DList (map (DStr \<circ> norm_text H) ss))"
  by (simp add: meaning_list strs_def comp_def those_eq_Some)

lemma map_DStr_eq: "map (DStr \<circ> norm_text H) ss = map (DStr \<circ> norm_text H) ts \<longleftrightarrow>
    map (norm_text H) ss = map (norm_text H) ts"
  by (simp add: inj_map_eq_map inj_def flip: map_map)

lemma strs_meaning_eq: "meaning H (strs (sort ss)) = meaning H (strs (sort ts)) \<longleftrightarrow> texts H ss = texts H ts"
  by (simp add: meaning_strs texts_def map_DStr_eq)

lemma opt_str_meaning_eq:
  "meaning H (opt_str s) = meaning H (opt_str t) \<longleftrightarrow> map_option (norm_text H) s = map_option (norm_text H) t"
  by (cases s; cases t) (simp_all add: opt_str_def)

lemma opt_int_meaning_eq:
  "meaning H (opt_int a) = meaning H (opt_int b) \<Longrightarrow>
     None \<noteq> meaning H (opt_int a) \<or> None \<noteq> meaning H (opt_int b) \<Longrightarrow> a = b"
  by (auto simp: opt_int_def split: option.splits if_splits)

lemma unit_keys_ok: "distinct unit_keys" "list_all ascii unit_keys" "length unit_keys = length (unit_values u)"
  by (simp_all add: unit_keys_def unit_values_def ascii_def)

lemma plan_keys_ok: "distinct plan_keys" "list_all ascii plan_keys" "length plan_keys = length (plan_values p)"
  by (simp_all add: plan_keys_def plan_values_def ascii_def)

lemma unit_meaning_eq:
  assumes "nfc_ascii H"
    and "meaning H (obj_dict (zip unit_keys (unit_values u))) = meaning H (obj_dict (zip unit_keys (unit_values v)))"
    and "meaning H (obj_dict (zip unit_keys (unit_values u))) \<noteq> None"
  shows "unit_terms H u = unit_terms H v"
proof -
  note * = meaning_obj_dict_eq [OF assms(1) unit_keys_ok(3,3,1,2) assms(2,3)]
  have cap: "wu_cost_cap u = wu_cost_cap v"
    using * by (intro opt_int_meaning_eq [of H]) (auto simp add: unit_values_def)
  with * cap show ?thesis
    by (simp add: unit_values_def unit_terms_def strs_meaning_eq opt_str_meaning_eq)
qed

lemma plan_meaning_eq:
  assumes "nfc_ascii H" "meaning H (plan_projection p) = meaning H (plan_projection q)"
    and "meaning H (plan_projection p) \<noteq> None"
  shows "plan_terms H p = plan_terms H q"
proof -
  note * = meaning_obj_dict_eq [OF assms(1) plan_keys_ok(3,3,1,2) assms(2,3) [unfolded plan_projection_def]]
  let ?us = "map (\<lambda>u. obj_dict (zip unit_keys (unit_values u))) (sort_key wu_unit_id (gp_units p))"
  let ?vs = "map (\<lambda>u. obj_dict (zip unit_keys (unit_values u))) (sort_key wu_unit_id (gp_units q))"
  have cap: "gp_budget_cap p = gp_budget_cap q"
    using * by (intro opt_int_meaning_eq [of H]) (auto simp add: plan_values_def)
  have rev: "gp_revision p = gp_revision q" using * by (auto simp: plan_values_def split: if_splits)
  have "meaning H (PList ?us) = meaning H (PList ?vs)" using * by (simp add: plan_values_def)
  moreover have "None \<noteq> meaning H (PList ?us)" using conjunct2 [OF *] by (simp add: plan_values_def)
  ultimately have m: "map (meaning H) ?us = map (meaning H) ?vs" "None \<notin> set (map (meaning H) ?us)"
    using meaning_list_eq [OF _ not_sym] by blast+
  have units: "map (unit_terms H) (sort_key wu_unit_id (gp_units p)) = map (unit_terms H) (sort_key wu_unit_id (gp_units q))"
  proof (rule nth_equalityI)
    show len: "length (map (unit_terms H) (sort_key wu_unit_id (gp_units p))) =
        length (map (unit_terms H) (sort_key wu_unit_id (gp_units q)))"
      using arg_cong [OF m(1), of length] by simp
    fix i
    assume "i < length (map (unit_terms H) (sort_key wu_unit_id (gp_units p)))"
    then have i: "i < length ?us" "i < length ?vs" using len by simp_all
    then have "meaning H (?us ! i) = meaning H (?vs ! i)" using arg_cong [OF m(1), of "\<lambda>xs. xs ! i"] by simp
    moreover have "meaning H (?us ! i) \<noteq> None"
      using m(2) i(1) by (metis length_map nth_map nth_mem)
    moreover have "?us ! i = obj_dict (zip unit_keys (unit_values (sort_key wu_unit_id (gp_units p) ! i)))"
      "?vs ! i = obj_dict (zip unit_keys (unit_values (sort_key wu_unit_id (gp_units q) ! i)))"
      using i by (simp_all only: length_map nth_map)
    ultimately have "unit_terms H (sort_key wu_unit_id (gp_units p) ! i) = unit_terms H (sort_key wu_unit_id (gp_units q) ! i)"
      by (intro unit_meaning_eq [OF assms(1)]) (simp_all only: not_False_eq_True)
    then show "map (unit_terms H) (sort_key wu_unit_id (gp_units p)) ! i =
        map (unit_terms H) (sort_key wu_unit_id (gp_units q)) ! i"
      using i by (simp only: length_map nth_map)
  qed
  have "norm_text H (gp_plan_id p) = norm_text H (gp_plan_id q)"
    "norm_text H (gp_delivery_mode p) = norm_text H (gp_delivery_mode q)"
    "texts H (gp_external_effects p) = texts H (gp_external_effects q)"
    "map_option (norm_text H) (gp_rollback p) = map_option (norm_text H) (gp_rollback q)"
    "texts H (gp_requirements p) = texts H (gp_requirements q)"
    using conjunct1 [OF *] by (simp_all add: plan_values_def strs_meaning_eq opt_str_meaning_eq)
  with cap rev units show ?thesis unfolding plan_terms_def by (simp only:)
qed

lemma strip_atoms [simp]:
  "strip_presentation (strs ss) = strs ss" "strip_presentation (opt_str s) = opt_str s"
  "strip_presentation (opt_int i) = opt_int i"
  by (simp_all add: strs_def opt_str_def opt_int_def split: option.splits)

lemma strip_unit: "strip_presentation (obj_dict (zip unit_keys (unit_values u))) = obj_dict (zip unit_keys (unit_values u))"
  by (simp add: obj_dict_def unit_keys_def unit_values_def PRESENTATION_KEYS_def)

lemma strip_projection: "strip_presentation (plan_projection p) = plan_projection p"
proof -
  have units: "strip_presentation (PList (map (\<lambda>u. obj_dict (zip unit_keys (unit_values u))) us)) =
      PList (map (\<lambda>u. obj_dict (zip unit_keys (unit_values u))) us)" for us
    by (simp add: strip_unit)
  show ?thesis
    unfolding plan_projection_def plan_keys_def plan_values_def obj_dict_def [of "zip _ [_, _, _, _, _, _, _, _]"]
    by (simp add: PRESENTATION_KEYS_def units del: strip_presentation.simps(2))
qed

lemma build_subject_Ok:
  "build_subject H p req src scope sid = Inr s \<Longrightarrow>
     digest H (plan_projection p) = Inr (sj_work_plan_digest s) \<and> gp_requirements p \<noteq> [] \<and>
     sj_plan_id s = gp_plan_id p \<and> sj_revision s = gp_revision p \<and> sj_budget_cap s = gp_budget_cap p"
  by (auto simp: build_subject_def Let_def strip_projection rbind_eq_Ok_iff split: if_splits)

definition sample_unit :: "string \<Rightarrow> string list \<Rightarrow> WorkUnitSpec" where
  "sample_unit uid deps =
     \<lparr>wu_unit_id = uid, wu_requirement_ids = [''r1''], wu_acceptance_ids = [''a1''], wu_dependencies = deps,
      wu_write_paths = [''src/'' @ uid], wu_read_refs = [], wu_consumes = [], wu_produces = [],
      wu_exclusive_resources = [], wu_test_recipe = Some ''pytest'', wu_test_oracle = Some ''exit0'',
      wu_cost_cap = Some 3, wu_effects = [], wu_recovery = None, wu_owner = ''implementer''\<rparr>"

definition sample_plan :: "WorkUnitSpec list \<Rightarrow> GovernedWorkPlan" where
  "sample_plan us =
     \<lparr>gp_plan_id = ''p'', gp_revision = 1, gp_requirements = [''r1''], gp_units = us,
      gp_delivery_mode = ''patch_only'', gp_budget_cap = Some 10, gp_external_effects = [], gp_rollback = None\<rparr>"


lemma sample_subjects_build:
  "case (build_subject plain_hash (sample_plan [sample_unit ''u1'' [], sample_unit ''u2'' [''u1'']]) [] [] [] ''x'',
         build_subject plain_hash (sample_plan [sample_unit ''u2'' [''u1''], sample_unit ''u1'' []]) [] [] [] ''x'') of
     (Inr s, Inr t) \<Rightarrow> sj_work_plan_digest s = sj_work_plan_digest t
   | _ \<Rightarrow> False"
  by code_simp


section \<open>No feedback\<close>

fun embeds_receipt :: "pyobj \<Rightarrow> bool" where
  "embeds_receipt (PDict kvs) =
     list_ex (\<lambda>(k, v). k \<in> {KStr ''subject_digest'', KStr ''approval_receipt'', KStr ''permit''} \<or> embeds_receipt v) kvs"
| "embeds_receipt (PList xs) = list_ex embeds_receipt xs"
| "embeds_receipt (PTuple xs) = list_ex embeds_receipt xs"
| "embeds_receipt v = False"

lemma reject_refs_iff:
  "reject_subject_refs v path = Inr () \<longleftrightarrow> \<not> embeds_receipt v"
  "reject_refs_items kvs path = Inr () \<longleftrightarrow> \<not> embeds_receipt (PDict kvs)"
  "reject_refs_list xs i path = Inr () \<longleftrightarrow> \<not> embeds_receipt (PList xs)"
proof (induction v path and kvs path and xs i path rule: reject_subject_refs_reject_refs_items_reject_refs_list.induct)
  case (1 v path)
  then show ?case by (subst reject_subject_refs.simps) (cases v; simp)
next
  case (3 key item kvs path)
  then show ?case by (auto simp: reject_subject_refs.simps rbind_eq_Ok_iff)
qed (auto simp: reject_subject_refs.simps rbind_eq_Ok_iff)

end
