(* ===== verification/PlanChanges.thy ===== *)
theory PlanChanges
  imports PlanSubject Worklist Cas "HOL-Library.Multiset"
begin

text \<open>
  \<open>planning/changes.py\<close>: what a change of a plan does to its execution meaning (classification), which
  units it reaches (the reverse closure over dependencies and interfaces), and the compare-and-swap
  store of plan revisions.
\<close>

section \<open>Equality of projections\<close>

lemma py_eq_strs [simp]: "py_eq (PStr a) (PStr b) \<longleftrightarrow> a = b"
  by (simp add: py_eq.simps)

lemma py_eq_list: "py_eq (PList xs) (PList ys) \<longleftrightarrow> list_all2 py_eq xs ys"
  by (subst py_eq.simps) (simp add: list_all2_iff list_all_iff)

lemma py_eq_strs_list [simp]: "py_eq (strs ss) (strs ts) \<longleftrightarrow> ss = ts"
  by (simp add: strs_def py_eq_list list_all2_map1 list_all2_map2 list.rel_eq)

lemma strs_inject [simp]: "strs ss = strs ts \<longleftrightarrow> ss = ts"
  by (simp add: strs_def inj_map_eq_map inj_def)

lemma opt_inject [simp]: "opt_str a = opt_str b \<longleftrightarrow> a = b" "opt_int m = opt_int n \<longleftrightarrow> m = n"
  by (auto simp: opt_str_def opt_int_def split: option.splits)

lemma py_eq_opt [simp]:
  "py_eq (opt_str s) (opt_str t) \<longleftrightarrow> s = t" "py_eq (opt_int i) (opt_int j) \<longleftrightarrow> i = j"
  "py_eq (PInt m) (PInt n) \<longleftrightarrow> m = n"
  by (auto simp: opt_str_def opt_int_def py_eq.simps split: option.splits)

lemma py_eq_obj_dict:
  assumes "distinct ks" "length ks = length vs" "length ks = length ws"
  shows "py_eq (obj_dict (zip ks vs)) (obj_dict (zip ks ws)) \<longleftrightarrow> list_all2 py_eq vs ws"
proof -
  let ?kvs = "map (\<lambda>(k, v). (KStr k, v)) (zip ks vs)" and ?kws = "map (\<lambda>(k, v). (KStr k, v)) (zip ks ws)"
  have look: "map_of ?kws (KStr (ks ! i)) = Some (ws ! i)" if "i < length ks" for i
  proof (rule map_of_is_SomeI)
    have "map fst ?kws = map KStr (map fst (zip ks ws))" by (simp add: comp_def case_prod_unfold)
    then show "distinct (map fst ?kws)" using assms by (simp add: distinct_map inj_on_def)
    show "(KStr (ks ! i), ws ! i) \<in> set ?kws" using that assms by (force simp: set_zip)
  qed
  have "py_eq (obj_dict (zip ks vs)) (obj_dict (zip ks ws)) \<longleftrightarrow>
      (\<forall>i < length ks. case map_of ?kws (KStr (ks ! i)) of None \<Rightarrow> False | Some y \<Rightarrow> py_eq (vs ! i) y)"
    using assms by (subst py_eq.simps) (simp add: obj_dict_def list_all_length)
  also have "\<dots> \<longleftrightarrow> (\<forall>i < length ks. py_eq (vs ! i) (ws ! i))" by (simp add: look)
  also have "\<dots> \<longleftrightarrow> list_all2 py_eq vs ws" using assms by (simp add: list_all2_conv_all_nth)
  finally show ?thesis .
qed

lemma py_eq_unit:
  "py_eq (obj_dict (zip unit_keys (unit_values u))) (obj_dict (zip unit_keys (unit_values v))) \<longleftrightarrow>
     unit_values u = unit_values v"
  by (subst py_eq_obj_dict) (simp_all add: unit_keys_ok, simp add: unit_values_def)

lemma py_eq_projection: "py_eq (plan_projection p) (plan_projection q) \<longleftrightarrow> plan_projection p = plan_projection q"
proof
  let ?us = "\<lambda>p. map (\<lambda>u. obj_dict (zip unit_keys (unit_values u))) (sort_key wu_unit_id (gp_units p))"
  assume "py_eq (plan_projection p) (plan_projection q)"
  then have vals: "list_all2 py_eq (plan_values p) (plan_values q)"
    unfolding plan_projection_def by (subst (asm) py_eq_obj_dict) (simp_all add: plan_keys_ok)
  then have "py_eq (PList (?us p)) (PList (?us q))" by (simp add: plan_values_def)
  then have "?us p = ?us q"
    by (auto simp: py_eq_list list_all2_map1 list_all2_map2 py_eq_unit list_all2_conv_all_nth intro!: nth_equalityI)
  with vals show "plan_projection p = plan_projection q"
    unfolding plan_projection_def by (simp add: plan_values_def)
next
  assume "plan_projection p = plan_projection q"
  moreover have "py_eq (plan_projection q) (plan_projection q)"
    unfolding plan_projection_def
    by (subst py_eq_obj_dict) (simp_all add: plan_keys_ok, simp add: plan_values_def py_eq_list list.rel_map py_eq_unit list_all2_refl)
  ultimately show "py_eq (plan_projection p) (plan_projection q)" by simp
qed

lemma presentation_only_iff:
  "presentation_only_change (plan_projection p) (plan_projection q) \<longleftrightarrow> plan_projection p = plan_projection q"
  by (simp add: presentation_only_change_def strip_projection py_eq_projection)

section \<open>The change and its closure\<close>

definition CLASSIFICATIONS :: "string list" where
  "CLASSIFICATIONS = [''presentation_only'', ''delegated_choice'', ''execution_meaning_change'', ''unknown'']"

record ChangeImpact =
  im_classification :: string
  im_changed_requirements :: "string list"
  im_changed_paths :: "string list"
  im_affected_units :: "string list"
  im_invalidated_reviews :: "string list"
  im_requires_new_review :: bool
  im_requires_new_approval :: bool

type_synonym unit_table = "(string, WorkUnitSpec) dict"

text \<open>\<open>{u.unit_id: u for u in plan.units}\<close>\<close>

abbreviation units_by_id :: "GovernedWorkPlan \<Rightarrow> unit_table" where
  "units_by_id p \<equiv> index_by wu_unit_id (gp_units p)"

text \<open>\<open>dependents.setdefault(dep, set()).add(uid)\<close>; a set is the list of its elements.\<close>

definition add_dependent :: "string \<Rightarrow> string \<Rightarrow> (string, string list) dict \<Rightarrow> (string, string list) dict" where
  "add_dependent dep uid t = dict_set dep (List.insert uid (succs t dep)) t"

definition dependency_table :: "unit_table \<Rightarrow> (string, string list) dict" where
  "dependency_table units =
     fold (\<lambda>(uid, u). fold (\<lambda>dep. add_dependent dep uid) (wu_dependencies u)) units []"

definition producer_table :: "unit_table \<Rightarrow> (string, string) dict" where
  "producer_table units = fold (\<lambda>(uid, u). fold (\<lambda>name. dict_set name uid) (wu_produces u)) units []"

text \<open>
  The consumers of an interface depend on its producer; \<open>follows owner uid\<close> is the condition under
  which the code adds the edge.
\<close>

definition consumer_table ::
  "(string \<Rightarrow> string \<Rightarrow> bool) \<Rightarrow> unit_table \<Rightarrow> (string, string list) dict \<Rightarrow> (string, string list) dict"
where
  "consumer_table follows units t =
     fold (\<lambda>(uid, u). fold (\<lambda>name t.
       case dict_get (producer_table units) name of
         None \<Rightarrow> t
       | Some owner \<Rightarrow> if follows owner uid then add_dependent owner uid t else t) (wu_consumes u)) units t"

definition dependents_table :: "(string \<Rightarrow> string \<Rightarrow> bool) \<Rightarrow> unit_table \<Rightarrow> (string, string list) dict" where
  "dependents_table follows units = consumer_table follows units (dependency_table units)"

definition change_seeds :: "unit_table \<Rightarrow> unit_table \<Rightarrow> string list \<Rightarrow> string list" where
  "change_seeds old_units new_units changed_paths =
     map fst [(uid, u) \<leftarrow> new_units. dict_get old_units uid \<noteq> Some u] @
     map fst [(uid, u) \<leftarrow> new_units. \<not> disjoint_list (wu_write_paths u) changed_paths]"

definition reverse_closure :: "unit_table \<Rightarrow> unit_table \<Rightarrow> string list \<Rightarrow> string list" where
  "reverse_closure old_units new_units changed_paths =
     (let seeds = remdups (change_seeds old_units new_units changed_paths) in
      sorted_set (closure_loop (dependents_table (\<lambda>owner uid. owner \<noteq> []) new_units) seeds seeds))"

definition compute_impact :: "GovernedWorkPlan \<Rightarrow> string list \<Rightarrow> string list" where
  "compute_impact plan changed_unit_ids =
     (let units = units_by_id plan in
      if \<not> subset_list changed_unit_ids (dict_keys units) then sorted_set (dict_keys units)
      else let seeds = remdups changed_unit_ids in
        sorted_set (closure_loop (dependents_table (\<lambda>owner uid. owner \<noteq> uid) units) seeds seeds))"

definition invalidate_requirements :: "GovernedWorkPlan \<Rightarrow> string list \<Rightarrow> ChangeImpact" where
  "invalidate_requirements plan retracted =
     (let seeds = map fst [(uid, u) \<leftarrow> units_by_id plan. \<not> disjoint_list (wu_requirement_ids u) retracted] in
      \<lparr>im_classification = ''execution_meaning_change'', im_changed_requirements = sorted_set retracted,
       im_changed_paths = [], im_affected_units = compute_impact plan seeds, im_invalidated_reviews = [],
       im_requires_new_review = True, im_requires_new_approval = True\<rparr>)"

section \<open>Classification\<close>

text \<open>\<open>replace(plan, units=(), revision=0)\<close>: everything of the plan but its units and revision.\<close>

definition plan_base :: "GovernedWorkPlan \<Rightarrow> GovernedWorkPlan" where
  "plan_base p = p\<lparr>gp_units := [], gp_revision := 0\<rparr>"

text \<open>\<open>unit.test_recipe or ""\<close>\<close>

definition recipe_of :: "WorkUnitSpec \<Rightarrow> string" where
  "recipe_of u = (case wu_test_recipe u of None \<Rightarrow> [] | Some r \<Rightarrow> r)"

definition delegated_unit :: "unit_table \<Rightarrow> string list \<Rightarrow> WorkUnitSpec \<Rightarrow> bool" where
  "delegated_unit old alternatives u =
     (case dict_get old (wu_unit_id u) of
        None \<Rightarrow> False
      | Some prev \<Rightarrow>
          if prev = u then True
          else if prev\<lparr>wu_test_recipe := Some (recipe_of u)\<rparr> \<noteq> u then False
          else recipe_of u \<in> set alternatives \<and> recipe_of prev \<in> set alternatives)"

definition delegated_only :: "GovernedWorkPlan \<Rightarrow> GovernedWorkPlan \<Rightarrow> string list \<Rightarrow> bool" where
  "delegated_only old_plan new_plan alternatives =
     (if plan_base old_plan \<noteq> plan_base new_plan then False
      else if length (gp_units old_plan) \<noteq> length (gp_units new_plan) then False
      else list_all (delegated_unit (units_by_id old_plan) alternatives) (gp_units new_plan))"

definition new_write_paths :: "GovernedWorkPlan \<Rightarrow> GovernedWorkPlan \<Rightarrow> string list" where
  "new_write_paths old_plan new_plan =
     sorted_set (minus_list (concat (map wu_write_paths (gp_units new_plan)))
       (concat (map wu_write_paths (gp_units old_plan))))"

definition classify_change ::
  "GovernedWorkPlan \<Rightarrow> GovernedWorkPlan \<Rightarrow> string list option \<Rightarrow> bool \<Rightarrow> ChangeImpact"
where
  "classify_change old_plan new_plan authorized_alternatives unclassifiable =
     (let old_units = units_by_id old_plan; new_units = units_by_id new_plan;
          changed_paths = new_write_paths old_plan new_plan in
      if unclassifiable then
        \<lparr>im_classification = ''unknown'', im_changed_requirements = [], im_changed_paths = changed_paths,
         im_affected_units = sorted_set (dict_keys new_units), im_invalidated_reviews = [],
         im_requires_new_review = True, im_requires_new_approval = True\<rparr>
      else if presentation_only_change (plan_projection old_plan) (plan_projection new_plan) then
        \<lparr>im_classification = ''presentation_only'', im_changed_requirements = [], im_changed_paths = [],
         im_affected_units = [], im_invalidated_reviews = [],
         im_requires_new_review = False, im_requires_new_approval = False\<rparr>
      else if delegated_only old_plan new_plan (case authorized_alternatives of None \<Rightarrow> [] | Some a \<Rightarrow> a) then
        \<lparr>im_classification = ''delegated_choice'', im_changed_requirements = [], im_changed_paths = [],
         im_affected_units = [], im_invalidated_reviews = [],
         im_requires_new_review = False, im_requires_new_approval = False\<rparr>
      else
        \<lparr>im_classification = ''execution_meaning_change'',
         im_changed_requirements = sorted_set (minus_list (gp_requirements new_plan) (gp_requirements old_plan) @
           minus_list (gp_requirements old_plan) (gp_requirements new_plan)),
         im_changed_paths = changed_paths, im_affected_units = reverse_closure old_units new_units changed_paths,
         im_invalidated_reviews = [], im_requires_new_review = True, im_requires_new_approval = True\<rparr>)"

definition apply_policy_change :: "int \<Rightarrow> int \<Rightarrow> int \<Rightarrow> pymap result" where
  "apply_policy_change current_cap new_cap reserved =
     (if new_cap < 0 \<or> current_cap < 0 \<or> reserved < 0 then raise ''INVALID_BUDGET'' ''negative budget''
      else Ok [(''cap'', PInt new_cap), (''reserved'', PInt reserved),
        (''new_reservations_allowed'', PBool (reserved < new_cap)), (''headroom'', PInt (new_cap - reserved)),
        (''shrunk_below_reserved'', PBool (new_cap < reserved))])"

section \<open>Revisions\<close>

record PlanRevisions =
  pr_plans :: "(string, (int, GovernedWorkPlan) dict) dict"
  pr_head :: "(string, int) dict"

definition no_revisions :: PlanRevisions where
  "no_revisions = \<lparr>pr_plans = [], pr_head = []\<rparr>"

definition head_revision :: "PlanRevisions \<Rightarrow> string \<Rightarrow> int" where
  "head_revision s plan_id = (case dict_get (pr_head s) plan_id of None \<Rightarrow> -1 | Some r \<Rightarrow> r)"

definition commit_plan :: "GovernedWorkPlan \<Rightarrow> int \<Rightarrow> (PlanRevisions, int) op" where
  "commit_plan plan expected_revision s =
     (let head = head_revision s (gp_plan_id plan) in
      if expected_revision \<noteq> head then
        (raise ''CAS_CONFLICT'' (''expected revision '' @ str_int expected_revision @ '', head is '' @ str_int head), s)
      else if gp_delivery_mode plan \<notin> {''patch_only'', ''apply_to_source''}
      then (raise ''INVALID_PLAN'' ''unknown delivery mode'', s)
      else
        let revisions = (case dict_get (pr_plans s) (gp_plan_id plan) of None \<Rightarrow> [] | Some r \<Rightarrow> r) in
        (Ok (gp_revision plan),
         s\<lparr>pr_plans := dict_set (gp_plan_id plan) (dict_set (gp_revision plan) plan revisions) (pr_plans s),
           pr_head := dict_set (gp_plan_id plan) (gp_revision plan) (pr_head s)\<rparr>))"

definition plan_head :: "PlanRevisions \<Rightarrow> string \<Rightarrow> GovernedWorkPlan option result" where
  "plan_head s plan_id =
     (case dict_get (pr_head s) plan_id of
        None \<Rightarrow> Ok None
      | Some r \<Rightarrow>
          (case dict_get (pr_plans s) plan_id of
             None \<Rightarrow> Inl (PyError ''KeyError'')
           | Some revisions \<Rightarrow>
               (case dict_get revisions r of None \<Rightarrow> Inl (PyError ''KeyError'') | Some p \<Rightarrow> Ok (Some p))))"

definition delivery_mode_changed :: "GovernedWorkPlan \<Rightarrow> GovernedWorkPlan \<Rightarrow> bool" where
  "delivery_mode_changed old new \<longleftrightarrow> gp_delivery_mode old \<noteq> gp_delivery_mode new"

section \<open>The closure is reachability\<close>

lemma edges_add [simp]: "edges (add_dependent dep uid t) = insert (dep, uid) (edges t)"
  by (auto simp: edges_def add_dependent_def succs_set split: if_splits)

lemma edges_dependency:
  "edges (dependency_table units) = {(d, uid) | d uid u. (uid, u) \<in> set units \<and> d \<in> set (wu_dependencies u)}"
proof -
  have inner: "edges (fold (\<lambda>dep. add_dependent dep uid) ds t) = (\<lambda>d. (d, uid)) ` set ds \<union> edges t" for uid ds t
    using fold_adds [of edges "\<lambda>dep. add_dependent dep uid" "\<lambda>d. {(d, uid)}"] by auto
  have "edges (dependency_table units) =
      \<Union> ((\<lambda>(uid, u). (\<lambda>d. (d, uid)) ` set (wu_dependencies u)) ` set units) \<union> edges []"
    unfolding dependency_table_def by (rule fold_adds) (auto simp: inner)
  then show ?thesis by auto
qed

lemma edges_consumer:
  "edges (consumer_table follows units t) = {(owner, uid) | owner uid u name. (uid, u) \<in> set units \<and>
     name \<in> set (wu_consumes u) \<and> dict_get (producer_table units) name = Some owner \<and> follows owner uid} \<union> edges t"
proof -
  let ?A = "\<lambda>uid name. {(owner, uid) | owner. dict_get (producer_table units) name = Some owner \<and> follows owner uid}"
  let ?f = "\<lambda>uid name t. case dict_get (producer_table units) name of None \<Rightarrow> t
     | Some owner \<Rightarrow> if follows owner uid then add_dependent owner uid t else t"
  have inner: "edges (fold (?f uid) ns t) = \<Union> (?A uid ` set ns) \<union> edges t" for uid ns t
    by (rule fold_adds) (auto split: option.splits)
  have "edges (consumer_table follows units t) =
      \<Union> ((\<lambda>(uid, u). \<Union> (?A uid ` set (wu_consumes u))) ` set units) \<union> edges t"
    unfolding consumer_table_def by (rule fold_adds) (auto simp: inner)
  then show ?thesis by auto
qed

text \<open>
  What the closure follows: \<open>v\<close> needs \<open>u\<close> when it depends on \<open>u\<close> or consumes an interface that \<open>u\<close> is
  recorded as producing.
\<close>

definition needs :: "unit_table \<Rightarrow> string \<Rightarrow> string \<Rightarrow> bool" where
  "needs units u v \<longleftrightarrow> (\<exists>x. dict_get units v = Some x \<and>
     (u \<in> set (wu_dependencies x) \<or> (\<exists>name \<in> set (wu_consumes x). dict_get (producer_table units) name = Some u)))"

lemma producer_known: "dict_get (producer_table units) name = Some owner \<Longrightarrow> owner \<in> set (dict_keys units)"
proof -
  have inner: "dict_get (fold (\<lambda>name. dict_set name uid) ns t) n = Some ow \<Longrightarrow> ow = uid \<or> (\<exists>m. dict_get t m = Some ow)"
    for uid ow n :: string and ns t
    by (induction ns arbitrary: t) (fastforce split: if_splits)+
  have "dict_get (fold (\<lambda>(uid, u). fold (\<lambda>name. dict_set name uid) (wu_produces u)) us t) n = Some ow \<Longrightarrow>
      ow \<in> set (dict_keys us) \<or> (\<exists>m. dict_get t m = Some ow)"
    for us :: unit_table and t and n :: string and ow
  proof (induction us arbitrary: t)
    case (Cons a us)
    let ?t = "fold (\<lambda>name. dict_set name (fst a)) (wu_produces (snd a)) t"
    from Cons.prems have "dict_get (fold (\<lambda>(uid, u). fold (\<lambda>name. dict_set name uid) (wu_produces u)) us ?t) n = Some ow"
      by (simp add: case_prod_unfold)
    from Cons.IH [OF this] show ?case using inner [of "fst a" "wu_produces (snd a)" t _ ow] by auto
  qed auto
  from this [of units "[]"] show "dict_get (producer_table units) name = Some owner \<Longrightarrow> owner \<in> set (dict_keys units)"
    by (simp add: producer_table_def)
qed

lemma edges_dependents:
  assumes "dict_wf units" "\<And>u v. u \<noteq> v \<Longrightarrow> u \<in> set (dict_keys units) \<Longrightarrow> follows u v"
  shows "edges (dependents_table follows units) \<subseteq> {(u, v). needs units u v}"
    and "u \<noteq> v \<Longrightarrow> needs units u v \<Longrightarrow> (u, v) \<in> edges (dependents_table follows units)"
proof -
  show "edges (dependents_table follows units) \<subseteq> {(u, v). needs units u v}"
    using assms(1) by (auto simp: dependents_table_def edges_consumer edges_dependency needs_def dict_get_iff_in)
  assume uv: "u \<noteq> v" "needs units u v"
  then obtain x where x: "(v, x) \<in> set units"
    "u \<in> set (wu_dependencies x) \<or> (\<exists>name \<in> set (wu_consumes x). dict_get (producer_table units) name = Some u)"
    using assms(1) by (auto simp: needs_def dict_get_iff_in)
  then have "u \<in> set (wu_dependencies x) \<or>
      (\<exists>name \<in> set (wu_consumes x). dict_get (producer_table units) name = Some u \<and> follows u v)"
    using assms(2) [OF uv(1) producer_known] by blast
  with x(1) show "(u, v) \<in> edges (dependents_table follows units)"
    by (auto simp: dependents_table_def edges_consumer edges_dependency)
qed

lemma rtrancl_ignore_loops:
  assumes "r \<subseteq> s" "\<And>x y. (x, y) \<in> s \<Longrightarrow> x \<noteq> y \<Longrightarrow> (x, y) \<in> r"
  shows "r\<^sup>* = s\<^sup>*"
proof
  show "r\<^sup>* \<subseteq> s\<^sup>*" using assms(1) by (rule rtrancl_mono)
  have "s \<subseteq> r\<^sup>*" using assms(2) by (auto intro: rtrancl.rtrancl_refl r_into_rtrancl)
  then show "s\<^sup>* \<subseteq> r\<^sup>*" by (metis rtrancl_subset_rtrancl)
qed

lemma closure_needs:
  assumes "dict_wf units" "\<And>u v. u \<noteq> v \<Longrightarrow> u \<in> set (dict_keys units) \<Longrightarrow> follows u v"
  shows "set (closure_loop (dependents_table follows units) (remdups seeds) (remdups seeds)) =
    {(u, v). needs units u v}\<^sup>* `` set seeds"
proof -
  have "(edges (dependents_table follows units))\<^sup>* = {(u, v). needs units u v}\<^sup>*"
    using edges_dependents [OF assms] by (intro rtrancl_ignore_loops) auto
  then show ?thesis by (simp add: closure_loop_correct)
qed


text \<open>A unit that writes a path no old unit writes is a changed unit: the second group of seeds adds nothing.\<close>

lemma seeds_are_changed:
  assumes "old_units = units_by_id old" "new_units = units_by_id new"
  shows "set (change_seeds old_units new_units (new_write_paths old new)) =
    {uid. \<exists>u. dict_get new_units uid = Some u \<and> dict_get old_units uid \<noteq> Some u}"
proof -
  have "dict_get old_units uid \<noteq> Some u"
    if "dict_get new_units uid = Some u" "set (wu_write_paths u) \<inter> set (new_write_paths old new) \<noteq> {}" for uid u
  proof
    assume "dict_get old_units uid = Some u"
    then have "u \<in> set (gp_units old)" using assms(1) index_by_get_in by metis
    with that(2) show False by (auto simp: new_write_paths_def)
  qed
  then show ?thesis using assms
    by (auto simp: change_seeds_def dict_get_iff_in) (force simp: dict_get_iff_in)+
qed

lemma change_closure_exact:
  assumes "[] \<notin> wu_unit_id ` set (gp_units new)"
  shows "reverse_closure (units_by_id old) (units_by_id new) (new_write_paths old new) =
    sorted_list_of_set ({(u, v). needs (units_by_id new) u v}\<^sup>* ``
      {uid. \<exists>u. dict_get (units_by_id new) uid = Some u \<and> dict_get (units_by_id old) uid \<noteq> Some u})"
proof -
  have "u \<noteq> []" if "u \<in> set (dict_keys (units_by_id new))" for u using that assms index_by_keys by metis
  then show ?thesis
    unfolding reverse_closure_def Let_def sorted_set_def sorted_list_of_set_sort_remdups [symmetric]
    by (subst closure_needs) (simp_all add: seeds_are_changed [OF refl refl])
qed

section \<open>What needs no review\<close>

definition erase_recipe :: "WorkUnitSpec \<Rightarrow> WorkUnitSpec" where
  "erase_recipe u = u\<lparr>wu_test_recipe := None\<rparr>"

lemma delegated_unitD:
  "delegated_unit (units_by_id old) alts u \<Longrightarrow> \<exists>prev \<in> set (gp_units old). wu_unit_id prev = wu_unit_id u \<and>
     erase_recipe prev = erase_recipe u \<and> (prev = u \<or> recipe_of u \<in> set alts \<and> recipe_of prev \<in> set alts)"
proof -
  assume d: "delegated_unit (units_by_id old) alts u"
  then obtain prev where p: "dict_get (units_by_id old) (wu_unit_id u) = Some prev"
    by (auto simp: delegated_unit_def split: option.splits)
  have "prev = u \<or> prev\<lparr>wu_test_recipe := Some (recipe_of u)\<rparr> = u \<and> recipe_of u \<in> set alts \<and> recipe_of prev \<in> set alts"
    using d p by (auto simp: delegated_unit_def split: if_splits)
  moreover have "erase_recipe prev = erase_recipe u" if "prev\<lparr>wu_test_recipe := Some (recipe_of u)\<rparr> = u"
    by (subst that [symmetric]) (simp add: erase_recipe_def)
  ultimately show ?thesis using index_by_get_in [OF p] by blast
qed



text \<open>
  Two gaps of the classification. The read references of a unit are no part of the projection, so a plan
  may gain any of them as a mere presentation change; and the units of the old plan that the new plan
  lists twice hide the ones it drops, as only the number of units is compared.
\<close>

lemma read_refs_unreviewed:
  "im_classification (classify_change (sample_plan [sample_unit ''u1'' []])
     (sample_plan [(sample_unit ''u1'' [])\<lparr>wu_read_refs := [''/etc/secrets'']\<rparr>]) None False) = ''presentation_only''"
  by code_simp

lemma dropped_unit_unreviewed:
  "let i = classify_change (sample_plan [sample_unit ''u1'' [], sample_unit ''u2'' []])
     (sample_plan [sample_unit ''u1'' [], sample_unit ''u1'' []]) None False
   in im_classification i = ''delegated_choice'' \<and> \<not> im_requires_new_review i"
  by code_simp

text \<open>A unit that depends on a removed one is not in the closure: only units of the new plan are seeds.\<close>

lemma removed_unit_unnoticed:
  "im_affected_units (classify_change (sample_plan [sample_unit ''u1'' [], sample_unit ''u2'' [''u1'']])
     (sample_plan [sample_unit ''u2'' [''u1'']]) None False) = []"
  by code_simp

section \<open>Revisions are committed against the head\<close>

lemma commit_plan_Ok:
  "commit_plan p b s = (Inr r, s') \<Longrightarrow>
     b = head_revision s (gp_plan_id p) \<and> r = gp_revision p \<and> head_revision s' (gp_plan_id p) = gp_revision p \<and>
     plan_head s' (gp_plan_id p) = Inr (Some p) \<and>
     (\<forall>i. i \<noteq> gp_plan_id p \<longrightarrow> plan_head s' i = plan_head s i)"
  by (auto simp: commit_plan_def Let_def head_revision_def plan_head_def cong: option.case_cong split: if_splits)

lemma commit_plan_err: "commit_plan p b s = (Inl e, s') \<Longrightarrow> s' = s"
  by (auto simp: commit_plan_def Let_def split: if_splits)

interpretation revs: cas_store "\<lambda>s r. commit_plan ((fst r)\<lparr>gp_plan_id := i\<rparr>) (snd r) s" "\<lambda>s. head_revision s i" snd for i
proof
  show "snd r = head_revision s i" if "commit_plan ((fst r)\<lparr>gp_plan_id := i\<rparr>) (snd r) s = (Inr v, s')" for r s v s'
    using commit_plan_Ok [OF that] by simp
qed (auto dest: commit_plan_err)

text \<open>
  One revision wins per base: once a plan with a revision of its own is committed on a base, it
  is the head, every other plan keeps its head, and a second revision of the plan prepared on the same
  base is refused without an effect.
\<close>

theorem plan_revision_race:
  assumes "commit_plan p b s = (Inr r, s1)" "gp_plan_id q = gp_plan_id p" "gp_revision p \<noteq> b"
  shows "plan_head s1 (gp_plan_id p) = Inr (Some p) \<and> (\<forall>i. i = gp_plan_id p \<or> plan_head s1 i = plan_head s i) \<and>
    (\<exists>e. commit_plan q b s1 = (Inl e, s1))"
proof -
  have id: "x\<lparr>gp_plan_id := gp_plan_id x\<rparr> = x" for x :: GovernedWorkPlan by simp
  have "\<exists>e. commit_plan ((fst (q, b))\<lparr>gp_plan_id := gp_plan_id p\<rparr>) (snd (q, b)) s1 = (Inl e, s1)"
  proof (rule revs.race_lost)
    show "commit_plan ((fst (p, b))\<lparr>gp_plan_id := gp_plan_id p\<rparr>) (snd (p, b)) s = (Inr r, s1)"
      using assms(1) by simp
    show "head_revision s1 (gp_plan_id p) \<noteq> head_revision s (gp_plan_id p)"
      using assms commit_plan_Ok [OF assms(1)] by auto
  qed simp
  moreover have "q\<lparr>gp_plan_id := gp_plan_id p\<rparr> = q" using id [of q] assms(2) by simp
  ultimately show ?thesis using commit_plan_Ok [OF assms(1)] by auto
qed

lemma plan_revision_race_witness:
  "\<exists>r s1 e. commit_plan (sample_plan []) (-1) no_revisions = (Inr r, s1) \<and>
     commit_plan ((sample_plan [])\<lparr>gp_revision := 2\<rparr>) (-1) s1 = (Inl e, s1)"
proof -
  obtain r s1 where c: "commit_plan (sample_plan []) (-1) no_revisions = (Inr r, s1)"
    by (simp add: commit_plan_def no_revisions_def head_revision_def sample_plan_def)
  from plan_revision_race [OF c, of "(sample_plan [])\<lparr>gp_revision := 2\<rparr>"]
  have "\<exists>e. commit_plan ((sample_plan [])\<lparr>gp_revision := 2\<rparr>) (-1) s1 = (Inl e, s1)" by (simp add: sample_plan_def)
  with c show ?thesis by blast
qed

text \<open>
  The revision number of the plan itself is not compared: a plan that names its base as its own revision
  overwrites the committed one, and a second commit on that base is accepted too.
\<close>

lemma same_revision_both_win:
  "let (r1, s1) = commit_plan (sample_plan []) (-1) no_revisions;
       (r2, s2) = commit_plan (sample_plan [sample_unit ''u1'' []]) 1 s1;
       (r3, s3) = commit_plan (sample_plan [sample_unit ''u2'' []]) 1 s2
   in succeeds r1 \<and> succeeds r2 \<and> succeeds r3 \<and>
      plan_head s3 ''p'' = Inr (Some (sample_plan [sample_unit ''u2'' []]))"
  by code_simp

end
