(* ===== verification/PlanValidation.thy ===== *)
theory PlanValidation
  imports PlanSubject Worklist
begin

text \<open>
  \<open>planning/validation.py\<close>: the ten structural checks of a plan, each with its own definition, the
  depth-first search for a dependency cycle, and the report reviewers act on.
\<close>

section \<open>Reports\<close>

definition CHECK_IDS :: "string list" where
  "CHECK_IDS = [''plan_shape'', ''requirement_coverage'', ''test_binding'', ''interface_compatibility'',
     ''dag_acyclic'', ''write_conflict'', ''effect_declaration'', ''budget_bound'', ''recipe_capability'',
     ''write_scope_bounded'']"

record PlanCheck =
  pc_check_id :: string
  pc_status :: string
  pc_detail :: string
  pc_refs :: "string list"

record PlanCheckReport =
  cr_checks :: "PlanCheck list"
  cr_violations :: "string list"
  cr_cycle_path :: "string list"
  cr_ready_for_review :: bool

definition plan_check :: "string \<Rightarrow> string \<Rightarrow> string \<Rightarrow> string list \<Rightarrow> PlanCheck" where
  "plan_check check_id status detail refs =
     \<lparr>pc_check_id = check_id, pc_status = status, pc_detail = detail, pc_refs = refs\<rparr>"

text \<open>The lists the checks append to: results, violation codes, and the ids of the failed checks.\<close>

record findings =
  fi_checks :: "PlanCheck list"
  fi_violations :: "string list"
  fi_failed :: "string list"

definition fail_check :: "string \<Rightarrow> string \<Rightarrow> string \<Rightarrow> string list \<Rightarrow> findings \<Rightarrow> findings" where
  "fail_check check_id code detail refs a =
     a\<lparr>fi_checks := fi_checks a @ [plan_check check_id ''failed'' detail refs],
       fi_violations := fi_violations a @ [code], fi_failed := List.insert check_id (fi_failed a)\<rparr>"

definition ok_check :: "string \<Rightarrow> string \<Rightarrow> findings \<Rightarrow> findings" where
  "ok_check check_id detail a =
     (if check_id \<notin> set (fi_failed a)
      then a\<lparr>fi_checks := fi_checks a @ [plan_check check_id ''passed'' detail []]\<rparr> else a)"

section \<open>Dependency cycles\<close>

datatype color = White | Gray | Black

record cycle_state =
  cy_color :: "(string, color) dict"
  cy_stack :: "string list"

text \<open>
  \<open>visit(node)\<close> with its loop over the dependencies; the result \<open>[]\<close> is Python's empty tuple. The fuel
  bounds the depth of the recursion, which is at most the number of white units.
\<close>

fun visit :: "nat \<Rightarrow> (string, WorkUnitSpec) dict \<Rightarrow> string \<Rightarrow> cycle_state \<Rightarrow> (string list \<times> cycle_state) option"
  and visit_deps ::
    "nat \<Rightarrow> (string, WorkUnitSpec) dict \<Rightarrow> string \<Rightarrow> string list \<Rightarrow> cycle_state \<Rightarrow> (string list \<times> cycle_state) option"
where
  "visit 0 units node s = None"
| "visit (Suc k) units node s =
     visit_deps k units node (case dict_get units node of None \<Rightarrow> [] | Some u \<Rightarrow> wu_dependencies u)
       (s\<lparr>cy_color := dict_set node Gray (cy_color s), cy_stack := cy_stack s @ [node]\<rparr>)"
| "visit_deps k units node [] s =
     Some ([], s\<lparr>cy_stack := butlast (cy_stack s), cy_color := dict_set node Black (cy_color s)\<rparr>)"
| "visit_deps k units node (dep # deps) s =
     (if dep \<notin> set (dict_keys units) then visit_deps k units node deps s
      else if dict_get (cy_color s) dep = Some Gray
      then Some (dropWhile (\<lambda>x. x \<noteq> dep) (cy_stack s) @ [dep], s)
      else if dict_get (cy_color s) dep = Some White then
        (case visit k units dep s of
           None \<Rightarrow> None
         | Some (found, s') \<Rightarrow> if found \<noteq> [] then Some (found, s') else visit_deps k units node deps s')
      else visit_deps k units node deps s)"

fun visit_all :: "nat \<Rightarrow> (string, WorkUnitSpec) dict \<Rightarrow> string list \<Rightarrow> cycle_state \<Rightarrow> string list option" where
  "visit_all k units [] s = Some []"
| "visit_all k units (node # nodes) s =
     (if dict_get (cy_color s) node = Some White then
        (case visit k units node s of
           None \<Rightarrow> None
         | Some (found, s') \<Rightarrow> if found \<noteq> [] then Some found else visit_all k units nodes s')
      else visit_all k units nodes s)"

definition find_cycle :: "(string, WorkUnitSpec) dict \<Rightarrow> string list option" where
  "find_cycle units =
     visit_all (length units) units (dict_keys units)
       \<lparr>cy_color = map (\<lambda>(u, _). (u, White)) units, cy_stack = []\<rparr>"

section \<open>The checks\<close>

definition check_shape_unit :: "(string, WorkUnitSpec) dict \<Rightarrow> WorkUnitSpec \<Rightarrow> findings \<Rightarrow> findings" where
  "check_shape_unit by_id u a =
     (let missing = sorted_set (minus_list (wu_dependencies u) (dict_keys by_id));
          a = (if missing \<noteq> [] \<or> wu_unit_id u \<in> set (wu_dependencies u)
               then fail_check ''plan_shape'' ''MISSING_DEPENDENCY''
                 (wu_unit_id u @ '': '' @ repr_list missing) [wu_unit_id u] a else a);
          a = (if wu_requirement_ids u = [] \<or> wu_acceptance_ids u = []
               then fail_check ''plan_shape'' ''UNTRACEABLE_WORK''
                 (wu_unit_id u @ '' lacks requirement/acceptance ids'') [wu_unit_id u] a else a)
      in if wu_write_paths u = []
         then fail_check ''plan_shape'' ''PLAN_INCOMPLETE''
           (wu_unit_id u @ '' declares no create/write targets'') [wu_unit_id u] a else a)"

definition check_shape :: "GovernedWorkPlan \<Rightarrow> findings \<Rightarrow> findings" where
  "check_shape plan a =
     (let a = (if gp_units plan = [] then fail_check ''plan_shape'' ''INVALID_PLAN'' ''work_units is empty'' [] a else a);
          a = (if \<not> distinct (map wu_unit_id (gp_units plan))
               then fail_check ''plan_shape'' ''INPUT_INVALID'' ''duplicate work unit ids'' [] a else a);
          a = fold (check_shape_unit (index_by wu_unit_id (gp_units plan))) (gp_units plan) a
      in ok_check ''plan_shape'' ''shape ok'' a)"

definition check_coverage :: "GovernedWorkPlan \<Rightarrow> string list \<Rightarrow> (string, string) dict \<Rightarrow> findings \<Rightarrow> findings" where
  "check_coverage plan required no_change a =
     (let covered = concat (map wu_requirement_ids (gp_units plan));
          uncovered = [r \<leftarrow> required. r \<notin> set covered \<and> r \<notin> set (dict_keys no_change)]
      in if uncovered \<noteq> []
         then fail_check ''requirement_coverage'' ''UNBOUND_REQUIREMENT''
           (''no work or verified_no_change evidence: '' @ repr_list uncovered) uncovered a
         else ok_check ''requirement_coverage'' ''all covered'' a)"

definition has_text :: "string option \<Rightarrow> bool" where
  "has_text s \<longleftrightarrow> (case s of None \<Rightarrow> False | Some x \<Rightarrow> x \<noteq> [])"

definition check_tests :: "GovernedWorkPlan \<Rightarrow> findings \<Rightarrow> findings" where
  "check_tests plan a =
     (let weak = map wu_unit_id [u \<leftarrow> gp_units plan. \<not> has_text (wu_test_recipe u) \<or> \<not> has_text (wu_test_oracle u)]
      in if weak \<noteq> []
         then fail_check ''test_binding'' ''TEST_RECIPE_MISSING''
           (''acceptance without trusted recipe/oracle: '' @ repr_list weak) weak a
         else ok_check ''test_binding'' ''oracles bound'' a)"

definition produced_by :: "GovernedWorkPlan \<Rightarrow> (string, string) dict" where
  "produced_by plan = fold (\<lambda>u. fold (\<lambda>name. dict_set name (wu_unit_id u)) (wu_produces u)) (gp_units plan) []"

definition interface_mismatch ::
  "(string, string) dict \<Rightarrow> (string, string) dict \<Rightarrow> WorkUnitSpec \<Rightarrow> string \<Rightarrow> string list"
where
  "interface_mismatch produced interfaces u name =
     (case dict_get produced name of
        None \<Rightarrow> [wu_unit_id u @ '':'' @ name @ '':unproduced'']
      | Some producer \<Rightarrow>
          if dict_get interfaces (producer @ ''.'' @ name) \<noteq> dict_get interfaces (wu_unit_id u @ ''.'' @ name)
          then [wu_unit_id u @ '':'' @ name @ '':mismatch''] else [])"

definition check_interfaces :: "GovernedWorkPlan \<Rightarrow> (string, string) dict \<Rightarrow> findings \<Rightarrow> findings" where
  "check_interfaces plan interfaces a =
     (let mismatched = concat (map (\<lambda>u. concat (map (interface_mismatch (produced_by plan) interfaces u)
            (wu_consumes u))) (gp_units plan))
      in if mismatched \<noteq> []
         then fail_check ''interface_compatibility'' ''INTERFACE_MISMATCH'' (py_join ''; '' mismatched) mismatched a
         else ok_check ''interface_compatibility'' ''signatures align'' a)"

definition plan_cycle :: "GovernedWorkPlan \<Rightarrow> string list option" where
  "plan_cycle plan =
     (let by_id = index_by wu_unit_id (gp_units plan) in
      if length by_id = length (gp_units plan) then find_cycle by_id else Some [])"

definition check_dag :: "string list \<Rightarrow> findings \<Rightarrow> findings" where
  "check_dag cycle a =
     (if cycle \<noteq> [] then fail_check ''dag_acyclic'' ''DAG_CYCLE'' (py_join '' -> '' cycle) cycle a
      else ok_check ''dag_acyclic'' ''acyclic'' a)"

definition dependency_lists :: "(string, WorkUnitSpec) dict \<Rightarrow> (string, string list) dict" where
  "dependency_lists units = map (\<lambda>(uid, u). (uid, wu_dependencies u)) units"

definition reachable :: "(string, WorkUnitSpec) dict \<Rightarrow> string \<Rightarrow> string \<Rightarrow> bool" where
  "reachable units src dst = reach_loop (dependency_lists units) dst [] [src]"

definition writers_table :: "GovernedWorkPlan \<Rightarrow> (string, string list) dict" where
  "writers_table plan =
     fold (\<lambda>u. fold (\<lambda>path t. dict_set path (succs t path @ [wu_unit_id u]) t) (wu_write_paths u)) (gp_units plan) []"

definition path_conflicts :: "(string, WorkUnitSpec) dict \<Rightarrow> string \<Rightarrow> string list \<Rightarrow> string list" where
  "path_conflicts by_id path owners =
     (if length owners < 2 then []
      else concat (map (\<lambda>left. concat (map (\<lambda>right.
        if left = right then []
        else if reachable by_id left right \<or> reachable by_id right left then [] else [path]) owners)) owners))"

definition check_writes :: "GovernedWorkPlan \<Rightarrow> findings \<Rightarrow> findings" where
  "check_writes plan a =
     (let by_id = index_by wu_unit_id (gp_units plan);
          conflicts = concat (map (\<lambda>(path, owners). path_conflicts by_id path owners) (writers_table plan))
      in if conflicts \<noteq> []
         then fail_check ''write_conflict'' ''RESOURCE_CONFLICT''
           (''unordered writers share '' @ repr_list (sorted_set conflicts)) (sorted_set conflicts) a
         else ok_check ''write_conflict'' ''writes serialized'' a)"

definition check_effects :: "GovernedWorkPlan \<Rightarrow> findings \<Rightarrow> findings" where
  "check_effects plan a =
     (let undeclared = concat (map (\<lambda>u. map (\<lambda>e. wu_unit_id u @ '':'' @ e)
            [e \<leftarrow> wu_effects u. e \<notin> set (gp_external_effects plan)]) (gp_units plan))
      in if undeclared \<noteq> []
         then fail_check ''effect_declaration'' ''UNDECLARED_EFFECT''
           (''unit effects absent from plan effects: '' @ repr_list undeclared) undeclared a
         else ok_check ''effect_declaration'' ''effects declared'' a)"

definition unit_cost :: "WorkUnitSpec \<Rightarrow> int" where
  "unit_cost u = (case wu_cost_cap u of None \<Rightarrow> 0 | Some c \<Rightarrow> c)"

definition check_budget :: "GovernedWorkPlan \<Rightarrow> findings \<Rightarrow> findings" where
  "check_budget plan a =
     (case gp_budget_cap plan of
        None \<Rightarrow> fail_check ''budget_bound'' ''BUDGET_UNBOUND'' ''no plan budget cap'' [] a
      | Some cap \<Rightarrow>
          let uncapped = map wu_unit_id [u \<leftarrow> gp_units plan. wu_cost_cap u = None];
              total = sum_list (map unit_cost (gp_units plan))
          in if uncapped \<noteq> []
             then fail_check ''budget_bound'' ''BUDGET_UNBOUND'' (''units without cost cap: '' @ repr_list uncapped) uncapped a
             else if total > cap
             then fail_check ''budget_bound'' ''BUDGET_UNBOUND''
               (''unit caps '' @ str_int total @ '' exceed plan cap '' @ str_int cap) [] a
             else ok_check ''budget_bound'' ''budget bounded'' a)"

definition check_recipes :: "GovernedWorkPlan \<Rightarrow> string list option \<Rightarrow> findings \<Rightarrow> findings" where
  "check_recipes plan known_recipes a =
     (case known_recipes of
        Some (k # ks) \<Rightarrow>
          let unknown = map wu_unit_id [u \<leftarrow> gp_units plan. has_text (wu_test_recipe u) \<and>
                the (wu_test_recipe u) \<notin> set (k # ks)]
          in if unknown \<noteq> []
             then fail_check ''recipe_capability'' ''CAPABILITY_UNAVAILABLE''
               (''unregistered recipes: '' @ repr_list unknown) unknown a
             else ok_check ''recipe_capability'' ''recipes known'' a
      | _ \<Rightarrow> a\<lparr>fi_checks := fi_checks a @
               [plan_check ''recipe_capability'' ''unverifiable'' ''no recipe registry supplied'' []]\<rparr>)"

definition wild_path :: "string \<Rightarrow> bool" where
  "wild_path p \<longleftrightarrow> p \<in> {''*'', ''**'', ''**/*''} \<or> take 1 p = ''/'' \<or> ''..'' \<in> set (split_on (CHR ''/'') p)"

definition check_scope :: "GovernedWorkPlan \<Rightarrow> findings \<Rightarrow> findings" where
  "check_scope plan a =
     (let wild = map wu_unit_id [u \<leftarrow> gp_units plan. list_ex wild_path (wu_write_paths u)]
      in if wild \<noteq> []
         then fail_check ''write_scope_bounded'' ''UNBOUNDED_WRITE_SET''
           (''wildcard write scope: '' @ repr_list wild) wild a
         else ok_check ''write_scope_bounded'' ''writes bounded'' a)"

definition validate_plan ::
  "GovernedWorkPlan \<Rightarrow> string list option \<Rightarrow> (string, string) dict option \<Rightarrow> string list option \<Rightarrow>
     (string, string) dict option \<Rightarrow> PlanCheckReport option"
where
  "validate_plan plan active_requirements verified_no_change known_recipes known_interfaces =
     (let no_change = (case verified_no_change of None \<Rightarrow> [] | Some d \<Rightarrow> d);
          interfaces = (case known_interfaces of None \<Rightarrow> [] | Some d \<Rightarrow> d);
          required = (case active_requirements of None \<Rightarrow> gp_requirements plan | Some r \<Rightarrow> r) in
      case plan_cycle plan of
        None \<Rightarrow> None
      | Some cycle \<Rightarrow>
          let a = (check_scope plan \<circ> check_recipes plan known_recipes \<circ> check_budget plan \<circ> check_effects plan \<circ>
                check_writes plan \<circ> check_dag cycle \<circ> check_interfaces plan interfaces \<circ> check_tests plan \<circ>
                check_coverage plan required no_change \<circ> check_shape plan)
                \<lparr>fi_checks = [], fi_violations = [], fi_failed = []\<rparr>
          in Some \<lparr>cr_checks = fi_checks a, cr_violations = fi_violations a, cr_cycle_path = cycle,
               cr_ready_for_review = (fi_violations a = [] \<and>
                 list_all (\<lambda>c. pc_status c \<noteq> ''unverifiable'') (fi_checks a))\<rparr>)"

definition violations_code :: "PlanCheckReport \<Rightarrow> string" where
  "violations_code report = (case cr_violations report of v # _ \<Rightarrow> v | [] \<Rightarrow> ''PLAN_INCOMPLETE'')"

definition require_ready :: "PlanCheckReport \<Rightarrow> unit result" where
  "require_ready report =
     (if \<not> cr_ready_for_review report then raise (violations_code report) ''plan is not ready for review''
      else Ok ())"

section \<open>The search finds a cycle exactly when there is one\<close>

definition dep_graph :: "(string, WorkUnitSpec) dict \<Rightarrow> (string \<times> string) set" where
  "dep_graph units = {(n, d). \<exists>u. dict_get units n = Some u \<and> d \<in> set (wu_dependencies u) \<and> d \<in> set (dict_keys units)}"

definition colored :: "color \<Rightarrow> cycle_state \<Rightarrow> string set" where
  "colored c s = {n. dict_get (cy_color s) n = Some c}"

definition is_cycle :: "(string \<times> string) set \<Rightarrow> string list \<Rightarrow> bool" where
  "is_cycle E c \<longleftrightarrow> 2 \<le> length c \<and> hd c = last c \<and> successively (\<lambda>x y. (x, y) \<in> E) c"

text \<open>
  Between two steps of the search: every unit has a color, the stack is the path of the gray units, and
  the black units are closed under dependencies and free of cycles.
\<close>

definition search_inv :: "(string, WorkUnitSpec) dict \<Rightarrow> cycle_state \<Rightarrow> bool" where
  "search_inv units s \<longleftrightarrow>
     set (dict_keys (cy_color s)) = set (dict_keys units) \<and> distinct (cy_stack s) \<and>
     set (cy_stack s) = colored Gray s \<and> successively (\<lambda>x y. (x, y) \<in> dep_graph units) (cy_stack s) \<and>
     dep_graph units `` colored Black s \<subseteq> colored Black s \<and>
     acyclic (dep_graph units \<inter> colored Black s \<times> colored Black s)"

definition advanced :: "(string, WorkUnitSpec) dict \<Rightarrow> string \<Rightarrow> cycle_state \<Rightarrow> cycle_state \<Rightarrow> bool" where
  "advanced units node s s' \<longleftrightarrow> search_inv units s' \<and> colored White s' \<subseteq> colored White s \<and>
     insert node (colored Black s) \<subseteq> colored Black s'"

lemma colored_set:
  "colored c (s\<lparr>cy_color := dict_set n d (cy_color s), cy_stack := st\<rparr>) =
     (if c = d then insert n (colored c s) else colored c s - {n})"
  "colored c (s\<lparr>cy_stack := st, cy_color := dict_set n d (cy_color s)\<rparr>) =
     (if c = d then insert n (colored c s) else colored c s - {n})"
  by (auto simp: colored_def)

lemma colored_disjoint: "n \<in> colored c s \<Longrightarrow> n \<in> colored d s \<Longrightarrow> c = d"
  by (simp add: colored_def)

lemma colored_known: "n \<in> colored c s \<Longrightarrow> n \<in> set (dict_keys (cy_color s))"
  unfolding colored_def by (metis dict_get_None_iff mem_Collect_eq option.distinct(1))

lemma colored_finite: "finite (colored c s)"
proof (rule finite_subset)
  show "colored c s \<subseteq> set (dict_keys (cy_color s))" using colored_known by blast
qed simp

lemma trancl_closed: "(a, b) \<in> r\<^sup>+ \<Longrightarrow> r `` B \<subseteq> B \<Longrightarrow> a \<in> B \<Longrightarrow> b \<in> B"
  by (induction rule: trancl_induct) auto

lemma acyclic_insert_closed:
  assumes "acyclic (E \<inter> B \<times> B)" "E `` B \<subseteq> B" "E `` {n} \<subseteq> B" "n \<notin> B"
  shows "acyclic (E \<inter> insert n B \<times> insert n B)"
proof (rule acyclicI, intro allI notI)
  fix x
  let ?r = "E \<inter> insert n B \<times> insert n B"
  assume x: "(x, x) \<in> ?r\<^sup>+"
  have step: "?r `` insert n B \<subseteq> B" using assms(2,3) by auto
  obtain y where y: "(x, y) \<in> ?r" "(y, x) \<in> ?r\<^sup>*" using x by (meson tranclD)
  then have "y \<in> B" using step by auto
  have xB: "x \<in> B"
  proof (cases "y = x")
    case False
    with y(2) have "(y, x) \<in> ?r\<^sup>+" by (meson rtranclD)
    then show ?thesis using trancl_closed [of y x ?r B] step \<open>y \<in> B\<close> by blast
  qed (use \<open>y \<in> B\<close> in simp)
  have inB: "(a, b) \<in> ?r\<^sup>+ \<Longrightarrow> a \<in> B \<Longrightarrow> (a, b) \<in> (E \<inter> B \<times> B)\<^sup>+" for a b
  proof (induction rule: trancl_induct)
    case (base z)
    then show ?case using assms(2) by auto
  next
    case (step y z)
    then have "y \<in> B" by (metis (no_types, lifting) IntE mem_Sigma_iff tranclE)
    with step assms(2) have "(y, z) \<in> E \<inter> B \<times> B" by auto
    with step show ?case by (meson trancl.trancl_into_trancl)
  qed
  from inB [OF x xB] assms(1) show False by (simp add: acyclic_def)
qed

text \<open>A unit whose dependencies are all black turns black.\<close>

lemma blacken:
  assumes inv: "search_inv units s" and st: "cy_stack s \<noteq> []" "last (cy_stack s) = node"
    and deps: "dep_graph units `` {node} \<subseteq> colored Black s"
  shows "advanced units node s (s\<lparr>cy_stack := butlast (cy_stack s), cy_color := dict_set node Black (cy_color s)\<rparr>)"
proof -
  obtain st where stk: "cy_stack s = st @ [node]" using st by (metis append_butlast_last_id)
  with inv have gray: "node \<in> colored Gray s" "node \<notin> set st" "set st = colored Gray s - {node}" "distinct st"
    by (auto simp: search_inv_def)
  then have nb: "node \<notin> colored Black s" using colored_disjoint by blast
  have "node \<in> set (dict_keys (cy_color s))" using gray(1) by (rule colored_known)
  moreover have "successively (\<lambda>x y. (x, y) \<in> dep_graph units) st"
    using inv stk by (simp add: search_inv_def successively_append_iff)
  moreover have "acyclic (dep_graph units \<inter> insert node (colored Black s) \<times> insert node (colored Black s))"
    using inv deps nb by (intro acyclic_insert_closed) (auto simp: search_inv_def)
  ultimately show ?thesis
    using inv gray deps stk by (auto simp: advanced_def search_inv_def colored_set dom_update simp del: set_map)
qed

lemma back_edge_cycle:
  assumes inv: "search_inv units s" and st: "cy_stack s \<noteq> []" "(last (cy_stack s), dep) \<in> dep_graph units"
    and gray: "dep \<in> colored Gray s"
  shows "is_cycle (dep_graph units) (dropWhile (\<lambda>x. x \<noteq> dep) (cy_stack s) @ [dep])"
proof -
  have "dep \<in> set (cy_stack s)" using inv gray by (simp add: search_inv_def)
  then obtain xs ys where split: "cy_stack s = xs @ dep # ys" "dep \<notin> set xs" by (meson split_list_first)
  then have drop: "dropWhile (\<lambda>x. x \<noteq> dep) (cy_stack s) = dep # ys"
    by (subst split(1), subst dropWhile_append2) auto
  have path: "successively (\<lambda>x y. (x, y) \<in> dep_graph units) (dep # ys)"
    using inv split by (simp add: search_inv_def successively_append_iff)
  have "last (cy_stack s) = last (dep # ys)" using split by simp
  with path st have "successively (\<lambda>x y. (x, y) \<in> dep_graph units) ((dep # ys) @ [dep])"
    by (simp only: successively_append_iff) simp
  then show ?thesis by (simp add: is_cycle_def drop)
qed

lemma advanced_trans:
  "advanced units m s t \<Longrightarrow> advanced units n t u \<Longrightarrow> advanced units n s u"
  by (auto simp: advanced_def)

lemma grayed_inv:
  assumes inv: "search_inv units s" and white: "node \<in> colored White s"
    and path: "cy_stack s = [] \<or> (last (cy_stack s), node) \<in> dep_graph units"
  shows "search_inv units (s\<lparr>cy_color := dict_set node Gray (cy_color s), cy_stack := cy_stack s @ [node]\<rparr>)"
proof -
  have "node \<notin> colored Gray s" "node \<notin> colored Black s" using white colored_disjoint by blast+
  moreover have "successively (\<lambda>x y. (x, y) \<in> dep_graph units) (cy_stack s @ [node])"
    using inv path by (auto simp: search_inv_def successively_append_iff)
  ultimately show ?thesis
    using inv colored_known [OF white] by (auto simp: search_inv_def colored_set dom_update simp del: set_map)
qed

lemma visit_correct:
  shows "search_inv units s \<Longrightarrow> node \<in> colored White s \<Longrightarrow>
      cy_stack s = [] \<or> (last (cy_stack s), node) \<in> dep_graph units \<Longrightarrow> card (colored White s) \<le> k \<Longrightarrow>
      \<exists>c s'. visit k units node s = Some (c, s') \<and>
        (if c = [] then advanced units node s s' \<and> cy_stack s' = cy_stack s else is_cycle (dep_graph units) c)"
    and "search_inv units s \<Longrightarrow> cy_stack s \<noteq> [] \<Longrightarrow> last (cy_stack s) = node \<Longrightarrow> card (colored White s) \<le> k \<Longrightarrow>
      (\<And>d. d \<in> set deps \<Longrightarrow> d \<in> set (dict_keys units) \<Longrightarrow> (node, d) \<in> dep_graph units) \<Longrightarrow>
      dep_graph units `` {node} \<subseteq> set deps \<union> colored Black s \<Longrightarrow>
      \<exists>c s'. visit_deps k units node deps s = Some (c, s') \<and>
        (if c = [] then advanced units node s s' \<and> cy_stack s' = butlast (cy_stack s)
         else is_cycle (dep_graph units) c)"
proof (induction k units node s and k units node deps s rule: visit_visit_deps.induct)
  case (1 units node s)
  then have "colored White s = {}" using colored_finite by simp
  with 1 show ?case by simp
next
  case (2 k units node s)
  let ?s = "s\<lparr>cy_color := dict_set node Gray (cy_color s), cy_stack := cy_stack s @ [node]\<rparr>"
  let ?deps = "case dict_get units node of None \<Rightarrow> [] | Some u \<Rightarrow> wu_dependencies u"
  have inv: "search_inv units ?s" using "2.prems" by (intro grayed_inv)
  have "card (colored White ?s) < card (colored White s)"
    using "2.prems"(2) colored_finite by (intro psubset_card_mono) (auto simp: colored_set)
  with "2.prems"(4) have fuel: "card (colored White ?s) \<le> k" by simp
  have known: "(node, d) \<in> dep_graph units" if "d \<in> set ?deps" "d \<in> set (dict_keys units)" for d
    using that by (cases "dict_get units node") (simp_all add: dep_graph_def)
  have "dep_graph units `` {node} \<subseteq> set ?deps \<union> colored Black ?s" by (auto simp: dep_graph_def)
  from "2.IH" [OF inv _ _ fuel known this] obtain c s' where
    c: "visit_deps k units node ?deps ?s = Some (c, s')"
      "if c = [] then advanced units node ?s s' \<and> cy_stack s' = butlast (cy_stack ?s) else is_cycle (dep_graph units) c"
    by auto
  then show ?case by (auto simp: advanced_def colored_set split: if_splits)
next
  case (3 k units node s)
  then show ?case using blacken [of units s node] by auto
next
  case (4 k units node dep deps s)
  consider (unknown) "dep \<notin> set (dict_keys units)"
    | (gray) "dep \<in> set (dict_keys units)" "dep \<in> colored Gray s"
    | (white) "dep \<in> set (dict_keys units)" "dep \<in> colored White s"
    | (black) "dep \<in> set (dict_keys units)" "dep \<in> colored Black s"
  proof (cases "dep \<in> set (dict_keys units)")
    case True
    with "4.prems"(1) have "dep \<in> set (dict_keys (cy_color s))" by (simp add: search_inv_def)
    then obtain c where "dict_get (cy_color s) dep = Some c" by (metis dict_get_None_iff option.exhaust)
    with True that show thesis by (cases c) (auto simp: colored_def)
  qed (use that in blast)
  then show ?case
  proof cases
    case unknown
    then have "dep_graph units `` {node} \<subseteq> set deps \<union> colored Black s"
      using "4.prems"(6) by (auto simp: dep_graph_def)
    then show ?thesis using "4.IH"(1) [OF unknown "4.prems"(1-4)] "4.prems"(5) unknown by simp
  next
    case gray
    then have "is_cycle (dep_graph units) (dropWhile (\<lambda>x. x \<noteq> dep) (cy_stack s) @ [dep])"
      using "4.prems"(1-3,5) by (intro back_edge_cycle) auto
    with gray show ?thesis by (simp add: colored_def del: set_map)
  next
    case white
    have edge: "(last (cy_stack s), dep) \<in> dep_graph units" using "4.prems"(3,5) white by simp
    have col: "dict_get (cy_color s) dep = Some White" "dict_get (cy_color s) dep \<noteq> Some Gray"
      using white by (simp_all add: colored_def)
    obtain c s' where v: "visit k units dep s = Some (c, s')"
      "if c = [] then advanced units dep s s' \<and> cy_stack s' = cy_stack s else is_cycle (dep_graph units) c"
      using "4.IH"(2) [OF _ col(2,1) "4.prems"(1) white(2) _ "4.prems"(4)] edge white(1) by auto
    show ?thesis
    proof (cases "c = []")
      case False
      with v white col show ?thesis by simp
    next
      case True
      with v have adv: "advanced units dep s s'" "cy_stack s' = cy_stack s" by simp_all
      have "card (colored White s') \<le> card (colored White s)"
        using adv(1) colored_finite by (intro card_mono) (auto simp: advanced_def)
      with "4.prems"(4) have fuel: "card (colored White s') \<le> k" by simp
      have "dep_graph units `` {node} \<subseteq> set deps \<union> colored Black s'"
        using "4.prems"(6) adv(1) by (auto simp: advanced_def)
      then obtain c' t where "visit_deps k units node deps s' = Some (c', t)"
        "if c' = [] then advanced units node s' t \<and> cy_stack t = butlast (cy_stack s') else is_cycle (dep_graph units) c'"
        using "4.IH"(3) [OF _ col(2,1) v(1) refl _ _ _ _ fuel] True white(1) adv "4.prems"
        by (auto simp: advanced_def)
      with v(1) True white col adv show ?thesis by (auto intro: advanced_trans simp del: set_map)
    qed
  next
    case black
    then have "dep_graph units `` {node} \<subseteq> set deps \<union> colored Black s" using "4.prems"(6) by auto
    moreover have "dict_get (cy_color s) dep \<noteq> Some Gray" "dict_get (cy_color s) dep \<noteq> Some White"
      using black by (simp_all add: colored_def)
    ultimately show ?thesis using "4.IH"(4) [OF _ _ _ "4.prems"(1-4)] "4.prems"(5) black(1) by simp
  qed
qed

lemma dep_graph_nodes: "dep_graph units \<subseteq> set (dict_keys units) \<times> set (dict_keys units)"
proof
  fix e
  assume "e \<in> dep_graph units"
  then obtain n d u where "e = (n, d)" "dict_get units n = Some u" "d \<in> set (dict_keys units)"
    unfolding dep_graph_def by blast
  then show "e \<in> set (dict_keys units) \<times> set (dict_keys units)"
    by (metis SigmaI dict_get_None_iff option.distinct(1))
qed

lemma all_black_acyclic:
  assumes "search_inv units s" "cy_stack s = []" "colored White s = {}"
  shows "acyclic (dep_graph units)"
proof -
  have "set (dict_keys units) \<subseteq> colored Black s"
  proof
    fix n
    assume "n \<in> set (dict_keys units)"
    with assms(1) have "n \<in> set (dict_keys (cy_color s))" by (simp add: search_inv_def)
    then obtain c where c: "dict_get (cy_color s) n = Some c" by (metis dict_get_None_iff option.exhaust)
    moreover have "colored Gray s = {}" using assms(1,2) by (simp add: search_inv_def)
    ultimately show "n \<in> colored Black s" using assms(3) by (cases c) (auto simp: colored_def)
  qed
  then have "dep_graph units \<inter> colored Black s \<times> colored Black s = dep_graph units"
    using dep_graph_nodes [of units] by auto
  with assms(1) show ?thesis by (simp add: search_inv_def)
qed

lemma visit_all_correct:
  "search_inv units s \<Longrightarrow> cy_stack s = [] \<Longrightarrow> card (colored White s) \<le> k \<Longrightarrow> colored White s \<subseteq> set nodes \<Longrightarrow>
     \<exists>c. visit_all k units nodes s = Some c \<and>
       (if c = [] then acyclic (dep_graph units) else is_cycle (dep_graph units) c)"
proof (induction nodes arbitrary: s)
  case Nil
  then show ?case using all_black_acyclic by auto
next
  case (Cons node nodes)
  show ?case
  proof (cases "node \<in> colored White s")
    case False
    with Cons.prems(4) have "colored White s \<subseteq> set nodes" by auto
    from Cons.IH [OF Cons.prems(1-3) this] False show ?thesis by (simp add: colored_def)
  next
    case True
    obtain c s' where v: "visit k units node s = Some (c, s')"
      "if c = [] then advanced units node s s' \<and> cy_stack s' = cy_stack s else is_cycle (dep_graph units) c"
      using visit_correct(1) [OF Cons.prems(1) True _ Cons.prems(3)] Cons.prems(2) by auto
    show ?thesis
    proof (cases "c = []")
      case False
      with v True show ?thesis by (simp add: colored_def)
    next
      case c: True
      with v have adv: "advanced units node s s'" "cy_stack s' = []" using Cons.prems(2) by simp_all
      have "card (colored White s') \<le> card (colored White s)"
        using adv(1) colored_finite by (intro card_mono) (auto simp: advanced_def)
      moreover have "colored White s' \<subseteq> set nodes"
        using adv(1) Cons.prems(4) colored_disjoint [of node White s' Black] by (auto simp: advanced_def)
      ultimately have "\<exists>c. visit_all k units nodes s' = Some c \<and>
          (if c = [] then acyclic (dep_graph units) else is_cycle (dep_graph units) c)"
        using Cons.IH [of s'] Cons.prems(3) adv by (simp add: advanced_def)
      with v(1) c True show ?thesis by (simp add: colored_def)
    qed
  qed
qed

text \<open>
  Claim C33. The cycle search always answers and is exact: it returns the empty tuple exactly when the
  dependency graph of the units has no cycle, and otherwise a closed path of that graph, the first unit
  repeated at its end.
\<close>

theorem cycle_search_exact:
  "case find_cycle (index_by wu_unit_id us) of
     None \<Rightarrow> False
   | Some c \<Rightarrow> (c = [] \<longleftrightarrow> acyclic (dep_graph (index_by wu_unit_id us))) \<and>
       (if c = [] then True else is_cycle (dep_graph (index_by wu_unit_id us)) c)"
proof -
  let ?u = "index_by wu_unit_id us"
  let ?s = "\<lparr>cy_color = map (\<lambda>(u, _). (u, White)) ?u, cy_stack = []\<rparr>"
  have keys: "map fst (cy_color ?s) = dict_keys ?u" by (simp add: comp_def case_prod_unfold)
  have white: "c = White" if "dict_get (cy_color ?s) n = Some c" for n c
    using dict_get_Some_in [OF that] by auto
  have known: "colored White ?s \<subseteq> set (dict_keys ?u)"
  proof
    fix n
    assume "n \<in> colored White ?s"
    from colored_known [OF this] show "n \<in> set (dict_keys ?u)" by (simp only: keys)
  qed
  have none: "colored c ?s = {}" if "c \<noteq> White" for c
    unfolding colored_def using white that by blast
  have "search_inv ?u ?s" using keys none by (simp add: search_inv_def acyclic_def)
  moreover have "card (colored White ?s) \<le> length ?u"
    using card_mono [OF _ known] card_length [of "dict_keys ?u"] by simp
  ultimately obtain c where c: "find_cycle ?u = Some c"
    "if c = [] then acyclic (dep_graph ?u) else is_cycle (dep_graph ?u) c"
    using visit_all_correct [of ?u ?s "length ?u" "dict_keys ?u"] known unfolding find_cycle_def by auto
  moreover have "\<not> acyclic E" if "is_cycle E p" for E :: "(string \<times> string) set" and p
  proof -
    have path: "successively (\<lambda>x y. (x, y) \<in> E) (x # q) \<Longrightarrow> q \<noteq> [] \<Longrightarrow> (x, last q) \<in> E\<^sup>+" for x q
    proof (induction q arbitrary: x)
      case (Cons y q)
      then show ?case by (cases q) (auto intro: trancl_into_trancl2)
    qed simp
    have "Suc (Suc 0) \<le> length p" using that by (simp add: is_cycle_def)
    then obtain x y r where "p = x # y # r" by (metis Suc_le_length_iff)
    with path [of x "y # r"] that show ?thesis by (auto simp: is_cycle_def acyclic_def)
  qed
  ultimately show ?thesis by (cases "c = []") auto
qed

section \<open>When a plan is ready for review\<close>

definition clean :: "findings \<Rightarrow> bool" where
  "clean a \<longleftrightarrow> fi_violations a = [] \<and> list_all (\<lambda>c. pc_status c \<noteq> ''unverifiable'') (fi_checks a)"

lemma clean_steps [simp]: "\<not> clean (fail_check i c d r a)" "clean (ok_check i d a) \<longleftrightarrow> clean a"
  by (auto simp: clean_def fail_check_def ok_check_def plan_check_def)

lemma clean_if: "clean (if c then fail_check i e d r a else b) \<longleftrightarrow> \<not> c \<and> clean b"
  by simp

definition unit_shape_ok :: "GovernedWorkPlan \<Rightarrow> WorkUnitSpec \<Rightarrow> bool" where
  "unit_shape_ok plan u \<longleftrightarrow> set (wu_dependencies u) \<subseteq> wu_unit_id ` set (gp_units plan) - {wu_unit_id u} \<and>
     wu_requirement_ids u \<noteq> [] \<and> wu_acceptance_ids u \<noteq> [] \<and> wu_write_paths u \<noteq> []"

lemma check_shape_clean:
  "clean (check_shape plan a) \<longleftrightarrow> clean a \<and> gp_units plan \<noteq> [] \<and> distinct (map wu_unit_id (gp_units plan)) \<and>
     list_all (unit_shape_ok plan) (gp_units plan)"
proof -
  have unit: "clean (check_shape_unit (index_by wu_unit_id (gp_units plan)) u b) \<longleftrightarrow> clean b \<and> unit_shape_ok plan u" for u b
  proof -
    let ?missing = "sorted_set (minus_list (wu_dependencies u) (dict_keys (index_by wu_unit_id (gp_units plan))))"
    have deps: "(?missing \<noteq> [] \<or> wu_unit_id u \<in> set (wu_dependencies u)) =
        (\<not> set (wu_dependencies u) \<subseteq> wu_unit_id ` set (gp_units plan) - {wu_unit_id u})"
      by (simp del: set_map) blast
    show ?thesis
      unfolding check_shape_unit_def Let_def unit_shape_ok_def deps clean_if by blast
  qed
  have "clean (fold (check_shape_unit (index_by wu_unit_id (gp_units plan))) us b) \<longleftrightarrow>
      clean b \<and> list_all (unit_shape_ok plan) us" for us b
    by (induction us arbitrary: b) (auto simp: unit)
  then show ?thesis by (auto simp: check_shape_def Let_def)
qed

lemma check_coverage_clean:
  "clean (check_coverage plan required no_change a) \<longleftrightarrow>
     clean a \<and> set required \<subseteq> (\<Union>u \<in> set (gp_units plan). set (wu_requirement_ids u)) \<union> set (dict_keys no_change)"
proof -
  have covered: "(\<Union>u \<in> set (gp_units plan). set (wu_requirement_ids u)) = set (concat (map wu_requirement_ids (gp_units plan)))"
    by simp
  have uncovered: "[r \<leftarrow> required. r \<notin> set (concat (map wu_requirement_ids (gp_units plan))) \<and>
      r \<notin> set (dict_keys no_change)] = [] \<longleftrightarrow>
      set required \<subseteq> set (concat (map wu_requirement_ids (gp_units plan))) \<union> set (dict_keys no_change)"
    by (simp only: filter_empty_conv) blast
  show ?thesis
    unfolding check_coverage_def Let_def clean_if clean_steps covered uncovered not_not by (rule conj_commute)
qed

lemma check_tests_clean:
  "clean (check_tests plan a) \<longleftrightarrow>
     clean a \<and> list_all (\<lambda>u. has_text (wu_test_recipe u) \<and> has_text (wu_test_oracle u)) (gp_units plan)"
  by (auto simp: check_tests_def Let_def filter_empty_conv list_all_iff)

definition interfaces_ok :: "GovernedWorkPlan \<Rightarrow> (string, string) dict \<Rightarrow> WorkUnitSpec \<Rightarrow> bool" where
  "interfaces_ok plan interfaces u \<longleftrightarrow> list_all (\<lambda>name.
     case dict_get (produced_by plan) name of
       None \<Rightarrow> False
     | Some producer \<Rightarrow> dict_get interfaces (producer @ ''.'' @ name) =
         dict_get interfaces (wu_unit_id u @ ''.'' @ name)) (wu_consumes u)"

lemma check_interfaces_clean:
  "clean (check_interfaces plan interfaces a) \<longleftrightarrow> clean a \<and> list_all (interfaces_ok plan interfaces) (gp_units plan)"
  by (auto simp: check_interfaces_def Let_def interface_mismatch_def interfaces_ok_def list_all_iff
      split: option.splits if_splits)

lemma check_dag_clean: "clean (check_dag cycle a) \<longleftrightarrow> clean a \<and> cycle = []"
  by (auto simp: check_dag_def)

lemma check_effects_clean:
  "clean (check_effects plan a) \<longleftrightarrow>
     clean a \<and> list_all (\<lambda>u. set (wu_effects u) \<subseteq> set (gp_external_effects plan)) (gp_units plan)"
  by (auto simp: check_effects_def Let_def filter_empty_conv list_all_iff)

lemma check_budget_clean:
  "clean (check_budget plan a) \<longleftrightarrow> clean a \<and> (\<exists>cap. gp_budget_cap plan = Some cap \<and>
     list_all (\<lambda>u. wu_cost_cap u \<noteq> None) (gp_units plan) \<and> sum_list (map unit_cost (gp_units plan)) \<le> cap)"
  by (auto simp: check_budget_def Let_def filter_empty_conv list_all_iff split: option.splits)

lemma check_recipes_clean:
  "clean (check_recipes plan known a) \<longleftrightarrow> clean a \<and> (\<exists>ks. known = Some ks \<and> ks \<noteq> [] \<and>
     list_all (\<lambda>u. has_text (wu_test_recipe u) \<longrightarrow> the (wu_test_recipe u) \<in> set ks) (gp_units plan))"
  by (auto simp: check_recipes_def Let_def filter_empty_conv list_all_iff clean_def [of "_\<lparr>fi_checks := _\<rparr>"]
      plan_check_def split: option.splits list.splits)

lemma check_scope_clean:
  "clean (check_scope plan a) \<longleftrightarrow> clean a \<and> list_all (\<lambda>u. \<not> list_ex wild_path (wu_write_paths u)) (gp_units plan)"
  by (auto simp: check_scope_def Let_def filter_empty_conv list_all_iff)

definition depends_on :: "GovernedWorkPlan \<Rightarrow> (string \<times> string) set" where
  "depends_on plan = {(n, d). \<exists>u. dict_get (index_by wu_unit_id (gp_units plan)) n = Some u \<and> d \<in> set (wu_dependencies u)}"

lemma edges_dependency_lists: "edges (dependency_lists (index_by wu_unit_id (gp_units plan))) = depends_on plan"
  by (auto simp: edges_def succs_def dependency_lists_def depends_on_def map_of_map split: option.splits)

lemma reachable_iff: "reachable (index_by wu_unit_id (gp_units plan)) l r \<longleftrightarrow> (l, r) \<in> (depends_on plan)\<^sup>*"
  unfolding reachable_def reach_loop_correct edges_dependency_lists ..

lemma writers_edges: "edges (writers_table plan) = {(path, wu_unit_id u) | path u. u \<in> set (gp_units plan) \<and> path \<in> set (wu_write_paths u)}"
proof -
  have step: "edges (dict_set path (succs t path @ [uid]) t) = insert (path, uid) (edges t)" for path uid :: string and t
    by (auto simp: edges_def succs_set split: if_splits)
  have inner: "edges (fold (\<lambda>path t. dict_set path (succs t path @ [uid]) t) ps t) = (\<lambda>p. (p, uid)) ` set ps \<union> edges t"
    for uid :: string and ps t
    using fold_adds [of edges "\<lambda>path t. dict_set path (succs t path @ [uid]) t" "\<lambda>p. {(p, uid)}"] step by auto
  have "edges (writers_table plan) = \<Union> ((\<lambda>u. (\<lambda>p. (p, wu_unit_id u)) ` set (wu_write_paths u)) ` set (gp_units plan)) \<union> edges []"
    unfolding writers_table_def by (rule fold_adds) (rule inner)
  then show ?thesis by auto
qed

lemma writers_wf: "dict_wf (writers_table plan)"
proof -
  have inner: "dict_wf t \<Longrightarrow> dict_wf (fold (\<lambda>path t. dict_set path (succs t path @ [uid]) t) ps t)" for uid :: string and ps t
    by (induction ps arbitrary: t) (auto simp: dict_wf_set)
  have "dict_wf t \<Longrightarrow> dict_wf (fold (\<lambda>u. fold (\<lambda>path t. dict_set path (succs t path @ [wu_unit_id u]) t) (wu_write_paths u)) us t)"
    for us t by (induction us arbitrary: t) (simp_all add: inner)
  from this [of "[]" "gp_units plan"] show ?thesis by (simp add: writers_table_def)
qed

lemma path_conflicts_Nil:
  "path_conflicts by_id path owners = [] \<longleftrightarrow>
     (\<forall>l \<in> set owners. \<forall>r \<in> set owners. l \<noteq> r \<longrightarrow> reachable by_id l r \<or> reachable by_id r l)"
proof (cases "length owners < 2")
  case True
  then have "l = r" if "l \<in> set owners" "r \<in> set owners" for l r
    using that by (cases owners; cases "tl owners") auto
  with True show ?thesis by (auto simp: path_conflicts_def)
qed (auto simp: path_conflicts_def)

definition writes_ordered :: "GovernedWorkPlan \<Rightarrow> bool" where
  "writes_ordered plan \<longleftrightarrow> (\<forall>u \<in> set (gp_units plan). \<forall>v \<in> set (gp_units plan).
     wu_unit_id u = wu_unit_id v \<or> set (wu_write_paths u) \<inter> set (wu_write_paths v) = {} \<or>
     (wu_unit_id u, wu_unit_id v) \<in> (depends_on plan)\<^sup>* \<or> (wu_unit_id v, wu_unit_id u) \<in> (depends_on plan)\<^sup>*)"

lemma check_writes_clean: "clean (check_writes plan a) \<longleftrightarrow> clean a \<and> writes_ordered plan"
proof -
  let ?t = "writers_table plan" and ?D = "(depends_on plan)\<^sup>*" and ?ids = "index_by wu_unit_id (gp_units plan)"
  have edge: "l \<in> set (succs ?t path) \<longleftrightarrow> (path, l) \<in> edges ?t" for path l by (simp add: edges_def)
  have "(\<forall>(path, owners) \<in> set ?t. path_conflicts ?ids path owners = []) \<longleftrightarrow>
      (\<forall>path. path_conflicts ?ids path (succs ?t path) = [])"
  proof
    assume l: "\<forall>(path, owners) \<in> set ?t. path_conflicts ?ids path owners = []"
    show "\<forall>path. path_conflicts ?ids path (succs ?t path) = []"
    proof
      fix path
      show "path_conflicts ?ids path (succs ?t path) = []"
        using l dict_get_Some_in [of ?t path]
        by (cases "dict_get ?t path") (auto simp: succs_def path_conflicts_def [of _ _ "[]"])
    qed
  next
    assume r: "\<forall>path. path_conflicts ?ids path (succs ?t path) = []"
    have "path_conflicts ?ids path owners = []" if "(path, owners) \<in> set ?t" for path owners
    proof -
      from that have "dict_get ?t path = Some owners" by (simp only: dict_get_iff_in [OF writers_wf])
      then have "succs ?t path = owners" by (simp add: succs_def)
      with r show ?thesis by metis
    qed
    then show "\<forall>(path, owners) \<in> set ?t. path_conflicts ?ids path owners = []" by blast
  qed
  also have "\<dots> \<longleftrightarrow> (\<forall>path l r. (path, l) \<in> edges ?t \<longrightarrow> (path, r) \<in> edges ?t \<longrightarrow> l \<noteq> r \<longrightarrow> (l, r) \<in> ?D \<or> (r, l) \<in> ?D)"
    unfolding path_conflicts_Nil reachable_iff edge [symmetric] by blast
  also have "\<dots> \<longleftrightarrow> writes_ordered plan" unfolding writers_edges writes_ordered_def by blast
  finally show ?thesis by (auto simp: check_writes_def Let_def)
qed

text \<open>What the ten checks together ask of a plan, in terms of its units.\<close>

definition review_ready ::
  "GovernedWorkPlan \<Rightarrow> string list \<Rightarrow> (string, string) dict \<Rightarrow> string list option \<Rightarrow> (string, string) dict \<Rightarrow> bool"
where
  "review_ready plan required no_change known_recipes interfaces \<longleftrightarrow>
     gp_units plan \<noteq> [] \<and> distinct (map wu_unit_id (gp_units plan)) \<and>
     list_all (unit_shape_ok plan) (gp_units plan) \<and>
     set required \<subseteq> (\<Union>u \<in> set (gp_units plan). set (wu_requirement_ids u)) \<union> set (dict_keys no_change) \<and>
     list_all (\<lambda>u. has_text (wu_test_recipe u) \<and> has_text (wu_test_oracle u)) (gp_units plan) \<and>
     list_all (interfaces_ok plan interfaces) (gp_units plan) \<and>
     acyclic (depends_on plan) \<and> writes_ordered plan \<and>
     list_all (\<lambda>u. set (wu_effects u) \<subseteq> set (gp_external_effects plan)) (gp_units plan) \<and>
     (\<exists>cap. gp_budget_cap plan = Some cap \<and> list_all (\<lambda>u. wu_cost_cap u \<noteq> None) (gp_units plan) \<and>
        sum_list (map unit_cost (gp_units plan)) \<le> cap) \<and>
     (\<exists>ks. known_recipes = Some ks \<and> list_all (\<lambda>u. the (wu_test_recipe u) \<in> set ks) (gp_units plan)) \<and>
     list_all (\<lambda>u. \<not> list_ex wild_path (wu_write_paths u)) (gp_units plan)"

lemma shape_dep_graph:
  "list_all (unit_shape_ok plan) (gp_units plan) \<Longrightarrow> dep_graph (index_by wu_unit_id (gp_units plan)) = depends_on plan"
proof -
  assume shape: "list_all (unit_shape_ok plan) (gp_units plan)"
  have "d \<in> set (dict_keys (index_by wu_unit_id (gp_units plan)))"
    if "dict_get (index_by wu_unit_id (gp_units plan)) n = Some u" "d \<in> set (wu_dependencies u)" for n u d
    using shape index_by_get_in [OF that(1)] that(2) unfolding index_by_keys
    by (auto simp: list_all_iff unit_shape_ok_def)
  then show ?thesis unfolding dep_graph_def depends_on_def by blast
qed

text \<open>
  The validator always reports, and it reports a plan ready for review exactly when the plan
  has units with distinct ids, every unit depends on other units of the plan only, is traced to
  requirements and acceptances and names what it writes, every required id is covered by a unit or by
  evidence, every unit has a recipe and an oracle and the recipes are registered, consumed interfaces are
  produced with the same signature, dependencies have no cycle, units that write one path are ordered by
  dependencies, unit effects are effects of the plan, unit costs are capped and sum up to at most the
  plan's cap, and no write path is a wildcard, absolute or escaping.
\<close>

theorem validation_decides_readiness:
  "\<exists>report. validate_plan plan active no_change known_recipes interfaces = Some report \<and>
     (require_ready report = Ok () \<longleftrightarrow>
       review_ready plan (case active of None \<Rightarrow> gp_requirements plan | Some r \<Rightarrow> r)
         (case no_change of None \<Rightarrow> [] | Some d \<Rightarrow> d) known_recipes (case interfaces of None \<Rightarrow> [] | Some d \<Rightarrow> d))"
proof -
  let ?units = "gp_units plan"
  let ?cond = "\<lambda>ks. list_all (\<lambda>u. has_text (wu_test_recipe u) \<longrightarrow> the (wu_test_recipe u) \<in> set ks) ?units"
  obtain cycle where cyc: "plan_cycle plan = Some cycle"
    "distinct (map wu_unit_id ?units) \<Longrightarrow> cycle = [] \<longleftrightarrow> acyclic (dep_graph (index_by wu_unit_id ?units))"
  proof (cases "distinct (map wu_unit_id ?units)")
    case True
    with cycle_search_exact [of ?units] that show thesis
      by (cases "find_cycle (index_by wu_unit_id ?units)") (auto simp: plan_cycle_def length_index_by_iff)
  next
    case False
    with that [of "[]"] show thesis by (simp add: plan_cycle_def length_index_by_iff)
  qed
  have start: "clean \<lparr>fi_checks = [], fi_violations = [], fi_failed = []\<rparr>" by (simp add: clean_def)
  have recipes: "?units \<noteq> [] \<Longrightarrow> list_all (\<lambda>u. has_text (wu_test_recipe u) \<and> has_text (wu_test_oracle u)) ?units \<Longrightarrow>
      (\<exists>ks. known_recipes = Some ks \<and> ks \<noteq> [] \<and> ?cond ks) \<longleftrightarrow>
      (\<exists>ks. known_recipes = Some ks \<and> list_all (\<lambda>u. the (wu_test_recipe u) \<in> set ks) ?units)"
    by (cases ?units) (auto simp: list_all_iff)
  have dag: "list_all (unit_shape_ok plan) ?units \<Longrightarrow> distinct (map wu_unit_id ?units) \<Longrightarrow> cycle = [] \<longleftrightarrow> acyclic (depends_on plan)"
    using cyc(2) shape_dep_graph by simp
  have ready: "require_ready r = Ok () \<longleftrightarrow> cr_ready_for_review r" for r by (simp add: require_ready_def)
  show ?thesis
    unfolding validate_plan_def Let_def cyc(1) option.case ready review_ready_def
    apply (rule exI, rule conjI, rule refl)
    apply (simp only: PlanCheckReport.simps clean_def [symmetric] comp_def check_scope_clean check_recipes_clean
      check_budget_clean check_effects_clean check_writes_clean check_dag_clean check_interfaces_clean
      check_tests_clean check_coverage_clean check_shape_clean start simp_thms)
    using recipes dag by blast
qed

lemma sample_plan_reviewed:
  "let p = sample_plan [sample_unit ''u1'' [], sample_unit ''u2'' [''u1'']];
       q = sample_plan [sample_unit ''u1'' [''u2''], sample_unit ''u2'' [''u1'']];
       check = (\<lambda>p. validate_plan p None None (Some [''pytest'']) None)
   in map_option require_ready (check p) = Some (Ok ()) \<and> map_option cr_cycle_path (check q) = Some [''u1'', ''u2'', ''u1''] \<and>
      map_option violations_code (check q) = Some ''DAG_CYCLE''"
  by code_simp

end
