(* ===== verification/Decisions.thy ===== *)
theory Decisions
  imports PyObj
begin

text \<open>
  \<open>planning/decisions.py\<close>, \<open>planning/recovery.py\<close> and \<open>planning/completion.py\<close>: the desk that presents
  and settles human decisions, the re-presentation of an interrupted decision, partial approval, and what
  may be claimed about finished work. The nonce a new request draws from \<open>secrets\<close> is an argument.
\<close>

section \<open>The decision desk\<close>

definition DECISION_PURPOSES :: "string list" where
  "DECISION_PURPOSES = [''design_choice'', ''plan_approval'', ''execution_permission'', ''source_apply'',
     ''acceptance'', ''publish'']"

definition RESPONSES :: "string list" where
  "RESPONSES = [''approve'', ''reject'', ''defer'', ''cancel'', ''request_changes'', ''ask_question'']"

record DecisionRequest =
  dq_decision_id :: string
  dq_scope :: string
  dq_purpose :: string
  dq_subject_digest :: string
  dq_display_digest :: string
  dq_request_revision :: int
  dq_nonce :: string
  dq_expires_at :: int
  dq_allowed_responses :: "string list"
  dq_state :: string
  dq_approved_units :: "string list"

record DecisionOutcome =
  do_granted :: bool
  do_state :: string
  do_decision_id :: string
  do_purpose :: string
  do_reason :: string

record DecisionDesk =
  dk_now :: int
  dk_requests :: "(string, DecisionRequest) dict"

definition new_desk :: "int \<Rightarrow> DecisionDesk" where
  "new_desk now = \<lparr>dk_now = now, dk_requests = []\<rparr>"

definition set_clock :: "int \<Rightarrow> (DecisionDesk, unit) op" where
  "set_clock now s = (Ok (), s\<lparr>dk_now := now\<rparr>)"

definition put_request :: "DecisionRequest \<Rightarrow> DecisionDesk \<Rightarrow> DecisionDesk" where
  "put_request q s = s\<lparr>dk_requests := dict_set (dq_decision_id q) q (dk_requests s)\<rparr>"

definition present_decision ::
  "string \<Rightarrow> string \<Rightarrow> string \<Rightarrow> string \<Rightarrow> string \<Rightarrow> string \<Rightarrow> int \<Rightarrow> int \<Rightarrow> string list option \<Rightarrow>
     (DecisionDesk, DecisionRequest) op"
where
  "present_decision nonce decision_id scope purpose subject_digest display_digest revision ttl allowed_responses s =
     (if purpose \<notin> set DECISION_PURPOSES then (raise ''INVALID_PURPOSE'' purpose, s)
      else
        case dict_get (dk_requests s) decision_id of
          Some existing \<Rightarrow>
            if dq_subject_digest existing \<noteq> subject_digest \<or> dq_purpose existing \<noteq> purpose
            then (raise ''IDEMPOTENCY_CONFLICT'' ''same decision_id, different subject'', s)
            else (Ok existing, s)
        | None \<Rightarrow>
            let allowed = (case allowed_responses of None \<Rightarrow> sort RESPONSES | Some a \<Rightarrow> a);
                unknown = sorted_set (minus_list allowed RESPONSES)
            in if unknown \<noteq> [] then (raise ''INVALID_RESPONSE_KIND'' (repr_list unknown), s)
               else
                 let request = \<lparr>dq_decision_id = decision_id, dq_scope = scope, dq_purpose = purpose,
                       dq_subject_digest = subject_digest, dq_display_digest = display_digest,
                       dq_request_revision = revision, dq_nonce = nonce, dq_expires_at = dk_now s + ttl,
                       dq_allowed_responses = allowed, dq_state = ''pending'', dq_approved_units = []\<rparr>
                 in (Ok request, put_request request s))"

definition load_decision :: "DecisionDesk \<Rightarrow> string \<Rightarrow> DecisionRequest option" where
  "load_decision s decision_id = dict_get (dk_requests s) decision_id"

definition response_states :: "(string, string) dict" where
  "response_states = [(''approve'', ''approved''), (''reject'', ''rejected''), (''defer'', ''deferred''),
     (''cancel'', ''cancelled''), (''request_changes'', ''amend_requested''), (''ask_question'', ''deferred'')]"

definition record_response ::
  "string \<Rightarrow> string \<Rightarrow> string \<Rightarrow> string \<Rightarrow> string \<Rightarrow> int \<Rightarrow> string list \<Rightarrow> (DecisionDesk, DecisionOutcome) op"
where
  "record_response decision_id response nonce subject_digest display_digest expected_revision approved_units s =
     (case dict_get (dk_requests s) decision_id of
        None \<Rightarrow> (raise ''UNKNOWN_DECISION'' decision_id, s)
      | Some request \<Rightarrow>
          if dq_state request \<noteq> ''pending'' then
            (Ok \<lparr>do_granted = False, do_state = dq_state request, do_decision_id = decision_id,
                 do_purpose = dq_purpose request, do_reason = ''already settled; replay has no effect''\<rparr>, s)
          else if dk_now s > dq_expires_at request then
            (Ok \<lparr>do_granted = False, do_state = ''expired'', do_decision_id = decision_id,
                 do_purpose = dq_purpose request, do_reason = ''decision request expired''\<rparr>,
             s\<lparr>dk_requests := dict_set decision_id (request\<lparr>dq_state := ''expired''\<rparr>) (dk_requests s)\<rparr>)
          else if response \<notin> set (dq_allowed_responses request) then (raise ''INVALID_RESPONSE_KIND'' response, s)
          else if nonce \<noteq> dq_nonce request \<or> expected_revision \<noteq> dq_request_revision request \<or>
            subject_digest \<noteq> dq_subject_digest request \<or> display_digest \<noteq> dq_display_digest request
          then (raise ''PERMIT_STALE'' ''response does not match the displayed request'', s)
          else
            case dict_get response_states response of
              None \<Rightarrow> (Inl (PyError ''KeyError''), s)
            | Some state \<Rightarrow>
                (Ok \<lparr>do_granted = (response = ''approve''), do_state = state, do_decision_id = decision_id,
                     do_purpose = dq_purpose request, do_reason = []\<rparr>,
                 s\<lparr>dk_requests := dict_set decision_id
                     (request\<lparr>dq_state := state, dq_approved_units := approved_units\<rparr>) (dk_requests s)\<rparr>))"

definition overdue :: "int \<Rightarrow> DecisionRequest \<Rightarrow> bool" where
  "overdue now request \<longleftrightarrow> dq_state request = ''pending'' \<and> now > dq_expires_at request"

definition expire_pending :: "(DecisionDesk, string list) op" where
  "expire_pending s =
     (Ok (map fst [(key, request) \<leftarrow> dk_requests s. overdue (dk_now s) request]),
      s\<lparr>dk_requests := map (\<lambda>(key, request).
          (key, if overdue (dk_now s) request then request\<lparr>dq_state := ''expired''\<rparr> else request)) (dk_requests s)\<rparr>)"

definition resume_pending ::
  "string \<Rightarrow> string \<Rightarrow> string \<Rightarrow> string \<Rightarrow> string \<Rightarrow> string \<Rightarrow> int \<Rightarrow> int \<Rightarrow> (DecisionDesk, DecisionRequest) op"
where
  "resume_pending nonce decision_id scope purpose subject_digest display_digest revision ttl s =
     (case load_decision s decision_id of
        Some existing \<Rightarrow>
          if dq_state existing \<noteq> ''pending''
          then (raise ''DECISION_SETTLED'' (decision_id @ '' is '' @ dq_state existing @ ''; cannot resume''), s)
          else if dq_subject_digest existing \<noteq> subject_digest \<or> dq_display_digest existing \<noteq> display_digest \<or>
            dq_purpose existing \<noteq> purpose
          then (raise ''IDEMPOTENCY_CONFLICT'' ''same decision_id, different sealed content'', s)
          else (Ok existing, s)
      | None \<Rightarrow> present_decision nonce decision_id scope purpose subject_digest display_digest revision ttl None s)"

section \<open>Partial approval\<close>

text \<open>\<open>for unit in list(pending)\<close>: one pass over a copy, discarding as it goes.\<close>

definition unit_deps :: "(string, string list) dict \<Rightarrow> string \<Rightarrow> string list" where
  "unit_deps dependencies u = (case dict_get dependencies u of None \<Rightarrow> [] | Some ds \<Rightarrow> ds)"

fun approval_pass :: "(string, string list) dict \<Rightarrow> string list \<Rightarrow> string list \<Rightarrow> string list" where
  "approval_pass dependencies [] pending = pending"
| "approval_pass dependencies (u # us) pending =
     (if \<not> subset_list (unit_deps dependencies u) pending
      then approval_pass dependencies us (removeAll u pending)
      else approval_pass dependencies us pending)"

lemma approval_pass_subset: "set (approval_pass dependencies us pending) \<subseteq> set pending"
  by (induction us arbitrary: pending) (auto, fastforce)

lemma approval_pass_length:
  "length (approval_pass dependencies us pending) \<le> length pending"
proof (induction us arbitrary: pending)
  case (Cons u us)
  have "length (approval_pass dependencies us (removeAll u pending)) \<le> length (removeAll u pending)"
    by (rule Cons.IH)
  also have "\<dots> \<le> length pending" by (rule length_removeAll_less_eq)
  finally show ?case using Cons.IH [of pending] by simp
qed simp

lemma approval_pass_shrinks:
  "set us \<subseteq> set pending \<Longrightarrow> approval_pass dependencies us pending \<noteq> pending \<Longrightarrow>
     length (approval_pass dependencies us pending) < length pending"
proof (induction us arbitrary: pending)
  case (Cons u us)
  show ?case
  proof (cases "subset_list (unit_deps dependencies u) pending")
    case True
    with Cons show ?thesis by simp
  next
    case False
    have "length (removeAll u pending) < length pending" using Cons.prems(1) by (simp add: length_removeAll_less)
    moreover have "length (approval_pass dependencies us (removeAll u pending)) \<le> length (removeAll u pending)"
      by (rule approval_pass_length)
    ultimately show ?thesis using False by simp
  qed
qed simp

function approval_loop :: "(string, string list) dict \<Rightarrow> string list \<Rightarrow> string list" where
  "approval_loop dependencies pending =
     (let rest = approval_pass dependencies pending pending in
      if rest = pending then pending else approval_loop dependencies rest)"
  by pat_completeness auto
termination
  by (relation "measure (\<lambda>(_, pending). length pending)") (auto intro: approval_pass_shrinks)

declare approval_loop.simps [simp del]

definition partial_approval_units :: "string list \<Rightarrow> (string, string list) dict \<Rightarrow> string list" where
  "partial_approval_units approved dependencies =
     (let pending = approval_loop dependencies (remdups approved) in [u \<leftarrow> approved. u \<in> set pending])"

section \<open>Completion\<close>

definition OUTCOMES :: "string list" where
  "OUTCOMES = [''changed'', ''answered'', ''verified_no_change'', ''failed'']"

record CompletionDecision =
  cd_outcome :: string
  cd_acceptance_met :: bool
  cd_review_complete :: bool
  cd_may_apply :: bool
  cd_may_publish :: bool
  cd_unmet :: "string list"

definition assess_completion ::
  "string \<Rightarrow> (string, bool) dict \<Rightarrow> bool \<Rightarrow> bool \<Rightarrow> bool \<Rightarrow> bool \<Rightarrow> CompletionDecision result"
where
  "assess_completion outcome acceptance_results review_approved apply_permit publish_permit source_changed =
     (if outcome \<notin> set OUTCOMES then raise ''INVALID_OUTCOME'' outcome
      else
        let unmet = sort (map fst [(k, v) \<leftarrow> acceptance_results. \<not> v]);
            acceptance_met = (unmet = [])
        in if outcome = ''verified_no_change'' \<and> source_changed
           then raise ''STALE_SOURCE'' ''verified_no_change claims the source did not change''
           else Ok \<lparr>cd_outcome = outcome, cd_acceptance_met = acceptance_met, cd_review_complete = review_approved,
             cd_may_apply = (outcome = ''changed'' \<and> acceptance_met \<and> review_approved \<and> apply_permit),
             cd_may_publish = (publish_permit \<and> acceptance_met \<and> review_approved), cd_unmet = unmet\<rparr>)"

section \<open>Partial approval keeps the greatest closed part\<close>

definition deps_closed :: "(string, string list) dict \<Rightarrow> string set \<Rightarrow> bool" where
  "deps_closed dependencies S \<longleftrightarrow> (\<forall>u \<in> S. set (unit_deps dependencies u) \<subseteq> S)"

lemma approval_pass_keeps:
  "deps_closed dependencies S \<Longrightarrow> S \<subseteq> set pending \<Longrightarrow> S \<subseteq> set (approval_pass dependencies us pending)"
proof (induction us arbitrary: pending)
  case (Cons u us)
  show ?case
  proof (cases "subset_list (unit_deps dependencies u) pending")
    case False
    with Cons.prems have "u \<notin> S" by (auto simp: deps_closed_def)
    with Cons.prems have "S \<subseteq> set (removeAll u pending)" by auto
    from Cons.IH [OF Cons.prems(1) this] False show ?thesis by simp
  qed (use Cons in simp)
qed simp

lemma approval_pass_fixed:
  "set us \<subseteq> set pending \<Longrightarrow> approval_pass dependencies us pending = pending \<Longrightarrow>
     \<forall>u \<in> set us. set (unit_deps dependencies u) \<subseteq> set pending"
proof (induction us)
  case (Cons u us)
  show ?case
  proof (cases "subset_list (unit_deps dependencies u) pending")
    case False
    have "length (removeAll u pending) < length pending" using Cons.prems(1) by (simp add: length_removeAll_less)
    with approval_pass_length [of dependencies us "removeAll u pending"] False Cons.prems(2) show ?thesis by simp
  qed (use Cons in simp)
qed simp

lemma approval_loop_correct:
  "deps_closed dependencies (set (approval_loop dependencies pending)) \<and>
   set (approval_loop dependencies pending) \<subseteq> set pending \<and>
   (\<forall>S. deps_closed dependencies S \<longrightarrow> S \<subseteq> set pending \<longrightarrow> S \<subseteq> set (approval_loop dependencies pending))"
proof (induction dependencies pending rule: approval_loop.induct)
  case (1 dependencies pending)
  let ?rest = "approval_pass dependencies pending pending"
  show ?case
  proof (cases "?rest = pending")
    case True
    with approval_pass_fixed [of pending pending dependencies] show ?thesis
      by (subst (1 2 3) approval_loop.simps) (simp add: deps_closed_def)
  next
    case False
    then have "approval_loop dependencies pending = approval_loop dependencies ?rest"
      by (subst approval_loop.simps) simp
    with "1.IH" [OF refl False] approval_pass_subset [of dependencies pending pending]
      approval_pass_keeps [of dependencies _ pending pending]
    show ?thesis by (metis order_trans)
  qed
qed

lemma partial_approval_closed:
  "set (partial_approval_units approved dependencies) \<subseteq> set approved"
  "deps_closed dependencies (set (partial_approval_units approved dependencies))"
proof -
  have "set (partial_approval_units approved dependencies) = set (approval_loop dependencies (remdups approved))"
    using approval_loop_correct [of dependencies "remdups approved"] by (auto simp: partial_approval_units_def Let_def)
  then show "deps_closed dependencies (set (partial_approval_units approved dependencies))"
    using approval_loop_correct by simp
qed (auto simp: partial_approval_units_def Let_def)

text \<open>
  Claim C35. Partial approval keeps, in their order, exactly the approved units of the greatest
  dependency-closed set of approved units, so nothing runs whose dependencies are not all approved and
  nothing is held back that could run.
\<close>

theorem partial_approval_greatest:
  "partial_approval_units approved dependencies =
     [u \<leftarrow> approved. u \<in> \<Union> {S. S \<subseteq> set approved \<and> deps_closed dependencies S}] \<and>
   deps_closed dependencies (set (partial_approval_units approved dependencies))"
proof -
  let ?p = "approval_loop dependencies (remdups approved)"
  have p: "deps_closed dependencies (set ?p)" "set ?p \<subseteq> set approved"
    "\<And>S. deps_closed dependencies S \<Longrightarrow> S \<subseteq> set approved \<Longrightarrow> S \<subseteq> set ?p"
    using approval_loop_correct [of dependencies "remdups approved"] by simp_all
  then have eq: "\<Union> {S. S \<subseteq> set approved \<and> deps_closed dependencies S} = set ?p" by blast
  have "set (partial_approval_units approved dependencies) = set ?p"
    using p(2) by (auto simp: partial_approval_units_def Let_def)
  with p(1) eq show ?thesis by (simp add: partial_approval_units_def Let_def)
qed

section \<open>A decision is granted once, on what was shown\<close>

text \<open>What is fixed when a request is presented.\<close>

definition sealed :: "DecisionRequest \<Rightarrow> DecisionRequest" where
  "sealed q = q\<lparr>dq_state := [], dq_approved_units := []\<rparr>"

text \<open>The desk's calls in any order, with the outcome of an answered one.\<close>

inductive decision_event :: "DecisionDesk \<Rightarrow> DecisionOutcome list \<Rightarrow> DecisionDesk \<Rightarrow> bool" where
  clock: "set_clock now s = (r, t) \<Longrightarrow> decision_event s [] t"
| present: "present_decision n d sc p sd dd rv ttl al s = (r, t) \<Longrightarrow> decision_event s [] t"
| resume: "resume_pending n d sc p sd dd rv ttl s = (r, t) \<Longrightarrow> decision_event s [] t"
| expire: "expire_pending s = (r, t) \<Longrightarrow> decision_event s [] t"
| refused: "record_response d resp n sd dd rv us s = (Inl e, t) \<Longrightarrow> decision_event s [] t"
| answered: "record_response d resp n sd dd rv us s = (Inr out, t) \<Longrightarrow> decision_event s [out] t"

inductive decision_trace :: "DecisionDesk \<Rightarrow> DecisionOutcome list \<Rightarrow> DecisionDesk \<Rightarrow> bool" for s where
  start: "decision_trace s [] s"
| more: "decision_trace s os t \<Longrightarrow> decision_event t out u \<Longrightarrow> decision_trace s (os @ out) u"

definition desk_extends :: "DecisionDesk \<Rightarrow> DecisionDesk \<Rightarrow> bool" where
  "desk_extends s t \<longleftrightarrow> (\<forall>d q. load_decision s d = Some q \<longrightarrow>
     (\<exists>q'. load_decision t d = Some q' \<and> sealed q' = sealed q \<and> (dq_state q = ''pending'' \<or> q' = q)))"

lemma desk_extends_refl [simp]: "desk_extends s s" by (simp add: desk_extends_def)

lemma desk_extends_trans: "desk_extends s t \<Longrightarrow> desk_extends t u \<Longrightarrow> desk_extends s u"
  unfolding desk_extends_def by metis

lemma present_extends: "present_decision n d sc p sd dd rv ttl al s = (r, t) \<Longrightarrow> desk_extends s t"
  by (auto simp: present_decision_def Let_def desk_extends_def load_decision_def put_request_def
      split: if_splits option.splits)

lemma response_exact:
  "record_response d resp n sd dd rv us s = (Inr out, t) \<Longrightarrow>
     \<exists>q. load_decision s d = Some q \<and> do_decision_id out = d \<and> do_purpose out = dq_purpose q \<and>
       (do_granted out \<longleftrightarrow> dq_state q = ''pending'' \<and> dk_now s \<le> dq_expires_at q \<and> resp = ''approve'' \<and>
          resp \<in> set (dq_allowed_responses q) \<and> n = dq_nonce q \<and> rv = dq_request_revision q \<and>
          sd = dq_subject_digest q \<and> dd = dq_display_digest q) \<and>
       (do_granted out \<longrightarrow> load_decision t d = Some (q\<lparr>dq_state := ''approved'', dq_approved_units := us\<rparr>)) \<and>
       desk_extends s t"
proof -
  assume r: "record_response d resp n sd dd rv us s = (Inr out, t)"
  then obtain q where q: "dict_get (dk_requests s) d = Some q"
    by (auto simp: record_response_def split: option.splits)
  show ?thesis
    using r q unfolding record_response_def
    by (auto simp: load_decision_def desk_extends_def sealed_def response_states_def split: if_splits option.splits)
qed

lemma expire_extends: "expire_pending s = (r, t) \<Longrightarrow> desk_extends s t"
  by (auto simp: expire_pending_def desk_extends_def load_decision_def map_of_map overdue_def sealed_def)

lemma resume_extends: "resume_pending n d sc p sd dd rv ttl s = (r, t) \<Longrightarrow> desk_extends s t"
  by (auto simp: resume_pending_def split: option.splits if_splits dest: present_extends)

lemma response_refused: "record_response d resp n sd dd rv us s = (Inl e, t) \<Longrightarrow> t = s"
  by (auto simp: record_response_def split: option.splits if_splits)

lemma event_extends: "decision_event s os t \<Longrightarrow> desk_extends s t"
proof (induction rule: decision_event.induct)
  case (clock now s r t)
  then show ?case by (auto simp: set_clock_def desk_extends_def load_decision_def)
next
  case (answered d resp n sd dd rv us s out t)
  from response_exact [OF answered] show ?case by blast
qed (auto dest: present_extends resume_extends expire_extends response_refused)

inductive_cases decision_eventE: "decision_event s os t"

lemma event_outcome:
  "decision_event s os t \<Longrightarrow> length os \<le> 1 \<and> (\<forall>out \<in> set os. do_granted out \<longrightarrow>
     (\<exists>q q'. load_decision s (do_decision_id out) = Some q \<and> dq_state q = ''pending'' \<and>
        load_decision t (do_decision_id out) = Some q' \<and> dq_state q' = ''approved''))"
  by (erule decision_eventE) (auto dest!: response_exact)

text \<open>
  Claim C31. Whatever calls reach the desk, in whatever order: a decision is granted at most once, and the
  granted decision stays settled as approved; a request that exists keeps its scope, purpose, digests,
  revision, nonce and expiry, and once settled never changes again, so a replayed answer, a resumed node
  or a second presentation creates no authority.
\<close>

theorem decision_granted_once:
  assumes "decision_trace s os t"
  shows "length [out \<leftarrow> os. do_granted out \<and> do_decision_id out = d] \<le> 1 \<and> desk_extends s t \<and>
    (\<forall>out \<in> set os. do_granted out \<longrightarrow>
       (\<exists>q. load_decision t (do_decision_id out) = Some q \<and> dq_state q = ''approved''))"
  using assms
proof (induction rule: decision_trace.induct)
  case start
  then show ?case by simp
next
  case (more os t out u)
  let ?granted = "\<lambda>os. [out \<leftarrow> os. do_granted out \<and> do_decision_id out = d]"
  note ext = event_extends [OF more.hyps(2)] and out = event_outcome [OF more.hyps(2)]
  have kept: "\<exists>q. load_decision u e = Some q \<and> dq_state q = ''approved''"
    if "load_decision t e = Some q" "dq_state q = ''approved''" for e q
    using ext that unfolding desk_extends_def by fastforce
  have "length (?granted (os @ out)) \<le> 1"
  proof (cases "?granted os = []")
    case True
    have "length (?granted out) \<le> length out" by (rule length_filter_le)
    also have "\<dots> \<le> 1" using out by simp
    finally show ?thesis using True by simp
  next
    case False
    then obtain x where "x \<in> set os" "do_granted x" "do_decision_id x = d" by (auto simp: filter_empty_conv)
    with more.IH obtain q where "load_decision t d = Some q" "dq_state q = ''approved''" by blast
    with out have "?granted out = []" by (force simp: filter_empty_conv)
    with more.IH show ?thesis by simp
  qed
  moreover have "desk_extends s u" using more.IH ext desk_extends_trans by blast
  moreover have "\<exists>q. load_decision u (do_decision_id x) = Some q \<and> dq_state q = ''approved''"
    if "x \<in> set (os @ out)" "do_granted x" for x
  proof (cases "x \<in> set os")
    case True
    with more.IH that(2) obtain q where "load_decision t (do_decision_id x) = Some q" "dq_state q = ''approved''"
      by blast
    then show ?thesis by (rule kept)
  next
    case False
    with that(1) have "x \<in> set out" by simp
    with out that(2) show ?thesis by blast
  qed
  ultimately show ?case by blast
qed

definition sample_desk :: DecisionDesk where
  "sample_desk = snd (present_decision ''n1'' ''d1'' ''t/u/w'' ''plan_approval'' ''sd'' ''dd'' 0 600 None (new_desk 0))"

lemma decision_granted_once_witness:
  "\<exists>out t. record_response ''d1'' ''approve'' ''n1'' ''sd'' ''dd'' 0 [] sample_desk = (Inr out, t) \<and> do_granted out \<and>
     (\<exists>q. load_decision t ''d1'' = Some q \<and> dq_state q = ''approved'')"
proof -
  let ?call = "record_response ''d1'' ''approve'' ''n1'' ''sd'' ''dd'' 0 [] sample_desk"
  have eval: "case ?call of (Inr out, t) \<Rightarrow> do_granted out \<and> do_decision_id out = ''d1'' | _ \<Rightarrow> False"
    by code_simp
  then obtain out t where c: "?call = (Inr out, t)" "do_granted out" "do_decision_id out = ''d1''"
    by (auto split: prod.splits sum.splits)
  have "decision_trace sample_desk ([] @ [out]) t"
    by (rule decision_trace.more [OF decision_trace.start decision_event.answered [OF c(1)]])
  from decision_granted_once [OF this, of "''d1''"] c show ?thesis by auto
qed

text \<open>
  Two observations. The clock is not kept monotonic: a request that has run out is granted after the
  clock is set back. And publication asks for no changed source: an answered question, or failed work,
  may be published when the permit is there.
\<close>

lemma clock_set_back_grants:
  "let s = snd (set_clock 601 sample_desk); s' = snd (set_clock 600 s)
   in map_option (overdue (dk_now s)) (load_decision s ''d1'') = Some True \<and>
      (case record_response ''d1'' ''approve'' ''n1'' ''sd'' ''dd'' 0 [] s' of (Inr out, _) \<Rightarrow> do_granted out | _ \<Rightarrow> False)"
  by code_simp

lemma answered_may_publish:
  "case assess_completion outcome [] True True True False of
     Inl e \<Rightarrow> outcome \<notin> set OUTCOMES
   | Inr c \<Rightarrow> cd_may_publish c \<and> cd_may_apply c = (outcome = ''changed'')"
  by (auto simp: assess_completion_def raise_def)

end
