(* ===== verification/Review.thy ===== *)
theory Review
  imports PyObj
begin

text \<open>
  \<open>planning/review.py\<close>: independent plan review. A review round is a mutable object that the board and
  its caller share; the model names it by its position in the board's list of rounds.
\<close>

section \<open>The board\<close>

definition BLOCKING :: "string list" where
  "BLOCKING = [''critical'', ''high'']"

definition FINDING_STATES :: "string list" where
  "FINDING_STATES = [''open'', ''fixed_verified'', ''refuted_verified'', ''risk_accepted'']"

record ReviewerBinding =
  rb_reviewer_run_id :: string
  rb_author_run_id :: string
  rb_model_id :: string
  rb_author_model_id :: string
  rb_read_only :: bool
  rb_blind :: bool

record ReviewFinding =
  rf_finding_id :: string
  rf_subject_digest :: string
  rf_reviewer_run_id :: string
  rf_severity :: string
  rf_summary :: string
  rf_evidence_ids :: "string list"
  rf_requirement_refs :: "string list"
  rf_state :: string

record ReviewRecord =
  rv_subject_digest :: string
  rv_reviewer_run_id :: string
  rv_verdict :: string
  rv_findings :: "ReviewFinding list"
  rv_rounds :: int

record ReviewBoard =
  bd_max_rounds :: int
  bd_reviews :: "ReviewRecord list"
  bd_findings :: "(string, ReviewFinding) dict"

definition new_board :: "int \<Rightarrow> ReviewBoard" where
  "new_board max_rounds = \<lparr>bd_max_rounds = max_rounds, bd_reviews = [], bd_findings = []\<rparr>"

text \<open>The round is returned as its position.\<close>

definition request_review :: "string \<Rightarrow> ReviewerBinding \<Rightarrow> pymap \<Rightarrow> (ReviewBoard, nat) op" where
  "request_review subject_digest binding reviewer_input b =
     (if rb_reviewer_run_id binding = rb_author_run_id binding
      then (raise ''REVIEWER_NOT_INDEPENDENT'' ''reviewer run must differ from the author run'', b)
      else if \<not> rb_read_only binding then (raise ''REVIEWER_NOT_INDEPENDENT'' ''reviewer holds write grant'', b)
      else
        let leaked = sorted_set [key \<leftarrow> dict_keys reviewer_input.
              key \<in> {''author_verdict'', ''prior_verdict'', ''author_notes''}]
        in if rb_blind binding \<and> leaked \<noteq> []
           then (raise ''INPUT_INVALID'' (''blind review input carries '' @ repr_list leaked), b)
           else
             let record = \<lparr>rv_subject_digest = subject_digest, rv_reviewer_run_id = rb_reviewer_run_id binding,
                   rv_verdict = ''unverifiable'', rv_findings = [], rv_rounds = 1\<rparr>
             in (Ok (length (bd_reviews b)), b\<lparr>bd_reviews := bd_reviews b @ [record]\<rparr>))"

definition submit_finding :: "nat \<Rightarrow> ReviewFinding \<Rightarrow> (ReviewBoard, ReviewFinding) op" where
  "submit_finding i finding b =
     (let record = bd_reviews b ! i in
      if rf_subject_digest finding \<noteq> rv_subject_digest record
      then (raise ''STALE_REVIEW'' ''finding targets a different subject'', b)
      else if rf_severity finding \<in> set BLOCKING \<and> rf_evidence_ids finding = []
      then (raise ''INVALID_FINDING'' ''a blocking finding requires evidence ids'', b)
      else
        (Ok finding,
         b\<lparr>bd_findings := dict_set (rf_finding_id finding) finding (bd_findings b),
           bd_reviews := (bd_reviews b)[i := record\<lparr>rv_findings := rv_findings record @ [finding]\<rparr>]\<rparr>))"

definition resolve_finding ::
  "string \<Rightarrow> string \<Rightarrow> string \<Rightarrow> string \<Rightarrow> string list \<Rightarrow> bool \<Rightarrow> (ReviewBoard, ReviewFinding) op"
where
  "resolve_finding finding_id resolving_run_id decision new_subject_digest evidence_ids test_plan_changed b =
     (case dict_get (bd_findings b) finding_id of
        None \<Rightarrow> (Inl (PyError ''KeyError''), b)
      | Some finding \<Rightarrow>
          if resolving_run_id \<noteq> rf_reviewer_run_id finding
          then (raise ''AUTHORITY_DENIED'' ''only the finding reviewer or adjudicator resolves'', b)
          else if test_plan_changed
          then (raise ''TEST_PLAN_CHANGED'' ''the oracle changed; the fix is a new subject'', b)
          else if decision \<notin> set (removeAll ''open'' FINDING_STATES)
          then (raise ''INVALID_FINDING'' (''bad resolution '' @ py_repr decision), b)
          else if decision = ''fixed_verified'' \<and> evidence_ids = []
          then (raise ''INVALID_FINDING'' ''a fix needs verification evidence'', b)
          else if decision = ''refuted_verified'' \<and> evidence_ids = []
          then (raise ''INVALID_FINDING'' ''a rebuttal needs counter-evidence'', b)
          else
            let resolved = finding\<lparr>rf_state := decision, rf_subject_digest := new_subject_digest\<rparr>
            in (Ok resolved, b\<lparr>bd_findings := dict_set finding_id resolved (bd_findings b)\<rparr>))"

text \<open>\<open>[f for f in record.findings if self._findings[f.finding_id].state == "open" and ...]\<close>\<close>

fun open_blocking :: "(string, ReviewFinding) dict \<Rightarrow> ReviewFinding list \<Rightarrow> ReviewFinding list result" where
  "open_blocking findings [] = Ok []"
| "open_blocking findings (f # fs) =
     (case dict_get findings (rf_finding_id f) of
        None \<Rightarrow> Inl (PyError ''KeyError'')
      | Some stored \<Rightarrow>
          rbind (open_blocking findings fs) (\<lambda>rest.
            Ok (if rf_state stored = ''open'' \<and> rf_severity f \<in> set BLOCKING then f # rest else rest)))"

definition set_verdict :: "nat \<Rightarrow> string \<Rightarrow> ReviewBoard \<Rightarrow> ReviewBoard" where
  "set_verdict i verdict b = b\<lparr>bd_reviews := (bd_reviews b)[i := (bd_reviews b ! i)\<lparr>rv_verdict := verdict\<rparr>]\<rparr>"

definition finish_review :: "nat \<Rightarrow> bool \<Rightarrow> (ReviewBoard, string) op" where
  "finish_review i reviewer_ok b =
     (if \<not> reviewer_ok then (Ok ''unverifiable'', set_verdict i ''unverifiable'' b)
      else
        case open_blocking (bd_findings b) (rv_findings (bd_reviews b ! i)) of
          Inl e \<Rightarrow> (Inl e, b)
        | Inr blocking \<Rightarrow>
            if rv_rounds (bd_reviews b ! i) \<ge> bd_max_rounds b \<and> blocking \<noteq> []
            then (Ok ''deferred'', set_verdict i ''changes_required'' b)
            else if blocking \<noteq> [] then (Ok ''changes_required'', set_verdict i ''changes_required'' b)
            else (Ok ''reviewed'', set_verdict i ''approve'' b))"

definition is_reviewed :: "ReviewBoard \<Rightarrow> string \<Rightarrow> bool" where
  "is_reviewed b subject_digest =
     list_ex (\<lambda>r. rv_subject_digest r = subject_digest \<and> rv_verdict r = ''approve'') (bd_reviews b)"

definition require_reviewed :: "ReviewBoard \<Rightarrow> string \<Rightarrow> unit result" where
  "require_reviewed b subject_digest =
     (let rounds = [r \<leftarrow> bd_reviews b. rv_subject_digest r = subject_digest] in
      if rounds = [] then raise ''STALE_REVIEW'' ''no review binds this subject digest''
      else
        let latest = last rounds in
        rbind (open_blocking (bd_findings b) (rv_findings latest)) (\<lambda>blocking.
          if blocking \<noteq> []
          then raise ''REVIEW_FINDINGS_OPEN'' (''unresolved: '' @ repr_list (map rf_finding_id blocking))
          else if rv_verdict latest \<noteq> ''approve''
          then raise ''STALE_REVIEW'' (''latest verdict is '' @ rv_verdict latest)
          else Ok ()))"

section \<open>What a passed review means\<close>

text \<open>
  The calls on a board, with the bindings of the rounds it opened; a round passed to a call is one the
  board opened.
\<close>

inductive board_trace :: "ReviewBoard \<Rightarrow> (string \<times> ReviewerBinding) list \<Rightarrow> bool" where
  start: "board_trace (new_board k) []"
| requested: "board_trace b log \<Longrightarrow> request_review d binding inp b = (Inr i, c) \<Longrightarrow> board_trace c (log @ [(d, binding)])"
| refused: "board_trace b log \<Longrightarrow> request_review d binding inp b = (Inl e, c) \<Longrightarrow> board_trace c log"
| submitted: "board_trace b log \<Longrightarrow> i < length (bd_reviews b) \<Longrightarrow> submit_finding i f b = (r, c) \<Longrightarrow> board_trace c log"
| resolved: "board_trace b log \<Longrightarrow> resolve_finding f run dec d evs tpc b = (r, c) \<Longrightarrow> board_trace c log"
| finished: "board_trace b log \<Longrightarrow> i < length (bd_reviews b) \<Longrightarrow> finish_review i ok b = (r, c) \<Longrightarrow> board_trace c log"

definition independent :: "ReviewerBinding \<Rightarrow> bool" where
  "independent binding \<longleftrightarrow> rb_reviewer_run_id binding \<noteq> rb_author_run_id binding \<and> rb_read_only binding"

text \<open>
  Every round was opened by its own independent binding, and its findings are of its subject, recorded
  on the board, and substantiated where they block.
\<close>

definition round_ok :: "(string, ReviewFinding) dict \<Rightarrow> string \<times> ReviewerBinding \<Rightarrow> ReviewRecord \<Rightarrow> bool" where
  "round_ok findings opened r \<longleftrightarrow>
     rv_subject_digest r = fst opened \<and> rv_reviewer_run_id r = rb_reviewer_run_id (snd opened) \<and>
     independent (snd opened) \<and>
     list_all (\<lambda>f. rf_finding_id f \<in> set (dict_keys findings) \<and> rf_subject_digest f = rv_subject_digest r \<and>
       (rf_severity f \<in> set BLOCKING \<longrightarrow> rf_evidence_ids f \<noteq> [])) (rv_findings r)"

definition board_ok :: "ReviewBoard \<Rightarrow> (string \<times> ReviewerBinding) list \<Rightarrow> bool" where
  "board_ok b log \<longleftrightarrow> list_all2 (round_ok (bd_findings b)) log (bd_reviews b)"

lemma round_ok_mono:
  "round_ok fs opened r \<Longrightarrow> set (dict_keys fs) \<subseteq> set (dict_keys gs) \<Longrightarrow> round_ok gs opened r"
  unfolding round_ok_def by (elim conjE, intro conjI) (auto simp: list_all_iff simp del: set_map)

lemma board_ok_mono:
  "list_all2 (round_ok fs) log rs \<Longrightarrow> set (dict_keys fs) \<subseteq> set (dict_keys gs) \<Longrightarrow> list_all2 (round_ok gs) log rs"
  using list_all2_mono round_ok_mono by metis

lemma round_ok_verdict [simp]: "round_ok fs opened (r\<lparr>rv_verdict := v\<rparr>) \<longleftrightarrow> round_ok fs opened r"
  by (simp add: round_ok_def)

lemma board_ok_verdict: "board_ok b log \<Longrightarrow> i < length (bd_reviews b) \<Longrightarrow> board_ok (set_verdict i v b) log"
  unfolding board_ok_def set_verdict_def
  by (auto simp: list_all2_conv_all_nth nth_list_update)

lemma board_trace_ok: "board_trace b log \<Longrightarrow> board_ok b log"
proof (induction rule: board_trace.induct)
  case (start k)
  then show ?case by (simp add: board_ok_def new_board_def)
next
  case (requested b log d binding inp i c)
  then show ?case
    by (auto simp: request_review_def Let_def board_ok_def round_ok_def independent_def intro!: list_all2_appendI
        split: if_splits)
next
  case (refused b log d binding inp e c)
  then show ?case by (auto simp: request_review_def Let_def split: if_splits)
next
  case (submitted b log i f r c)
  let ?fs = "dict_set (rf_finding_id f) f (bd_findings b)"
  have keys: "set (dict_keys (bd_findings b)) \<subseteq> set (dict_keys ?fs)" unfolding set_dict_keys_set by blast
  have all: "list_all2 (round_ok ?fs) log (bd_reviews b)"
    using submitted.IH board_ok_mono [OF _ keys] by (simp add: board_ok_def)
  consider "c = b" | "rf_subject_digest f = rv_subject_digest (bd_reviews b ! i)"
      "rf_severity f \<in> set BLOCKING \<longrightarrow> rf_evidence_ids f \<noteq> []"
      "c = b\<lparr>bd_findings := ?fs, bd_reviews := (bd_reviews b)[i := (bd_reviews b ! i)\<lparr>rv_findings := rv_findings (bd_reviews b ! i) @ [f]\<rparr>]\<rparr>"
    using submitted.hyps(3) by (auto simp: submit_finding_def Let_def split: if_splits)
  then show ?case
  proof cases
    case 2
    have "round_ok ?fs (log ! i) (bd_reviews b ! i)" using all submitted.hyps(2) by (simp add: list_all2_conv_all_nth)
    then have "round_ok ?fs (log ! i) ((bd_reviews b ! i)\<lparr>rv_findings := rv_findings (bd_reviews b ! i) @ [f]\<rparr>)"
      using 2(1,2) unfolding round_ok_def set_dict_keys_set by (auto simp: list_all_iff)
    from list_all2_update_cong [OF all this, of i] 2(3) show ?thesis by (simp add: board_ok_def)
  qed (use submitted.IH in simp)
next
  case (resolved b log f run dec d evs tpc r c)
  have "c = b \<or> (\<exists>g. c = b\<lparr>bd_findings := dict_set f g (bd_findings b)\<rparr>)"
    using resolved.hyps(2) by (auto simp: resolve_finding_def Let_def split: if_splits option.splits)
  then show ?case
  proof
    assume "\<exists>g. c = b\<lparr>bd_findings := dict_set f g (bd_findings b)\<rparr>"
    then obtain g where c: "c = b\<lparr>bd_findings := dict_set f g (bd_findings b)\<rparr>" ..
    have "set (dict_keys (bd_findings b)) \<subseteq> set (dict_keys (dict_set f g (bd_findings b)))"
      unfolding set_dict_keys_set by blast
    from board_ok_mono [OF _ this] resolved.IH c show ?thesis by (simp add: board_ok_def)
  qed (use resolved.IH in simp)
next
  case (finished b log i ok r c)
  have "c = b \<or> (\<exists>v. c = set_verdict i v b)"
    using finished.hyps(3) by (auto simp: finish_review_def split: if_splits sum.splits)
  with finished.IH finished.hyps(2) board_ok_verdict show ?case by blast
qed

lemma round_okD:
  assumes "round_ok fs opened r"
  shows "rv_subject_digest r = fst opened" "rv_reviewer_run_id r = rb_reviewer_run_id (snd opened)"
    "independent (snd opened)"
    "f \<in> set (rv_findings r) \<Longrightarrow> rf_subject_digest f = fst opened \<and> (rf_severity f \<in> set BLOCKING \<longrightarrow> rf_evidence_ids f \<noteq> [])"
  using assms by (auto simp: round_ok_def list_all_iff)

lemma board_round:
  assumes "board_trace b log" "r \<in> set (bd_reviews b)"
  shows "\<exists>opened \<in> set log. round_ok (bd_findings b) opened r"
proof -
  have "list_all2 P xs ys \<Longrightarrow> y \<in> set ys \<Longrightarrow> \<exists>x \<in> set xs. P x y" for P :: "string \<times> ReviewerBinding \<Rightarrow> ReviewRecord \<Rightarrow> bool" and xs ys y
    by (induction rule: list_all2_induct) auto
  from this [OF _ assms(2)] show ?thesis using board_trace_ok [OF assms(1)] unfolding board_ok_def by blast
qed

lemma open_blocking_total:
  "list_all (\<lambda>f. rf_finding_id f \<in> set (dict_keys fs)) rs \<Longrightarrow>
     open_blocking fs rs = Inr [f \<leftarrow> rs. map_option rf_state (dict_get fs (rf_finding_id f)) = Some ''open'' \<and>
       rf_severity f \<in> set BLOCKING]"
proof (induction rs)
  case (Cons f rs)
  then have "rf_finding_id f \<in> set (dict_keys fs)" by (simp del: set_map)
  then obtain g where "dict_get fs (rf_finding_id f) = Some g" by (metis dict_get_None_iff option.exhaust)
  with Cons show ?case by simp
qed simp

lemma board_reads_total:
  assumes "board_trace b log" "r \<in> set (bd_reviews b)"
  shows "open_blocking (bd_findings b) (rv_findings r) = Inr [f \<leftarrow> rv_findings r.
    map_option rf_state (dict_get (bd_findings b) (rf_finding_id f)) = Some ''open'' \<and> rf_severity f \<in> set BLOCKING]"
proof (rule open_blocking_total)
  from board_round [OF assms] obtain opened where "round_ok (bd_findings b) opened r" by blast
  then show "list_all (\<lambda>f. rf_finding_id f \<in> set (dict_keys (bd_findings b))) (rv_findings r)"
    unfolding round_ok_def by (simp add: list_all_iff)
qed

text \<open>
  A subject passes the review gate only by an independent review of itself: on every board the
  calls can produce, the gate either refuses with its typed error or the latest round of the subject was
  opened under a binding for that very digest whose reviewer run is not the author's and is read-only, its
  verdict is \<open>approve\<close>, its findings target that digest, and none of its blocking findings, all backed by
  evidence, is open.
\<close>

theorem review_gate:
  assumes "board_trace b log"
  shows "case require_reviewed b d of
      Inl e \<Rightarrow> fails_with ''STALE_REVIEW'' (Inl e :: unit result) \<or> fails_with ''REVIEW_FINDINGS_OPEN'' (Inl e :: unit result)
    | Inr u \<Rightarrow> is_reviewed b d \<and>
        (\<exists>r binding. r = last [r \<leftarrow> bd_reviews b. rv_subject_digest r = d] \<and> r \<in> set (bd_reviews b) \<and>
           (d, binding) \<in> set log \<and> independent binding \<and> rv_reviewer_run_id r = rb_reviewer_run_id binding \<and>
           rv_verdict r = ''approve'' \<and>
           (\<forall>f \<in> set (rv_findings r). rf_subject_digest f = d \<and> (rf_severity f \<in> set BLOCKING \<longrightarrow>
              rf_evidence_ids f \<noteq> [] \<and> map_option rf_state (dict_get (bd_findings b) (rf_finding_id f)) \<noteq> Some ''open'')))"
proof (cases "[r \<leftarrow> bd_reviews b. rv_subject_digest r = d] = []")
  case True
  then show ?thesis by (simp add: require_reviewed_def raise_def)
next
  case False
  let ?r = "last [r \<leftarrow> bd_reviews b. rv_subject_digest r = d]"
  have "?r \<in> set [r \<leftarrow> bd_reviews b. rv_subject_digest r = d]" using False by (rule last_in_set)
  then have r: "?r \<in> set (bd_reviews b)" "rv_subject_digest ?r = d" by simp_all
  from board_round [OF assms r(1)] obtain opened where o: "opened \<in> set log" "round_ok (bd_findings b) opened ?r" ..
  have d: "fst opened = d" using round_okD(1) [OF o(2)] r(2) by simp
  have ok: "(d, snd opened) \<in> set log" using o(1) d by (metis prod.collapse)
  note ok = ok round_okD(3,2) [OF o(2)] round_okD(4) [OF o(2), unfolded d]
  let ?open = "[f \<leftarrow> rv_findings ?r. map_option rf_state (dict_get (bd_findings b) (rf_finding_id f)) = Some ''open'' \<and>
    rf_severity f \<in> set BLOCKING]"
  have gate: "require_reviewed b d = (if ?open \<noteq> [] then raise ''REVIEW_FINDINGS_OPEN'' (''unresolved: '' @ repr_list (map rf_finding_id ?open))
      else if rv_verdict ?r \<noteq> ''approve'' then raise ''STALE_REVIEW'' (''latest verdict is '' @ rv_verdict ?r) else Ok ())"
    using False board_reads_total [OF assms r(1)] by (simp add: require_reviewed_def Let_def)
  show ?thesis
  proof (cases "?open = [] \<and> rv_verdict ?r = ''approve''")
    case True
    then have none: "\<forall>f \<in> set (rv_findings ?r). rf_severity f \<in> set BLOCKING \<longrightarrow>
        map_option rf_state (dict_get (bd_findings b) (rf_finding_id f)) \<noteq> Some ''open''"
      by (auto simp: filter_empty_conv)
    have "is_reviewed b d" using r True by (auto simp: is_reviewed_def list_ex_iff)
    moreover have "require_reviewed b d = Inr ()" using gate True by simp
    ultimately show ?thesis using True none ok r(1) by (auto intro!: exI [of _ "snd opened"])
  next
    case False
    with gate show ?thesis by (auto simp: raise_def split del: if_split split: if_splits)
  qed
qed

definition sample_finding :: "string \<Rightarrow> string \<Rightarrow> string \<Rightarrow> ReviewFinding" where
  "sample_finding run severity state =
     \<lparr>rf_finding_id = ''f1'', rf_subject_digest = ''sd'', rf_reviewer_run_id = run, rf_severity = severity,
      rf_summary = ''s'', rf_evidence_ids = [''e1''], rf_requirement_refs = [], rf_state = state\<rparr>"

definition sample_binding :: ReviewerBinding where
  "sample_binding = \<lparr>rb_reviewer_run_id = ''rev'', rb_author_run_id = ''author'', rb_model_id = ''m'',
     rb_author_model_id = ''m'', rb_read_only = True, rb_blind = True\<rparr>"

definition sample_board :: ReviewBoard where
  "sample_board = snd (finish_review 0 True (snd (resolve_finding ''f1'' ''rev'' ''fixed_verified'' ''sd'' [''e2''] False
     (snd (submit_finding 0 (sample_finding ''rev'' ''critical'' ''open'')
       (snd (request_review ''sd'' sample_binding [] (new_board 3))))))))"

lemma review_gate_witness:
  "require_reviewed sample_board ''sd'' = Inr () \<and>
   (\<exists>binding. independent binding \<and> rb_reviewer_run_id binding = rv_reviewer_run_id (hd (bd_reviews sample_board)))"
proof -
  have req: "request_review ''sd'' sample_binding [] (new_board 3) =
      (Inr 0, snd (request_review ''sd'' sample_binding [] (new_board 3)))" by code_simp
  let ?b1 = "snd (request_review ''sd'' sample_binding [] (new_board 3))"
  let ?b2 = "snd (submit_finding 0 (sample_finding ''rev'' ''critical'' ''open'') ?b1)"
  let ?b3 = "snd (resolve_finding ''f1'' ''rev'' ''fixed_verified'' ''sd'' [''e2''] False ?b2)"
  have len: "0 < length (bd_reviews ?b1)" "0 < length (bd_reviews ?b3)" by code_simp+
  have "board_trace ?b1 [(''sd'', sample_binding)]" using board_trace.requested [OF board_trace.start req] by simp
  then have "board_trace ?b2 [(''sd'', sample_binding)]"
    by (rule board_trace.submitted [OF _ len(1) prod.collapse [symmetric]])
  then have "board_trace ?b3 [(''sd'', sample_binding)]"
    by (rule board_trace.resolved [OF _ prod.collapse [symmetric]])
  then have trace: "board_trace sample_board [(''sd'', sample_binding)]"
    unfolding sample_board_def by (rule board_trace.finished [OF _ len(2) prod.collapse [symmetric]])
  have eval: "require_reviewed sample_board ''sd'' = Inr ()" "length (bd_reviews sample_board) = 1"
    "map rv_subject_digest (bd_reviews sample_board) = [''sd'']"
    by code_simp+
  then obtain r where "bd_reviews sample_board = [r]" "rv_subject_digest r = ''sd''"
    by (cases "bd_reviews sample_board") auto
  with review_gate [OF trace, of "''sd''"] eval(1) show ?thesis by auto
qed

text \<open>
  Three gaps. A finding is stored under its id whoever submits it and with the state it comes with: an
  open critical finding is cleared by submitting another one with its id, marked resolved, by any run. The
  round number is never advanced, so with a limit above one the outcome \<open>deferred\<close> does not occur. And
  \<open>is_reviewed\<close> looks at any round of the digest, \<open>require_reviewed\<close> at the latest only.
\<close>

lemma resubmitted_finding_clears_blocker:
  "let b = snd (submit_finding 0 (sample_finding ''rev'' ''critical'' ''open'')
             (snd (request_review ''sd'' sample_binding [] (new_board 3))));
       c = snd (submit_finding 0 (sample_finding ''author'' ''low'' ''fixed_verified'') b)
   in fst (finish_review 0 True b) = Inr ''changes_required'' \<and> fst (finish_review 0 True c) = Inr ''reviewed'' \<and>
      require_reviewed (snd (finish_review 0 True c)) ''sd'' = Inr ()"
  by code_simp

lemma rounds_stay_one:
  assumes "board_trace b log" "r \<in> set (bd_reviews b)"
  shows "rv_rounds r = 1"
  using assms
proof (induction arbitrary: r rule: board_trace.induct)
  case (requested b log d binding inp i c)
  then show ?case by (auto simp: request_review_def Let_def split: if_splits)
next
  case (submitted b log i f r c)
  then show ?case by (auto simp: submit_finding_def Let_def split: if_splits dest!: set_update_subset_insert [THEN subsetD])
next
  case (finished b log i ok r c)
  then show ?case
    by (auto simp: finish_review_def set_verdict_def split: if_splits sum.splits dest!: set_update_subset_insert [THEN subsetD])
qed (auto simp: new_board_def request_review_def resolve_finding_def Let_def split: if_splits option.splits)

lemma reviewed_but_refused:
  "let b = snd (request_review ''sd'' sample_binding [] sample_board)
   in is_reviewed b ''sd'' \<and> fails_with ''STALE_REVIEW'' (require_reviewed b ''sd'')"
  by code_simp

end
