(* ===== verification/WorkflowCompiler.thy ===== *)
theory WorkflowCompiler
  imports PlanSubject Layers
begin

text \<open>
  \<open>workflow/plan.py\<close> (ordering the units of a plan) and \<open>workflow/compiler.py\<close> (the restricted workflow
  IR: typed conditions, compilation to a topological order and a digest, expansion).
\<close>

section \<open>Ordering a plan\<close>

record WorkUnit =
  wk_unit_id :: string
  wk_dependencies :: "string list"
  wk_requirement_ids :: "string list"
  wk_acceptance_ids :: "string list"
  wk_write_paths :: "string list"

definition unit_dependencies :: "WorkUnit list \<Rightarrow> (string, string list) dict" where
  "unit_dependencies units = map (\<lambda>(k, u). (k, wk_dependencies u)) (index_by wk_unit_id units)"

lemma rest_shrinks [simp]: "length a < n \<Longrightarrow> r \<noteq> [] \<Longrightarrow> n - (length a + length r) < n - length a"
  by (cases r) auto

text \<open>\<open>while len(result) < len(units)\<close>\<close>

function order_loop :: "(string, string list) dict \<Rightarrow> nat \<Rightarrow> string list \<Rightarrow> string list result" where
  "order_loop deps n result =
     (if length result < n then
        let ready = ready_keys deps result in
        if ready = [] then raise ''PLAN_CYCLE'' ''work dependency graph is cyclic''
        else order_loop deps n (result @ ready)
      else Ok result)"
  by pat_completeness auto
termination
  by (relation "measure (\<lambda>(deps, n, result). n - length result)") auto

declare order_loop.simps [simp del]

definition order_check :: "(string, string list) dict \<Rightarrow> WorkUnit \<Rightarrow> unit result" where
  "order_check deps u =
     (if wk_requirement_ids u = [] \<or> wk_acceptance_ids u = [] then raise ''UNTRACEABLE_WORK'' (wk_unit_id u)
      else if \<not> subset_list (wk_dependencies u) (dict_keys deps) then raise ''MISSING_DEPENDENCY'' (wk_unit_id u)
      else Ok ())"

definition order_plan :: "WorkUnit list \<Rightarrow> string list result" where
  "order_plan units =
     (let deps = unit_dependencies units in
      if length deps \<noteq> length units then raise ''DUPLICATE_WORK_UNIT'' ''work ids must be unique''
      else rbind (for_each (order_check deps) units) (\<lambda>_. order_loop deps (length units) []))"

section \<open>Workflow nodes\<close>

definition NODE_KINDS :: "string list" where
  "NODE_KINDS = [''read'', ''agent_task'', ''verify'', ''human_decision'', ''join'', ''apply_candidate'']"

definition CONDITION_OPS :: "string list" where
  "CONDITION_OPS = [''eq'', ''ne'', ''and'', ''or'', ''not'']"

definition MAX_DEPTH :: nat where "MAX_DEPTH = 32"
definition MAX_NODES :: nat where "MAX_NODES = 256"

text \<open>A missing condition (\<open>None\<close>) is \<^const>\<open>PNone\<close>.\<close>

record WorkflowNode =
  wn_node_id :: string
  wn_kind :: string
  wn_dependencies :: "string list"
  wn_requirement_ids :: "string list"
  wn_acceptance_ids :: "string list"
  wn_condition :: pyobj
  wn_scope_ref :: "string option"
  wn_resource_claims :: "string list"
  wn_retry_class :: string
  wn_max_attempts :: int
  wn_cost_cap :: "int option"
  wn_recipe_id :: "string option"
  wn_compensation_ref :: "string option"

record CompiledWorkflow =
  cw_workflow_digest :: string
  cw_revision :: int
  cw_nodes :: "WorkflowNode list"
  cw_order :: "string list"
  cw_budget_total :: int

section \<open>Conditions\<close>

definition py_scalar :: "pyobj \<Rightarrow> bool" where
  "py_scalar v = (case v of PNone \<Rightarrow> True | PBool b \<Rightarrow> True | PInt i \<Rightarrow> True | PFloat r \<Rightarrow> True | PStr s \<Rightarrow> True | _ \<Rightarrow> False)"

text \<open>\<open>expr.get(key)\<close>\<close>

definition dict_field :: "(pykey \<times> pyobj) list \<Rightarrow> string \<Rightarrow> pyobj" where
  "dict_field kvs k = (case map_of kvs (KStr k) of None \<Rightarrow> PNone | Some v \<Rightarrow> v)"

text \<open>\<open>op in CONDITION_OPS\<close> hashes \<open>op\<close>: lists and mappings raise \<open>TypeError\<close>.\<close>

fun py_hashable :: "pyobj \<Rightarrow> bool" where
  "py_hashable (PList xs) = False"
| "py_hashable (PDict kvs) = False"
| "py_hashable (PTuple xs) = list_all py_hashable xs"
| "py_hashable v = True"

lemma dict_field_size: "dict_field kvs k = PList xs \<Longrightarrow> size_list size xs < size_list (size_prod (\<lambda>_. 0) size) kvs"
proof -
  assume "dict_field kvs k = PList xs"
  then have "(KStr k, PList xs) \<in> set kvs" by (auto simp: dict_field_def split: option.splits dest: map_of_SomeD)
  from pair_size_less [OF this] show ?thesis by simp
qed

function walk_condition :: "string list \<Rightarrow> pyobj \<Rightarrow> bool \<Rightarrow> unit result"
  and walk_args :: "pyobj list \<Rightarrow> string list \<Rightarrow> unit result"
where
  "walk_condition settled expr outermost =
     (if py_scalar expr then
        if outermost then raise ''INPUT_INVALID'' ''a condition is a typed AST node, not a scalar'' else Ok ()
      else
        case expr of
          PDict kvs \<Rightarrow>
            (let op = dict_field kvs ''op'' in
             if op = PStr ''field'' then
               (case (dict_field kvs ''node'', dict_field kvs ''name'') of
                  (PStr ref, PStr name) \<Rightarrow>
                    if ref \<notin> set settled
                    then raise ''INPUT_INVALID'' (''field ref must name a settled ancestor: '' @ py_repr_obj expr)
                    else Ok ()
                | _ \<Rightarrow> raise ''INPUT_INVALID'' (''field ref must name a settled ancestor: '' @ py_repr_obj expr))
             else if op = PStr ''literal'' then
               (if \<not> py_scalar (dict_field kvs ''value'') then raise ''INPUT_INVALID'' ''literal must be a scalar'' else Ok ())
             else if \<not> py_hashable op then Inl (PyError ''TypeError'')
             else if op \<in> PStr ` set CONDITION_OPS then
               (case dict_field kvs ''args'' of
                  PList args \<Rightarrow>
                    if args = [] then raise ''INPUT_INVALID'' (py_str op @ '' needs args'')
                    else if op = PStr ''not'' \<and> length args \<noteq> 1 then raise ''INPUT_INVALID'' ''not takes one arg''
                    else if op \<in> {PStr ''eq'', PStr ''ne''} \<and> length args \<noteq> 2
                    then raise ''INPUT_INVALID'' (py_str op @ '' takes two args'')
                    else walk_args args settled
                | _ \<Rightarrow> raise ''INPUT_INVALID'' (py_str op @ '' needs args''))
             else raise ''INPUT_INVALID'' (''condition op '' @ py_repr_obj op @ '' is not allowed''))
        | _ \<Rightarrow> raise ''INPUT_INVALID'' ''condition not an AST'')"
| "walk_args [] settled = Ok ()"
| "walk_args (arg # args) settled = rbind (walk_condition settled arg False) (\<lambda>_. walk_args args settled)"
  by pat_completeness auto
termination
  by (relation "measure (\<lambda>x. case x of Inl (s, e, t) \<Rightarrow> 2 * size e | Inr (es, s) \<Rightarrow> 2 * size_list size es + 1)")
    (auto dest!: dict_field_size)

declare walk_condition.simps [simp del]

definition validate_condition :: "WorkflowNode \<Rightarrow> string list \<Rightarrow> unit result" where
  "validate_condition node settled = walk_condition settled (wn_condition node) True"

section \<open>Compilation\<close>

definition node_checks :: "string list option \<Rightarrow> WorkflowNode \<Rightarrow> unit result" where
  "node_checks known_requirements node =
     (if wn_kind node \<notin> set NODE_KINDS then raise ''INPUT_INVALID'' (''unknown node kind '' @ py_repr (wn_kind node))
      else if wn_max_attempts node < 1 then raise ''INPUT_INVALID'' (wn_node_id node @ '' max_attempts < 1'')
      else if wn_kind node \<in> {''agent_task'', ''verify'', ''apply_candidate''} \<and> wn_cost_cap node = None
      then raise ''BUDGET_UNBOUND'' (wn_node_id node @ '' has no cost cap'')
      else
        case known_requirements of
          None \<Rightarrow> Ok ()
        | Some known \<Rightarrow>
            let unbound = sorted_set (minus_list (wn_requirement_ids node) known) in
            if unbound \<noteq> [] then raise ''UNBOUND_REQUIREMENT'' (wn_node_id node @ '' binds unknown '' @ repr_list unbound)
            else Ok ())"

fun index_nodes ::
  "string list option \<Rightarrow> WorkflowNode list \<Rightarrow> (string, WorkflowNode) dict \<Rightarrow> (string, WorkflowNode) dict result"
where
  "index_nodes known_requirements [] by_id = Ok by_id"
| "index_nodes known_requirements (node # nodes) by_id =
     (if wn_node_id node \<in> set (dict_keys by_id)
      then raise ''INPUT_INVALID'' (''duplicate node '' @ py_repr (wn_node_id node))
      else rbind (node_checks known_requirements node) (\<lambda>_.
        index_nodes known_requirements nodes (dict_set (wn_node_id node) node by_id)))"

definition node_dependencies :: "(string, WorkflowNode) dict \<Rightarrow> (string, string list) dict" where
  "node_dependencies by_id = map (\<lambda>(k, n). (k, wn_dependencies n)) by_id"

text \<open>The body of \<open>for nid in ready\<close>; what is settled is what is ordered so far.\<close>

definition settle_node ::
  "(string, WorkflowNode) dict \<Rightarrow> string list option \<Rightarrow> string \<Rightarrow> string list \<Rightarrow> string list result"
where
  "settle_node by_id known_recipes nid order =
     (case dict_get by_id nid of
        None \<Rightarrow> Inl (PyError ''KeyError'')
      | Some node \<Rightarrow>
          let missing = sorted_set (minus_list (wn_dependencies node) (dict_keys by_id)) in
          if missing \<noteq> [] \<or> nid \<in> set (wn_dependencies node)
          then raise ''DAG_CYCLE'' (nid @ '' depends on '' @ (if missing \<noteq> [] then repr_list missing else ''itself''))
          else rbind (if wn_condition node \<noteq> PNone then validate_condition node order else Ok ()) (\<lambda>_.
            if (case (wn_recipe_id node, known_recipes) of
                  (Some r, Some known) \<Rightarrow> r \<notin> set known | _ \<Rightarrow> False)
            then raise ''CAPABILITY_UNAVAILABLE'' (''unregistered recipe '' @ py_repr (the (wn_recipe_id node)))
            else Ok (order @ [nid])))"

fun settle_layer ::
  "(string, WorkflowNode) dict \<Rightarrow> string list option \<Rightarrow> string list \<Rightarrow> string list \<Rightarrow> string list result"
where
  "settle_layer by_id known_recipes [] order = Ok order"
| "settle_layer by_id known_recipes (nid # nids) order =
     rbind (settle_node by_id known_recipes nid order) (settle_layer by_id known_recipes nids)"

lemma settle_node_extends: "settle_node by_id known nid order = Inr order' \<Longrightarrow> order' = order @ [nid]"
  by (auto simp: settle_node_def Let_def rbind_eq_Ok_iff split: option.splits if_splits)

lemma settle_layer_extends: "settle_layer by_id known nids order = Inr order' \<Longrightarrow> order' = order @ nids"
  by (induction nids arbitrary: order) (fastforce simp: rbind_eq_Ok_iff dest!: settle_node_extends)+

function compile_loop ::
  "(string, WorkflowNode) dict \<Rightarrow> nat \<Rightarrow> string list option \<Rightarrow> nat \<Rightarrow> string list \<Rightarrow> string list result"
where
  "compile_loop by_id n known_recipes depth order =
     (if length order < n then
        let ready = ready_keys (node_dependencies by_id) order in
        if ready = [] then
          raise ''DAG_CYCLE'' (''unresolvable dependencies: '' @ repr_list (sorted_set (minus_list (dict_keys by_id) order)))
        else if depth + 1 > MAX_DEPTH then raise ''DAG_CYCLE'' ''dependency depth exceeded''
        else
          case settle_layer by_id known_recipes ready order of
            Inl e \<Rightarrow> Inl e
          | Inr order' \<Rightarrow> compile_loop by_id n known_recipes (depth + 1) order'
      else Ok order)"
  by pat_completeness auto
termination
  by (relation "measure (\<lambda>(by_id, n, known, depth, order). n - length order)")
    (auto dest!: settle_layer_extends)

declare compile_loop.simps [simp del]

definition node_keys :: "string list" where
  "node_keys = [''id'', ''kind'', ''deps'', ''req'', ''acc'', ''cond'', ''scope'', ''res'', ''cap'', ''recipe'']"

definition node_values :: "WorkflowNode \<Rightarrow> pyobj list" where
  "node_values n = [PStr (wn_node_id n), PStr (wn_kind n), strs (sort (wn_dependencies n)),
     strs (sort (wn_requirement_ids n)), strs (sort (wn_acceptance_ids n)), wn_condition n, opt_str (wn_scope_ref n),
     strs (sort (wn_resource_claims n)), opt_int (wn_cost_cap n), opt_str (wn_recipe_id n)]"

definition workflow_projection :: "int \<Rightarrow> WorkflowNode list \<Rightarrow> pyobj" where
  "workflow_projection revision nodes =
     obj_dict [(''revision'', PInt revision),
       (''nodes'', PList (map (\<lambda>n. obj_dict (zip node_keys (node_values n))) (sort_key wn_node_id nodes)))]"

definition node_cost :: "WorkflowNode \<Rightarrow> int" where
  "node_cost n = (case wn_cost_cap n of None \<Rightarrow> 0 | Some c \<Rightarrow> c)"

definition compile_workflow ::
  "hash_env \<Rightarrow> WorkflowNode list \<Rightarrow> int \<Rightarrow> string list option \<Rightarrow> string list option \<Rightarrow> CompiledWorkflow result"
where
  "compile_workflow H nodes revision known_recipes known_requirements =
     (if length nodes > MAX_NODES then raise ''INPUT_INVALID'' ''too many nodes''
      else
        rbind (index_nodes known_requirements nodes []) (\<lambda>by_id.
        rbind (compile_loop by_id (length nodes) known_recipes 0 []) (\<lambda>order.
        rbind (digest H (workflow_projection revision nodes)) (\<lambda>workflow_digest.
          Ok \<lparr>cw_workflow_digest = workflow_digest, cw_revision = revision, cw_nodes = nodes, cw_order = order,
              cw_budget_total = sum_list (map node_cost nodes)\<rparr>))))"

fun merge_nodes :: "WorkflowNode list \<Rightarrow> (string, WorkflowNode) dict \<Rightarrow> (string, WorkflowNode) dict result" where
  "merge_nodes [] merged = Ok merged"
| "merge_nodes (node # additions) merged =
     (if wn_node_id node \<in> set (dict_keys merged)
      then raise ''IDEMPOTENCY_CONFLICT'' (''expansion may not redefine '' @ py_repr (wn_node_id node))
      else merge_nodes additions (dict_set (wn_node_id node) node merged))"

definition propose_expansion ::
  "hash_env \<Rightarrow> CompiledWorkflow \<Rightarrow> WorkflowNode list \<Rightarrow> int \<Rightarrow> int \<Rightarrow> CompiledWorkflow result"
where
  "propose_expansion H base additions policy_max_nodes policy_max_cost =
     rbind (merge_nodes additions (index_by wn_node_id (cw_nodes base))) (\<lambda>merged.
       if int (length merged) > policy_max_nodes then raise ''INPUT_INVALID'' ''expansion exceeds node cap''
       else if sum_list (map (node_cost \<circ> snd) merged) > policy_max_cost
       then raise ''BUDGET_UNBOUND'' ''expansion exceeds the cost policy''
       else compile_workflow H (map snd merged) (cw_revision base + 1) None None)"

definition units_to_nodes :: "WorkUnitSpec list \<Rightarrow> WorkflowNode list" where
  "units_to_nodes units = map (\<lambda>u.
     \<lparr>wn_node_id = wu_unit_id u, wn_kind = ''agent_task'', wn_dependencies = wu_dependencies u,
      wn_requirement_ids = wu_requirement_ids u, wn_acceptance_ids = wu_acceptance_ids u, wn_condition = PNone,
      wn_scope_ref = None, wn_resource_claims = wu_write_paths u, wn_retry_class = ''none'', wn_max_attempts = 1,
      wn_cost_cap = wu_cost_cap u, wn_recipe_id = wu_test_recipe u, wn_compensation_ref = None\<rparr>) units"

section \<open>A plan is ordered exactly when it can be\<close>

lemma settles_full:
  assumes "dict_wf t" "settles t ks" "length t \<le> length ks"
  shows "set ks = set (dict_keys t)"
proof (rule card_subset_eq)
  show "set ks \<subseteq> set (dict_keys t)" using assms(2) by (simp add: settles_def)
  moreover have "card (set ks) = length ks" using assms(2) by (simp add: settles_def distinct_card)
  moreover have "card (set (dict_keys t)) = length t" using distinct_card [OF assms(1)] by simp
  moreover have "card (set ks) \<le> card (set (dict_keys t))" using calculation(1) by (intro card_mono) auto
  ultimately show "card (set ks) = card (set (dict_keys t))" using assms(3) by simp
qed simp

lemma order_loop_exact:
  "dict_wf t \<Longrightarrow> dep_rel t `` UNIV \<subseteq> set (dict_keys t) \<Longrightarrow> settles t ks \<Longrightarrow>
    (if acyclic (dep_rel t) then \<exists>ord. order_loop t (length t) ks = Inr ord \<and> settles t ord \<and> set ord = set (dict_keys t)
     else order_loop t (length t) ks = raise ''PLAN_CYCLE'' ''work dependency graph is cyclic'')"
proof (induction t "length t" ks rule: order_loop.induct)
  case (1 deps result)
  show ?case
  proof (cases "length result < length deps")
    case False
    with settles_full [OF "1.prems"(1,3)] have full: "set result = set (dict_keys deps)" by simp
    moreover have "acyclic (dep_rel deps)" using settles_acyclic "1.prems" full by blast
    moreover have "order_loop deps (length deps) result = Inr result" using False by (subst order_loop.simps) simp
    ultimately show ?thesis using "1.prems" by simp
  next
    case True
    show ?thesis
    proof (cases "ready_keys deps result = []")
      case stuck: True
      have "card (set result) = length result" using "1.prems"(3) by (simp add: settles_def distinct_card)
      moreover have "card (set (dict_keys deps)) = length deps" using distinct_card [OF "1.prems"(1)] by simp
      ultimately have "\<not> set (dict_keys deps) \<subseteq> set result"
        using True card_mono [of "set result" "set (dict_keys deps)"] by auto
      with stuck stuck_cyclic "1.prems"(1,2) have "\<not> acyclic (dep_rel deps)" by blast
      with True stuck show ?thesis by (subst order_loop.simps) simp
    next
      case more: False
      have "settles deps (result @ ready_keys deps result)"
        using "1.prems" ready_keys_distinct by (intro settles_layer) auto
      moreover have "order_loop deps (length deps) result = order_loop deps (length deps) (result @ ready_keys deps result)"
        using True more by (subst order_loop.simps) (simp add: Let_def)
      ultimately show ?thesis using "1.hyps" [OF True refl more] "1.prems"(1,2) by (simp del: set_map)
    qed
  qed
qed

lemma unit_dependencies_wf: "dict_wf (unit_dependencies units)"
proof -
  have "map fst (unit_dependencies units) = dict_keys (index_by wk_unit_id units)"
    by (simp add: unit_dependencies_def comp_def case_prod_unfold)
  then show ?thesis by (simp only: index_by_wf)
qed

text \<open>What a plan needs to be ordered, stated over its units.\<close>

definition plan_orderable :: "WorkUnit list \<Rightarrow> bool" where
  "plan_orderable units \<longleftrightarrow> distinct (map wk_unit_id units) \<and>
     list_all (\<lambda>u. wk_requirement_ids u \<noteq> [] \<and> wk_acceptance_ids u \<noteq> [] \<and>
       set (wk_dependencies u) \<subseteq> wk_unit_id ` set units) units \<and>
     acyclic {(wk_unit_id u, d) |u d. u \<in> set units \<and> d \<in> set (wk_dependencies u)}"

lemma unit_dependencies_distinct:
  "distinct (map wk_unit_id units) \<Longrightarrow> unit_dependencies units = map (\<lambda>u. (wk_unit_id u, wk_dependencies u)) units"
  by (simp add: unit_dependencies_def index_by_distinct_id)

lemma length_unit_dependencies: "length (unit_dependencies units) = length units \<longleftrightarrow> distinct (map wk_unit_id units)"
  by (simp add: unit_dependencies_def length_index_by_iff)

lemma order_checks: "for_each (order_check t) units = Inr () \<longleftrightarrow>
    list_all (\<lambda>u. wk_requirement_ids u \<noteq> [] \<and> wk_acceptance_ids u \<noteq> [] \<and>
      set (wk_dependencies u) \<subseteq> set (dict_keys t)) units"
  by (auto simp: for_each_Ok_iff order_check_def list_all_iff simp del: set_map split: if_splits)

lemma order_plan_cases:
  "case order_plan units of
     Inl e \<Rightarrow> \<not> plan_orderable units
   | Inr ord \<Rightarrow> plan_orderable units \<and> settles (unit_dependencies units) ord \<and> set ord = wk_unit_id ` set units"
proof (cases "distinct (map wk_unit_id units)")
  case False
  then show ?thesis
    using length_unit_dependencies [of units] by (auto simp: order_plan_def plan_orderable_def raise_def)
next
  case dist: True
  define t where "t = unit_dependencies units"
  have t: "t = map (\<lambda>u. (wk_unit_id u, wk_dependencies u)) units"
    using unit_dependencies_distinct [OF dist] by (simp add: t_def)
  then have len: "length t = length units" by simp
  have rel: "dep_rel t = {(wk_unit_id u, d) |u d. u \<in> set units \<and> d \<in> set (wk_dependencies u)}"
    by (auto simp: dep_rel_def t)
  have keys: "set (dict_keys t) = wk_unit_id ` set units" by (simp add: t comp_def)
  show ?thesis
  proof (cases "for_each (order_check t) units")
    case (Inl e)
    then have "for_each (order_check t) units \<noteq> Inr ()" by simp
    then have "\<not> plan_orderable units" unfolding order_checks keys plan_orderable_def by blast
    with Inl show ?thesis using len by (simp add: order_plan_def t_def [symmetric])
  next
    case (Inr u)
    then have ok: "list_all (\<lambda>u. wk_requirement_ids u \<noteq> [] \<and> wk_acceptance_ids u \<noteq> [] \<and>
      set (wk_dependencies u) \<subseteq> wk_unit_id ` set units) units" using order_checks [of t units] keys by simp
    then have "dep_rel t `` UNIV \<subseteq> set (dict_keys t)" unfolding rel keys by (auto simp: list_all_iff)
    moreover have "dict_wf t" by (simp add: t_def unit_dependencies_wf)
    ultimately have ord: "if acyclic (dep_rel t)
        then \<exists>ord. order_loop t (length t) [] = Inr ord \<and> settles t ord \<and> set ord = set (dict_keys t)
        else order_loop t (length t) [] = raise ''PLAN_CYCLE'' ''work dependency graph is cyclic''"
      by (intro order_loop_exact) auto
    have eq: "order_plan units = order_loop t (length t) []"
      using Inr len by (simp add: order_plan_def t_def [symmetric])
    show ?thesis
    proof (cases "acyclic (dep_rel t)")
      case True
      with ord obtain xs where "order_loop t (length t) [] = Inr xs" "settles t xs" "set xs = set (dict_keys t)"
        by auto
      moreover have "plan_orderable units" using ok dist True unfolding rel plan_orderable_def by blast
      ultimately show ?thesis using eq keys by (simp add: t_def [symmetric] del: set_map)
    next
      case False
      with ord eq show ?thesis by (simp add: plan_orderable_def rel raise_def)
    qed
  qed
qed

section \<open>Typed conditions\<close>

text \<open>A condition of the restricted language whose field references name nodes of \<open>S\<close>.\<close>

inductive typed_expr :: "string set \<Rightarrow> pyobj \<Rightarrow> bool" for S where
  typed_scalar: "py_scalar v \<Longrightarrow> typed_expr S v"
| typed_field: "dict_field kvs ''op'' = PStr ''field'' \<Longrightarrow> dict_field kvs ''node'' = PStr r \<Longrightarrow>
    dict_field kvs ''name'' = PStr n \<Longrightarrow> r \<in> S \<Longrightarrow> typed_expr S (PDict kvs)"
| typed_literal: "dict_field kvs ''op'' = PStr ''literal'' \<Longrightarrow> py_scalar (dict_field kvs ''value'') \<Longrightarrow>
    typed_expr S (PDict kvs)"
| typed_op: "dict_field kvs ''op'' = PStr op \<Longrightarrow> op \<in> set CONDITION_OPS \<Longrightarrow> dict_field kvs ''args'' = PList args \<Longrightarrow>
    args \<noteq> [] \<Longrightarrow> (op = ''not'' \<Longrightarrow> length args = 1) \<Longrightarrow> (op \<in> {''eq'', ''ne''} \<Longrightarrow> length args = 2) \<Longrightarrow>
    (\<And>a. a \<in> set args \<Longrightarrow> typed_expr S a) \<Longrightarrow> typed_expr S (PDict kvs)"

inductive_simps typed_expr_dict: "typed_expr S (PDict kvs)"

lemma py_scalar_simps [simp]:
  "py_scalar PNone" "py_scalar (PBool b)" "py_scalar (PInt i)" "py_scalar (PFloat r)" "py_scalar (PStr s)"
  "\<not> py_scalar (PList xs)" "\<not> py_scalar (PTuple xs)" "\<not> py_scalar (PDict kvs)" "\<not> py_scalar (POther r)"
  by (simp_all add: py_scalar_def)

lemma typed_expr_not_dict: "\<not> py_scalar e \<Longrightarrow> (\<And>kvs. e \<noteq> PDict kvs) \<Longrightarrow> \<not> typed_expr S e"
  by (auto elim: typed_expr.cases)

lemma ops_names: "''field'' \<notin> set CONDITION_OPS" "''literal'' \<notin> set CONDITION_OPS"
  by (simp_all add: CONDITION_OPS_def)

lemma walk_typed:
  "walk_condition settled e outermost = Inr () \<longleftrightarrow> typed_expr (set settled) e \<and> \<not> (outermost \<and> py_scalar e)"
  "walk_args args settled = Inr () \<longleftrightarrow> (\<forall>a \<in> set args. typed_expr (set settled) a)"
proof (induction settled e outermost and args settled rule: walk_condition_walk_args.induct)
  case (1 settled expr outermost)
  show ?case
  proof (cases expr)
    case (PDict kvs)
    show ?thesis
    proof (cases "\<exists>op. dict_field kvs ''op'' = PStr op \<and> op \<in> set CONDITION_OPS")
      case True
      then obtain op where op: "dict_field kvs ''op'' = PStr op" "op \<in> set CONDITION_OPS" by blast
      then have no: "op \<noteq> ''field''" "op \<noteq> ''literal''" using ops_names by auto
      show ?thesis
      proof (cases "dict_field kvs ''args''")
        case (PList args)
        have "typed_expr (set settled) (PDict kvs) \<longleftrightarrow> args \<noteq> [] \<and> (op = ''not'' \<longrightarrow> length args = 1) \<and>
            (op \<in> {''eq'', ''ne''} \<longrightarrow> length args = 2) \<and> (\<forall>a \<in> set args. typed_expr (set settled) a)"
          using op no PList by (simp add: typed_expr_dict) blast
        moreover have "walk_condition settled (PDict kvs) outermost = Inr () \<longleftrightarrow> args \<noteq> [] \<and>
            (op = ''not'' \<longrightarrow> length args = 1) \<and> (op \<in> {''eq'', ''ne''} \<longrightarrow> length args = 2) \<and>
            walk_args args settled = Inr ()"
          using op no PList by (subst walk_condition.simps) (auto simp: Let_def)
        moreover have "walk_args args settled = Inr () \<longleftrightarrow> (\<forall>a \<in> set args. typed_expr (set settled) a)"
          if "args \<noteq> []" "op = ''not'' \<longrightarrow> length args = 1" "op \<in> {''eq'', ''ne''} \<longrightarrow> length args = 2"
          using that op no PList PDict by (intro 1(1)) (auto simp: Let_def)
        ultimately show ?thesis using PDict by auto
      qed (use op no PDict in \<open>subst walk_condition.simps, simp add: typed_expr_dict Let_def image_iff\<close>)+
    next
      case False
      then have notin: "dict_field kvs ''op'' \<notin> PStr ` set CONDITION_OPS" by auto
      have typed: "typed_expr (set settled) (PDict kvs) \<longleftrightarrow>
          (dict_field kvs ''op'' = PStr ''field'' \<and>
            (\<exists>r n. dict_field kvs ''node'' = PStr r \<and> dict_field kvs ''name'' = PStr n \<and> r \<in> set settled)) \<or>
          (dict_field kvs ''op'' = PStr ''literal'' \<and> py_scalar (dict_field kvs ''value''))"
        using False by (subst typed_expr_dict) (simp, blast)
      have "walk_condition settled (PDict kvs) outermost = Inr () \<longleftrightarrow> typed_expr (set settled) (PDict kvs)"
      proof (cases "dict_field kvs ''op'' = PStr ''field''")
        case True
        then show ?thesis unfolding typed
          by (subst walk_condition.simps)
            (cases "dict_field kvs ''node''"; cases "dict_field kvs ''name''"; simp add: Let_def)
      next
        case other: False
        then show ?thesis unfolding typed using notin by (subst walk_condition.simps) (simp add: Let_def)
      qed
      with PDict show ?thesis by simp
    qed
  qed (subst walk_condition.simps, simp add: typed_expr_not_dict typed_scalar)+
next
  case (3 arg args settled)
  then show ?case by (auto simp: rbind_eq_Ok_iff)
qed simp

section \<open>What a compiled workflow satisfies\<close>

definition node_ok :: "string list option \<Rightarrow> WorkflowNode \<Rightarrow> bool" where
  "node_ok known_requirements n \<longleftrightarrow> wn_kind n \<in> set NODE_KINDS \<and> wn_max_attempts n \<ge> 1 \<and>
     (wn_kind n \<in> {''agent_task'', ''verify'', ''apply_candidate''} \<longrightarrow> wn_cost_cap n \<noteq> None) \<and>
     (case known_requirements of None \<Rightarrow> True | Some known \<Rightarrow> set (wn_requirement_ids n) \<subseteq> set known)"

text \<open>What is checked when a node is settled after the nodes \<open>S\<close>.\<close>

definition settled_ok :: "string list option \<Rightarrow> string set \<Rightarrow> WorkflowNode \<Rightarrow> bool" where
  "settled_ok known_recipes S n \<longleftrightarrow> set (wn_dependencies n) \<subseteq> S \<and>
     (wn_condition n = PNone \<or> \<not> py_scalar (wn_condition n) \<and> typed_expr S (wn_condition n)) \<and>
     (case (wn_recipe_id n, known_recipes) of (Some r, Some known) \<Rightarrow> r \<in> set known | _ \<Rightarrow> True)"

definition workflow_sound ::
  "string list option \<Rightarrow> string list option \<Rightarrow> WorkflowNode list \<Rightarrow> string list \<Rightarrow> bool"
where
  "workflow_sound known_recipes known_requirements nodes order \<longleftrightarrow>
     length nodes \<le> MAX_NODES \<and> distinct (map wn_node_id nodes) \<and> distinct order \<and>
     set order = wn_node_id ` set nodes \<and> list_all (node_ok known_requirements) nodes \<and>
     list_all (\<lambda>n. \<forall>xs ys. order = xs @ wn_node_id n # ys \<longrightarrow> settled_ok known_recipes (set xs) n) nodes"

lemma node_checks_ok: "node_checks known_requirements n = Inr () \<longleftrightarrow> node_ok known_requirements n"
  by (auto simp: node_checks_def node_ok_def Let_def split: option.splits if_splits)

lemma index_nodes_exact:
  "index_nodes known nodes by_id = Inr d \<longleftrightarrow>
     d = by_id @ map (\<lambda>n. (wn_node_id n, n)) nodes \<and> list_all (node_ok known) nodes \<and>
     distinct (map wn_node_id nodes) \<and> wn_node_id ` set nodes \<inter> set (dict_keys by_id) = {}"
proof (induction nodes arbitrary: by_id)
  case (Cons n nodes)
  show ?case
  proof (cases "wn_node_id n \<in> set (dict_keys by_id)")
    case False
    then have "dict_set (wn_node_id n) n by_id = by_id @ [(wn_node_id n, n)]" by (rule dict_set_new)
    with False show ?thesis
      by (simp add: Cons rbind_eq_Ok_iff node_checks_ok del: set_map) auto
  qed auto
qed auto

definition good_order :: "(string, WorkflowNode) dict \<Rightarrow> string list option \<Rightarrow> string list \<Rightarrow> bool" where
  "good_order by_id known order \<longleftrightarrow> (\<forall>xs k ys. order = xs @ k # ys \<longrightarrow>
     (\<forall>n. dict_get by_id k = Some n \<longrightarrow>
        (wn_condition n = PNone \<or> \<not> py_scalar (wn_condition n) \<and> typed_expr (set xs) (wn_condition n)) \<and>
        (case (wn_recipe_id n, known) of (Some r, Some rs) \<Rightarrow> r \<in> set rs | _ \<Rightarrow> True)))"

lemma settle_node_good:
  assumes "settle_node by_id known k order = Inr order'" "good_order by_id known order"
  shows "good_order by_id known order'"
proof -
  obtain n where n: "dict_get by_id k = Some n"
    using assms(1) by (auto simp: settle_node_def split: option.splits)
  have order': "order' = order @ [k]" by (rule settle_node_extends [OF assms(1)])
  have c: "wn_condition n = PNone \<or> \<not> py_scalar (wn_condition n) \<and> typed_expr (set order) (wn_condition n)"
    using assms(1) n
    by (auto simp: settle_node_def Let_def validate_condition_def rbind_eq_Ok_iff walk_typed split: if_splits)
  have r: "case (wn_recipe_id n, known) of (Some r, Some rs) \<Rightarrow> r \<in> set rs | _ \<Rightarrow> True"
    using assms(1) n by (auto simp: settle_node_def Let_def rbind_eq_Ok_iff split: if_splits option.splits)
  show ?thesis
    unfolding good_order_def order'
  proof (intro allI impI)
    fix xs k' ys m
    assume split: "order @ [k] = xs @ k' # ys" and m: "dict_get by_id k' = Some m"
    show "(wn_condition m = PNone \<or> \<not> py_scalar (wn_condition m) \<and> typed_expr (set xs) (wn_condition m)) \<and>
        (case (wn_recipe_id m, known) of (Some r, Some rs) \<Rightarrow> r \<in> set rs | _ \<Rightarrow> True)"
    proof (cases ys rule: rev_cases)
      case Nil
      with split m n c r show ?thesis by simp
    next
      case (snoc zs z)
      with split have "order = xs @ k' # zs" by simp
      with assms(2) m show ?thesis unfolding good_order_def by blast
    qed
  qed
qed

lemma settle_layer_good:
  "settle_layer by_id known ks order = Inr order' \<Longrightarrow> good_order by_id known order \<Longrightarrow> good_order by_id known order'"
proof (induction ks arbitrary: order)
  case (Cons k ks)
  then obtain u where "settle_node by_id known k order = Inr u" "settle_layer by_id known ks u = Inr order'"
    by (auto simp: rbind_eq_Ok_iff)
  with Cons settle_node_good show ?case by blast
qed simp

lemma node_dependencies_wf: "dict_wf by_id \<Longrightarrow> dict_wf (node_dependencies by_id)"
  by (simp add: node_dependencies_def comp_def case_prod_unfold)

lemma compile_loop_sound:
  "compile_loop by_id n known depth order = Inr order' \<Longrightarrow> dict_wf by_id \<Longrightarrow>
    settles (node_dependencies by_id) order \<Longrightarrow> good_order by_id known order \<Longrightarrow>
    settles (node_dependencies by_id) order' \<and> good_order by_id known order' \<and> n \<le> length order'"
proof (induction by_id n known depth order rule: compile_loop.induct)
  case (1 by_id n known depth order)
  show ?case
  proof (cases "length order < n")
    case False
    with "1.prems" show ?thesis by (subst (asm) compile_loop.simps) simp
  next
    case True
    let ?ready = "ready_keys (node_dependencies by_id) order"
    from True "1.prems"(1) have ready: "?ready \<noteq> []" "\<not> depth + 1 > MAX_DEPTH"
      by (subst (asm) compile_loop.simps, auto simp: Let_def split: if_splits)+
    with True "1.prems"(1) obtain u where u: "settle_layer by_id known ?ready order = Inr u"
      "compile_loop by_id n known (depth + 1) u = Inr order'"
      by (subst (asm) compile_loop.simps) (auto simp: Let_def split: if_splits sum.splits)
    have "u = order @ ?ready" by (rule settle_layer_extends [OF u(1)])
    then have "settles (node_dependencies by_id) u"
      using "1.prems" ready_keys_distinct node_dependencies_wf by (metis order_refl settles_layer)
    with "1.IH" [OF True refl ready u(1) u(2)] "1.prems" settle_layer_good [OF u(1)] show ?thesis by blast
  qed
qed

lemma settles_full_length:
  assumes "dict_wf t" "settles t ks" "length t \<le> length ks"
  shows "length ks = length t"
  using settles_full [OF assms] assms(1,2) distinct_card [of ks] distinct_card [of "dict_keys t"]
  by (simp add: settles_def)

lemma compiled_order:
  assumes dist: "distinct (map wn_node_id nodes)"
    and ord: "settles (node_dependencies (map (\<lambda>n. (wn_node_id n, n)) nodes)) order"
      "good_order (map (\<lambda>n. (wn_node_id n, n)) nodes) known order" "length nodes \<le> length order"
  shows "distinct order" "set order = wn_node_id ` set nodes"
    "list_all (\<lambda>n. \<forall>xs ys. order = xs @ wn_node_id n # ys \<longrightarrow> settled_ok known (set xs) n) nodes"
    "acyclic (dep_rel (map (\<lambda>n. (wn_node_id n, wn_dependencies n)) nodes))"
proof -
  let ?t = "map (\<lambda>n. (wn_node_id n, wn_dependencies n)) nodes"
  have t: "node_dependencies (map (\<lambda>n. (wn_node_id n, n)) nodes) = ?t" by (simp add: node_dependencies_def)
  have wf: "dict_wf ?t" using dist by (simp add: comp_def)
  note st = ord(1) [unfolded t]
  have full: "set order = set (dict_keys ?t)" using settles_full [OF wf st] ord(3) by simp
  then show "set order = wn_node_id ` set nodes" by (simp add: comp_def)
  show "distinct order" using st by (simp add: settles_def)
  show "acyclic (dep_rel ?t)" by (rule settles_acyclic [OF wf st full])
  have "settled_ok known (set xs) n" if n: "n \<in> set nodes" "order = xs @ wn_node_id n # ys" for n xs ys
  proof -
    have "(wn_node_id n, wn_dependencies n) \<in> set ?t" using n(1) by auto
    with st n(2) have "set (wn_dependencies n) \<subseteq> set xs" unfolding settles_def by blast
    moreover have "dict_get (map (\<lambda>n. (wn_node_id n, n)) nodes) (wn_node_id n) = Some n"
      using n(1) dist by (intro map_of_is_SomeI) (auto simp: comp_def)
    ultimately show ?thesis using ord(2) n(2) unfolding good_order_def settled_ok_def by blast
  qed
  then show "list_all (\<lambda>n. \<forall>xs ys. order = xs @ wn_node_id n # ys \<longrightarrow> settled_ok known (set xs) n) nodes"
    unfolding list_all_iff by blast
qed

lemma compile_workflow_cases:
  assumes "compile_workflow H nodes revision known_recipes known_requirements = Inr w"
  shows "workflow_sound known_recipes known_requirements nodes (cw_order w)"
    "acyclic (dep_rel (map (\<lambda>n. (wn_node_id n, wn_dependencies n)) nodes))"
    "cw_nodes w = nodes" "cw_revision w = revision" "cw_budget_total w = sum_list (map node_cost nodes)"
    "digest H (workflow_projection revision nodes) = Inr (cw_workflow_digest w)"
proof -
  let ?by_id = "map (\<lambda>n. (wn_node_id n, n)) nodes"
  from assms obtain d where d: "index_nodes known_requirements nodes [] = Inr d"
    "compile_loop d (length nodes) known_recipes 0 [] = Inr (cw_order w)" and len: "length nodes \<le> MAX_NODES"
    and rest: "cw_nodes w = nodes" "cw_revision w = revision" "cw_budget_total w = sum_list (map node_cost nodes)"
      "digest H (workflow_projection revision nodes) = Inr (cw_workflow_digest w)"
    by (auto simp: compile_workflow_def rbind_eq_Ok_iff split: if_splits)
  from d(1) have nodes: "d = ?by_id" "list_all (node_ok known_requirements) nodes" "distinct (map wn_node_id nodes)"
    by (simp_all add: index_nodes_exact)
  have "good_order ?by_id known_recipes []" by (simp add: good_order_def)
  moreover have "dict_wf ?by_id" using nodes(3) by (simp add: comp_def)
  ultimately have loop: "settles (node_dependencies ?by_id) (cw_order w)"
    "good_order ?by_id known_recipes (cw_order w)" "length nodes \<le> length (cw_order w)"
    using compile_loop_sound [OF d(2)] nodes(1) by simp_all
  note facts = compiled_order [OF nodes(3) loop]
  show "workflow_sound known_recipes known_requirements nodes (cw_order w)"
    using facts len nodes unfolding workflow_sound_def by blast
  show "acyclic (dep_rel (map (\<lambda>n. (wn_node_id n, wn_dependencies n)) nodes))" by (rule facts(4))
qed (use assms in \<open>auto simp: compile_workflow_def rbind_eq_Ok_iff split: if_splits\<close>)

section \<open>The order does not depend on how the plan lists its units\<close>

lemma order_loop_perm: "mset t = mset t' \<Longrightarrow> order_loop t n ks = order_loop t' n ks"
proof (induction t n ks rule: order_loop.induct)
  case (1 t n ks)
  note perm = ready_keys_perm [OF "1.prems"]
  show ?case
  proof (cases "length ks < n \<and> ready_keys t ks \<noteq> []")
    case True
    then have "order_loop t n (ks @ ready_keys t ks) = order_loop t' n (ks @ ready_keys t ks)"
      using "1.IH" "1.prems" by blast
    with True show ?thesis by (subst (1 2) order_loop.simps) (simp add: Let_def perm)
  next
    case False
    then show ?thesis by (subst (1 2) order_loop.simps) (auto simp: Let_def perm)
  qed
qed

text \<open>
  Claim C30. Ordering a plan is exact and stable: it succeeds exactly when the ids are unique, every unit
  traces to a requirement and an acceptance, every dependency is a unit of the plan and the dependencies
  have no cycle; the order then lists every unit once, after all it depends on, and is the same for every
  listing of the same units.
\<close>

theorem order_plan_exact:
  "(case order_plan units of
      Inl e \<Rightarrow> \<not> plan_orderable units
    | Inr ord \<Rightarrow> plan_orderable units \<and> settles (unit_dependencies units) ord \<and> set ord = wk_unit_id ` set units \<and>
        {r. \<exists>listing. mset listing = mset units \<and> r = order_plan listing} = {Inr ord})"
proof (cases "order_plan units")
  case (Inr ord)
  have "order_plan listing = Inr ord" if perm: "mset listing = mset units" for listing
  proof -
    from Inr order_plan_cases [of units] have ok: "plan_orderable units" by simp
    have sets: "set listing = set units" using perm by (metis set_mset_mset)
    have dist: "distinct (map wk_unit_id listing)" "distinct (map wk_unit_id units)"
      using ok perm by (simp_all add: plan_orderable_def) (metis mset_eq_imp_distinct_iff mset_map)
    with ok sets have "plan_orderable listing" by (simp add: plan_orderable_def list_all_iff)
    then obtain ord' where ord': "order_plan listing = Inr ord'"
      using order_plan_cases [of listing] by (cases "order_plan listing") auto
    have loops: "order_loop (unit_dependencies us) (length us) [] = Inr xs" if "order_plan us = Inr xs" for us xs
      using that by (auto simp: order_plan_def Let_def rbind_eq_Ok_iff split: if_splits)
    have "mset (unit_dependencies listing) = mset (unit_dependencies units)"
      unfolding dist [THEN unit_dependencies_distinct] by (simp add: perm)
    moreover have "length listing = length units" using perm by (rule mset_eq_length)
    ultimately have "ord' = ord" using loops [OF ord'] loops [OF Inr] order_loop_perm by (metis Inr_inject)
    with ord' show ?thesis by simp
  qed
  with Inr have "{r. \<exists>listing. mset listing = mset units \<and> r = order_plan listing} = {Inr ord}" by auto
  with Inr order_plan_cases [of units] show ?thesis by simp
qed (use order_plan_cases [of units] in simp)

section \<open>Compiled workflows\<close>

text \<open>
  Claim C27. A compiled workflow is sound: at most 256 nodes with unique ids and allowed kinds, at least one
  attempt each, a cost cap on every node that spends, only known requirements and recipes; the order lists
  every node once, after its dependencies, and each condition is a well-typed expression that reads only
  nodes settled before it. The dependencies have no cycle, and the digest is that of the nodes.
\<close>

theorem compile_sound:
  assumes "compile_workflow H nodes revision known_recipes known_requirements = Inr w"
  shows "workflow_sound known_recipes known_requirements nodes (cw_order w) \<and>
    acyclic (dep_rel (map (\<lambda>n. (wn_node_id n, wn_dependencies n)) nodes)) \<and>
    digest H (workflow_projection revision nodes) = Inr (cw_workflow_digest w)"
  using compile_workflow_cases [OF assms] by blast

definition sample_node :: "string \<Rightarrow> string list \<Rightarrow> pyobj \<Rightarrow> WorkflowNode" where
  "sample_node nid deps cond =
     \<lparr>wn_node_id = nid, wn_kind = ''verify'', wn_dependencies = deps, wn_requirement_ids = [''R1''],
      wn_acceptance_ids = [], wn_condition = cond, wn_scope_ref = None, wn_resource_claims = [],
      wn_retry_class = ''none'', wn_max_attempts = 1, wn_cost_cap = Some 2, wn_recipe_id = Some ''pytest'',
      wn_compensation_ref = None\<rparr>"

definition sample_condition :: "string \<Rightarrow> pyobj" where
  "sample_condition nid = obj_dict [(''op'', PStr ''eq''), (''args'', PList [
     obj_dict [(''op'', PStr ''field''), (''node'', PStr nid), (''name'', PStr ''verdict'')], PStr ''verified''])]"

lemma sample_compiles:
  "case compile_workflow plain_hash [sample_node ''b'' [''a''] (sample_condition ''a''), sample_node ''a'' [] PNone] 1
      (Some [''pytest'']) (Some [''R1'']) of Inl e \<Rightarrow> False | Inr w \<Rightarrow> cw_order w = [''a'', ''b'']"
  by code_simp

lemma compile_sound_witness:
  "workflow_sound (Some [''pytest'']) (Some [''R1''])
     [sample_node ''b'' [''a''] (sample_condition ''a''), sample_node ''a'' [] PNone] [''a'', ''b'']"
proof -
  obtain w where w: "compile_workflow plain_hash
      [sample_node ''b'' [''a''] (sample_condition ''a''), sample_node ''a'' [] PNone] 1
      (Some [''pytest'']) (Some [''R1'']) = Inr w" "cw_order w = [''a'', ''b'']"
    using result_caseD [OF sample_compiles] by blast
  show ?thesis using compile_sound [OF w(1)] unfolding w(2) by blast
qed

text \<open>A condition may read a node it does not depend on, if that node settles earlier.\<close>

lemma condition_reads_unrelated:
  "case compile_workflow plain_hash [sample_node ''a'' [] PNone, sample_node ''b'' [] (sample_condition ''a'')] 1 None None of
     Inl e \<Rightarrow> False | Inr w \<Rightarrow> cw_order w = [''a'', ''b'']"
  by code_simp

text \<open>The digest leaves out the retry policy and the compensation.\<close>

lemma digest_ignores_retries:
  "workflow_projection rv [n] =
     workflow_projection rv [n\<lparr>wn_max_attempts := k, wn_retry_class := c, wn_compensation_ref := r\<rparr>]"
  by (simp add: workflow_projection_def node_values_def)

section \<open>Expansion\<close>

lemma merge_nodes_exact:
  "merge_nodes additions merged = Inr d \<longleftrightarrow>
     d = merged @ map (\<lambda>n. (wn_node_id n, n)) additions \<and> distinct (map wn_node_id additions) \<and>
     wn_node_id ` set additions \<inter> set (dict_keys merged) = {}"
proof (induction additions arbitrary: merged)
  case (Cons n additions)
  show ?case
  proof (cases "wn_node_id n \<in> set (dict_keys merged)")
    case False
    then have "dict_set (wn_node_id n) n merged = merged @ [(wn_node_id n, n)]" by (rule dict_set_new)
    with False show ?thesis by (simp add: Cons del: set_map) auto
  qed auto
qed auto

text \<open>
  An expansion of a compiled workflow keeps every node of the base as it is, adds exactly the new ones, stays
  within the policy's node count and cost, moves the revision by one and is itself a compiled workflow.
\<close>

lemma expansion_within_policy:
  assumes "propose_expansion H base additions max_nodes max_cost = Inr w" "distinct (map wn_node_id (cw_nodes base))"
  shows "cw_nodes w = cw_nodes base @ additions" "int (length (cw_nodes w)) \<le> max_nodes"
    "cw_budget_total w \<le> max_cost" "cw_revision w = cw_revision base + 1"
    "workflow_sound None None (cw_nodes w) (cw_order w)"
proof -
  from assms obtain d where d: "merge_nodes additions (map (\<lambda>n. (wn_node_id n, n)) (cw_nodes base)) = Inr d"
    "int (length d) \<le> max_nodes" "sum_list (map (node_cost \<circ> snd) d) \<le> max_cost"
    "compile_workflow H (map snd d) (cw_revision base + 1) None None = Inr w"
    by (auto simp: propose_expansion_def rbind_eq_Ok_iff index_by_distinct_id split: if_splits)
  note w = compile_workflow_cases [OF d(4)]
  from d(1) have d': "d = map (\<lambda>n. (wn_node_id n, n)) (cw_nodes base @ additions)" by (simp add: merge_nodes_exact)
  then have eq: "map snd d = cw_nodes base @ additions" by (simp add: comp_def)
  then show "cw_nodes w = cw_nodes base @ additions" using w by simp
  show "int (length (cw_nodes w)) \<le> max_nodes" using w(3) d(2) by simp
  show "cw_budget_total w \<le> max_cost" using w(5) d(3) by simp
  show "cw_revision w = cw_revision base + 1" using w by simp
  show "workflow_sound None None (cw_nodes w) (cw_order w)" using w by simp
qed

text \<open>An expansion checks no recipe: it compiles without the registered ones.\<close>

lemma expansion_skips_recipes:
  "case compile_workflow plain_hash [sample_node ''a'' [] PNone] 0 (Some [''pytest'']) None of
     Inl e \<Rightarrow> False
   | Inr base \<Rightarrow>
       succeeds (propose_expansion plain_hash base [(sample_node ''b'' [] PNone)\<lparr>wn_recipe_id := Some ''rm''\<rparr>] 9 9) \<and>
       fails_with ''CAPABILITY_UNAVAILABLE'' (compile_workflow plain_hash
         [sample_node ''a'' [] PNone, (sample_node ''b'' [] PNone)\<lparr>wn_recipe_id := Some ''rm''\<rparr>] 1 (Some [''pytest'']) None)"
  by code_simp

end
