(* ===== verification/Dispatch.thy ===== *)
theory Dispatch
  imports PlanSubject Decisions Leases Layers
begin

text \<open>
  \<open>workflow/dispatch.py\<close>: an execution permission becomes a permit, and a permit a lease on one ready
  unit. A \<^emph>\<open>set\<close> argument is a list read through \<^const>\<open>set\<close>.
\<close>

record ExecutionPermit =
  ep_permit_id :: string
  ep_subject_digest :: string
  ep_source_snapshot_digest :: string
  ep_approved_units :: "string list"
  ep_generation :: int

record WorkLease =
  wl_unit_id :: string
  wl_worker_id :: string
  wl_fence :: int
  wl_write_paths :: "string list"

record Dispatcher =
  dp_leases :: "(string, WorkLease) dict"
  dp_fence :: int

definition new_dispatcher :: Dispatcher where
  "new_dispatcher = \<lparr>dp_leases = [], dp_fence = 0\<rparr>"

definition check_permit :: "ExecutionPermit option \<Rightarrow> string \<Rightarrow> string \<Rightarrow> ExecutionPermit result" where
  "check_permit permit digest_value current_snapshot_digest =
     (case permit of
        None \<Rightarrow> raise ''APPROVAL_REQUIRED'' ''plan approval exists but no execution permission''
      | Some p \<Rightarrow>
          if ep_subject_digest p \<noteq> digest_value then raise ''PERMIT_STALE'' ''permit binds a different subject''
          else if ep_source_snapshot_digest p \<noteq> current_snapshot_digest
          then raise ''PERMIT_STALE'' ''source changed since the permit''
          else Ok p)"

definition lease_overlap :: "Dispatcher \<Rightarrow> WorkUnitSpec \<Rightarrow> string list" where
  "lease_overlap s u =
     map wl_unit_id [l \<leftarrow> map snd (dp_leases s). \<not> disjoint_list (wl_write_paths l) (wu_write_paths u)]"

text \<open>The body of the loop until the first unit no \<open>continue\<close> skips.\<close>

fun reserve_units ::
  "WorkUnitSpec list \<Rightarrow> ExecutionPermit \<Rightarrow> string \<Rightarrow> string list \<Rightarrow> string list \<Rightarrow> (Dispatcher, string \<times> int) op"
where
  "reserve_units [] permit worker_id done failed_set s = (raise ''NO_READY_WORK'' ''no unit is dispatchable'', s)"
| "reserve_units (u # us) permit worker_id done failed_set s =
     (if wu_unit_id u \<in> set done \<or> wu_unit_id u \<in> set (dict_keys (dp_leases s))
      then reserve_units us permit worker_id done failed_set s
      else if \<not> disjoint_list (wu_dependencies u) failed_set then reserve_units us permit worker_id done failed_set s
      else if \<not> subset_list (wu_dependencies u) done then reserve_units us permit worker_id done failed_set s
      else if wu_unit_id u \<notin> set (ep_approved_units permit) then reserve_units us permit worker_id done failed_set s
      else
        let overlap = lease_overlap s u in
        if overlap \<noteq> []
        then (raise ''RESOURCE_CONFLICT'' (wu_unit_id u @ '' write-set overlaps '' @ repr_list overlap), s)
        else
          let fence = dp_fence s + 1 in
          (Ok (wu_unit_id u, fence),
           s\<lparr>dp_fence := fence,
             dp_leases := dict_set (wu_unit_id u) \<lparr>wl_unit_id = wu_unit_id u, wl_worker_id = worker_id,
               wl_fence = fence, wl_write_paths = wu_write_paths u\<rparr> (dp_leases s)\<rparr>))"

definition reserve_ready_work ::
  "GovernedWorkPlan \<Rightarrow> ExecutionPermit \<Rightarrow> string \<Rightarrow> string list option \<Rightarrow> string list option \<Rightarrow>
    (Dispatcher, string \<times> int) op"
where
  "reserve_ready_work plan permit worker_id completed failed =
     reserve_units (gp_units plan) permit worker_id
       (case completed of None \<Rightarrow> [] | Some c \<Rightarrow> c) (case failed of None \<Rightarrow> [] | Some f \<Rightarrow> f)"

definition release_lease :: "string \<Rightarrow> string \<Rightarrow> int \<Rightarrow> (Dispatcher, unit) op" where
  "release_lease unit_id worker_id fence s =
     (case dict_get (dp_leases s) unit_id of
        None \<Rightarrow> (raise ''LEASE_LOST'' (''no live lease '' @ unit_id), s)
      | Some lease \<Rightarrow>
          if wl_worker_id lease \<noteq> worker_id \<or> wl_fence lease \<noteq> fence
          then (raise ''LEASE_LOST'' (''no live lease '' @ unit_id), s)
          else (Ok (), s\<lparr>dp_leases := dict_del unit_id (dp_leases s)\<rparr>))"

definition make_permit ::
  "DecisionDesk \<Rightarrow> string \<Rightarrow> string \<Rightarrow> string \<Rightarrow> int \<Rightarrow> GovernedWorkPlan \<Rightarrow> ExecutionPermit result"
where
  "make_permit desk decision_id digest_value source_snapshot_digest generation plan =
     (case load_decision desk decision_id of
        None \<Rightarrow> raise ''APPROVAL_REQUIRED'' ''no approved execution decision''
      | Some request \<Rightarrow>
          if dq_state request \<noteq> ''approved'' then raise ''APPROVAL_REQUIRED'' ''no approved execution decision''
          else if dq_purpose request \<noteq> ''execution_permission''
          then raise ''APPROVAL_REQUIRED'' (''purpose '' @ py_repr (dq_purpose request) @ '' is not execution permission'')
          else if dq_subject_digest request \<noteq> digest_value
          then raise ''PERMIT_STALE'' ''decision binds a different subject''
          else Ok \<lparr>ep_permit_id = ''permit-'' @ decision_id, ep_subject_digest = digest_value,
            ep_source_snapshot_digest = source_snapshot_digest,
            ep_approved_units =
              (if dq_approved_units request \<noteq> []
               then partial_approval_units (dq_approved_units request)
                 (map (\<lambda>(k, u). (k, wu_dependencies u)) (index_by wu_unit_id (gp_units plan)))
               else sort (map wu_unit_id (gp_units plan))),
            ep_generation = generation\<rparr>)"

section \<open>A reservation\<close>

text \<open>A unit the loop does not skip.\<close>

definition dispatchable :: "Dispatcher \<Rightarrow> ExecutionPermit \<Rightarrow> string list \<Rightarrow> string list \<Rightarrow> WorkUnitSpec \<Rightarrow> bool" where
  "dispatchable s permit done failed_set u \<longleftrightarrow> wu_unit_id u \<notin> set done \<and>
     wu_unit_id u \<notin> set (dict_keys (dp_leases s)) \<and> set (wu_dependencies u) \<inter> set failed_set = {} \<and>
     set (wu_dependencies u) \<subseteq> set done \<and> wu_unit_id u \<in> set (ep_approved_units permit)"

definition leased_to :: "string \<Rightarrow> WorkUnitSpec \<Rightarrow> Dispatcher \<Rightarrow> Dispatcher" where
  "leased_to worker_id u s = s\<lparr>dp_fence := dp_fence s + 1,
     dp_leases := dict_set (wu_unit_id u) \<lparr>wl_unit_id = wu_unit_id u, wl_worker_id = worker_id,
       wl_fence = dp_fence s + 1, wl_write_paths = wu_write_paths u\<rparr> (dp_leases s)\<rparr>"

lemma lease_overlap_Nil: "lease_overlap s u = [] \<longleftrightarrow>
    (\<forall>l \<in> snd ` set (dp_leases s). set (wl_write_paths l) \<inter> set (wu_write_paths u) = {})"
  by (auto simp: lease_overlap_def filter_empty_conv)

lemma reserve_units_exact:
  "reserve_units us permit w done failed_set s =
     (case List.find (dispatchable s permit done failed_set) us of
        None \<Rightarrow> (raise ''NO_READY_WORK'' ''no unit is dispatchable'', s)
      | Some u \<Rightarrow>
          if lease_overlap s u = [] then (Ok (wu_unit_id u, dp_fence s + 1), leased_to w u s)
          else (raise ''RESOURCE_CONFLICT'' (wu_unit_id u @ '' write-set overlaps '' @ repr_list (lease_overlap s u)), s))"
  by (induction us) (auto simp: dispatchable_def leased_to_def Let_def simp del: set_map)

lemma reserve_Ok:
  assumes "reserve_ready_work plan permit w completed failed s = (Inr (uid, f), t)"
  obtains u where "u \<in> set (gp_units plan)" "uid = wu_unit_id u" "f = dp_fence s + 1" "t = leased_to w u s"
    "dispatchable s permit (case completed of None \<Rightarrow> [] | Some c \<Rightarrow> c) (case failed of None \<Rightarrow> [] | Some f \<Rightarrow> f) u"
    "lease_overlap s u = []"
  using assms unfolding reserve_ready_work_def reserve_units_exact
  by (auto split: option.splits if_splits dest!: find_Some_in)

lemma reserve_err: "reserve_ready_work plan permit w completed failed s = (Inl e, t) \<Longrightarrow> t = s"
  unfolding reserve_ready_work_def reserve_units_exact by (auto split: option.splits if_splits)

lemma release_cases:
  "release_lease uid w f s = (r, t) \<Longrightarrow>
     (r = Inr () \<and> (\<exists>l. dict_get (dp_leases s) uid = Some l \<and> wl_worker_id l = w \<and> wl_fence l = f) \<and>
        t = s\<lparr>dp_leases := dict_del uid (dp_leases s)\<rparr>) \<or> (r \<noteq> Inr () \<and> t = s)"
  by (auto simp: release_lease_def raise_def split: option.splits if_splits)

section \<open>The calls of a dispatcher\<close>

type_synonym grant = "string \<times> string \<times> int"

inductive dispatch_call :: "Dispatcher \<Rightarrow> grant list \<Rightarrow> Dispatcher \<Rightarrow> bool" where
  reserved: "reserve_ready_work plan permit w completed failed s = (Inr (uid, f), t) \<Longrightarrow> dispatch_call s [(uid, w, f)] t"
| refused: "reserve_ready_work plan permit w completed failed s = (Inl e, t) \<Longrightarrow> dispatch_call s [] t"
| released: "release_lease uid w f s = (r, t) \<Longrightarrow> dispatch_call s [] t"

inductive dispatch_trace :: "Dispatcher \<Rightarrow> grant list \<Rightarrow> Dispatcher \<Rightarrow> bool" for s where
  start: "dispatch_trace s [] s"
| more: "dispatch_trace s gs t \<Longrightarrow> dispatch_call t hs u \<Longrightarrow> dispatch_trace s (gs @ hs) u"

definition lease_owner :: "Dispatcher \<Rightarrow> string \<Rightarrow> (string \<times> int) option" where
  "lease_owner s k = map_option (\<lambda>l. (wl_worker_id l, wl_fence l)) (dict_get (dp_leases s) k)"

lemma owner_leased_to [simp]: "lease_owner (leased_to w u s) k =
    (if k = wu_unit_id u then Some (w, dp_fence s + 1) else lease_owner s k)"
  by (simp add: lease_owner_def leased_to_def)

lemma fence_leased_to [simp]: "dp_fence (leased_to w u s) = dp_fence s + 1"
  by (simp add: leased_to_def)

lemma owner_released: "lease_owner (s\<lparr>dp_leases := dict_del uid (dp_leases s)\<rparr>) k =
    (if k = uid then None else lease_owner s k)"
  by (simp add: lease_owner_def)

interpretation dispatch: fenced_leases lease_owner "\<lambda>s k. dp_fence s" "\<lambda>s t. \<exists>gs. dispatch_call s gs t"
proof
  fix s t k
  assume "\<exists>gs. dispatch_call s gs t"
  then show "dp_fence s \<le> dp_fence t"
    by (auto elim!: dispatch_call.cases reserve_Ok dest!: reserve_err release_cases)
next
  fix s t k w f
  assume "\<exists>gs. dispatch_call s gs t" "lease_owner t k = Some (w, f)"
  then show "lease_owner s k = Some (w, f) \<or> dp_fence s < f \<and> f \<le> dp_fence t"
    by (auto elim!: dispatch_call.cases reserve_Ok dest!: reserve_err release_cases
        simp: owner_released split: if_splits)
qed

text \<open>
  What holds of a dispatcher: each lease is kept under its unit, carries a fence handed out before, and no
  two leases write a common path.
\<close>

definition dispatch_ok :: "Dispatcher \<Rightarrow> bool" where
  "dispatch_ok s \<longleftrightarrow> dict_wf (dp_leases s) \<and>
     (\<forall>k l. dict_get (dp_leases s) k = Some l \<longrightarrow> wl_unit_id l = k \<and> wl_fence l \<le> dp_fence s) \<and>
     (\<forall>k l k' l'. dict_get (dp_leases s) k = Some l \<longrightarrow> dict_get (dp_leases s) k' = Some l' \<longrightarrow> k \<noteq> k' \<longrightarrow>
        set (wl_write_paths l) \<inter> set (wl_write_paths l') = {} \<and> wl_fence l \<noteq> wl_fence l')"

lemma dispatch_ok_new [simp]: "dispatch_ok new_dispatcher"
  by (simp add: dispatch_ok_def new_dispatcher_def)

lemma dispatch_ok_leased:
  assumes ok: "dispatch_ok s" and new: "wu_unit_id u \<notin> set (dict_keys (dp_leases s))" and free: "lease_overlap s u = []"
  shows "dispatch_ok (leased_to w u s)"
proof -
  have old: "wl_fence l < dp_fence s + 1" "set (wl_write_paths l) \<inter> set (wu_write_paths u) = {}"
    if "dict_get (dp_leases s) k = Some l" for k l
    using that ok free dict_get_Some_in [OF that] unfolding dispatch_ok_def lease_overlap_Nil by force+
  show ?thesis
    unfolding dispatch_ok_def
  proof (intro conjI allI impI)
    show "dict_wf (dp_leases (leased_to w u s))"
      using ok by (simp add: dispatch_ok_def leased_to_def distinct_update)
  next
    fix k l
    assume "dict_get (dp_leases (leased_to w u s)) k = Some l"
    then have "l = \<lparr>wl_unit_id = wu_unit_id u, wl_worker_id = w, wl_fence = dp_fence s + 1,
        wl_write_paths = wu_write_paths u\<rparr> \<and> k = wu_unit_id u \<or> dict_get (dp_leases s) k = Some l"
      by (auto simp: leased_to_def split: if_splits)
    with ok show "wl_unit_id l = k" "wl_fence l \<le> dp_fence (leased_to w u s)"
      unfolding dispatch_ok_def by (force simp: leased_to_def)+
  next
    fix k l k' l'
    assume "dict_get (dp_leases (leased_to w u s)) k = Some l" "dict_get (dp_leases (leased_to w u s)) k' = Some l'"
      and neq: "k \<noteq> k'"
    then consider "dict_get (dp_leases s) k = Some l" "dict_get (dp_leases s) k' = Some l'"
      | "dict_get (dp_leases s) k = Some l" "wl_write_paths l' = wu_write_paths u" "wl_fence l' = dp_fence s + 1"
      | "dict_get (dp_leases s) k' = Some l'" "wl_write_paths l = wu_write_paths u" "wl_fence l = dp_fence s + 1"
      by (auto simp: leased_to_def split: if_splits)
    then show "set (wl_write_paths l) \<inter> set (wl_write_paths l') = {}" "wl_fence l \<noteq> wl_fence l'"
      by (cases; use old neq ok in \<open>force simp: dispatch_ok_def\<close>)+
  qed
qed

lemma dispatch_ok_released: "dispatch_ok s \<Longrightarrow> dispatch_ok (s\<lparr>dp_leases := dict_del uid (dp_leases s)\<rparr>)"
  by (auto simp: dispatch_ok_def distinct_delete split: if_splits)

lemma dispatch_ok_call: "dispatch_call s gs t \<Longrightarrow> dispatch_ok s \<Longrightarrow> dispatch_ok t"
proof (induction rule: dispatch_call.induct)
  case (reserved plan permit w completed failed s uid f t)
  then show ?case by (auto elim!: reserve_Ok simp: dispatchable_def intro!: dispatch_ok_leased)
next
  case (refused plan permit w completed failed s e t)
  then show ?case using reserve_err by blast
next
  case (released uid w f s r t)
  from release_cases [OF released.hyps] show ?case using released.prems dispatch_ok_released by blast
qed

lemma dispatch_call_grants:
  "dispatch_call s gs t \<Longrightarrow>
     sorted_wrt (<) (map (snd \<circ> snd) gs) \<and> (\<forall>(k, w, f) \<in> set gs. dp_fence s < f \<and> f \<le> dp_fence t) \<and>
     (\<forall>k w f. lease_owner t k = Some (w, f) \<longrightarrow> lease_owner s k = Some (w, f) \<or> (k, w, f) \<in> set gs)"
  by (erule dispatch_call.cases)
    (auto elim!: reserve_Ok dest!: reserve_err release_cases simp: owner_released split: if_splits)

text \<open>
  Claim C26. Whatever reservations and releases reach a dispatcher: live leases never write a common path,
  the fences handed out strictly increase, every live lease was granted to its worker under its fence, and
  a lease that has been lost is never live again.
\<close>

theorem dispatch_exclusive:
  assumes "dispatch_trace new_dispatcher gs t"
  shows "dispatch_ok t \<and> sorted_wrt (<) (map (snd \<circ> snd) gs) \<and>
    (\<forall>k w f. lease_owner t k = Some (w, f) \<longrightarrow> (k, w, f) \<in> set gs) \<and>
    (\<forall>(k, w, f) \<in> set gs. lease_owner t k \<noteq> Some (w, f) \<longrightarrow>
       (\<forall>hs u. dispatch_trace t hs u \<longrightarrow> lease_owner u k \<noteq> Some (w, f) \<and> fst (release_lease k w f u) \<noteq> Inr ()))"
proof -
  have inv: "dispatch_ok t \<and> sorted_wrt (<) (map (snd \<circ> snd) gs) \<and>
    (\<forall>k w f. lease_owner t k = Some (w, f) \<longrightarrow> (k, w, f) \<in> set gs) \<and> (\<forall>(k, w, f) \<in> set gs. f \<le> dp_fence t)"
    using assms
  proof (induction rule: dispatch_trace.induct)
    case (more gs t hs u)
    note call = dispatch_call_grants [OF more.hyps(2)]
    have mono: "dp_fence t \<le> dp_fence u" using more.hyps(2) dispatch.issued_mono by blast
    have low: "x \<le> dp_fence t" if "x \<in> set (map (snd \<circ> snd) gs)" for x using that more.IH by auto
    have high: "dp_fence t < y" if "y \<in> set (map (snd \<circ> snd) hs)" for y using that call by auto
    have "x < y" if "x \<in> set (map (snd \<circ> snd) gs)" "y \<in> set (map (snd \<circ> snd) hs)" for x y
      using low [OF that(1)] high [OF that(2)] by simp
    then have "sorted_wrt (<) (map (snd \<circ> snd) (gs @ hs))"
      using call more.IH unfolding map_append sorted_wrt_append by blast
    moreover have "\<forall>k w f. lease_owner u k = Some (w, f) \<longrightarrow> (k, w, f) \<in> set (gs @ hs)"
      using call more.IH by (metis Un_iff set_append)
    moreover have "\<forall>(k, w, f) \<in> set (gs @ hs). f \<le> dp_fence u"
      using call more.IH mono by fastforce
    ultimately show ?case using dispatch_ok_call [OF more.hyps(2)] more.IH by blast
  qed (simp_all add: lease_owner_def dispatch_ok_def new_dispatcher_def)
  have calls: "(\<lambda>s t. \<exists>gs. dispatch_call s gs t)\<^sup>*\<^sup>* t u" if "dispatch_trace t hs u" for hs u
    using that by (induction rule: dispatch_trace.induct) (auto intro: rtranclp.rtrancl_into_rtrancl)
  have gone: "fst (release_lease k w f u) \<noteq> Inr ()" if "lease_owner u k \<noteq> Some (w, f)" for k w f u
    using that by (auto simp: release_lease_def lease_owner_def raise_def split: option.splits)
  have "lease_owner u k \<noteq> Some (w, f) \<and> fst (release_lease k w f u) \<noteq> Inr ()"
    if "(k, w, f) \<in> set gs" "lease_owner t k \<noteq> Some (w, f)" "dispatch_trace t hs u" for k w f hs u
  proof -
    have "f \<le> dp_fence t" using inv that(1) by blast
    with dispatch.lost_forever [OF calls [OF that(3)]] that(2) have "lease_owner u k \<noteq> Some (w, f)" by blast
    with gone show ?thesis by blast
  qed
  with inv show ?thesis by blast
qed

definition unit_permit :: "string list \<Rightarrow> ExecutionPermit" where
  "unit_permit us = \<lparr>ep_permit_id = ''permit-d'', ep_subject_digest = ''s'', ep_source_snapshot_digest = ''w'',
     ep_approved_units = us, ep_generation = 0\<rparr>"

lemma sample_reserved:
  "case reserve_ready_work (sample_plan [sample_unit ''u1'' []]) (unit_permit [''u1'']) ''w1'' None None new_dispatcher of
     (Inl e, t) \<Rightarrow> False
   | (Inr r, t) \<Rightarrow> r = (''u1'', 1) \<and> (case release_lease ''u1'' ''w1'' 1 t of (r', t') \<Rightarrow> r' = Inr () \<and> t' = t\<lparr>dp_leases := []\<rparr>)"
  by code_simp

lemma dispatch_exclusive_witness:
  "\<exists>t. dispatch_trace new_dispatcher [(''u1'', ''w1'', 1)] t \<and>
     (\<forall>hs u. dispatch_trace t hs u \<longrightarrow> fst (release_lease ''u1'' ''w1'' 1 u) \<noteq> Inr ())"
proof -
  obtain s where s: "reserve_ready_work (sample_plan [sample_unit ''u1'' []]) (unit_permit [''u1'']) ''w1'' None None
      new_dispatcher = (Inr (''u1'', 1), s)" "release_lease ''u1'' ''w1'' 1 s = (Inr (), s\<lparr>dp_leases := []\<rparr>)"
    using sample_reserved by (auto simp: case_prod_unfold split: sum.splits) (metis prod.collapse)
  have "dispatch_trace new_dispatcher ([] @ [(''u1'', ''w1'', 1)]) s"
    by (rule more [OF start reserved [OF s(1)]])
  from more [OF this released [OF s(2)]] have t: "dispatch_trace new_dispatcher [(''u1'', ''w1'', 1)] (s\<lparr>dp_leases := []\<rparr>)"
    by simp
  moreover have "lease_owner (s\<lparr>dp_leases := []\<rparr>) ''u1'' \<noteq> Some (''w1'', 1)" by (simp add: lease_owner_def)
  ultimately show ?thesis using dispatch_exclusive [OF t] by fastforce
qed

section \<open>Permits\<close>

text \<open>
  A permit comes only from an approved \<open>execution_permission\<close> decision on the same subject. What it names
  of a partial approval was approved, and nothing it names depends on a unit it does not name.
\<close>

lemma permit_from_decision:
  assumes "make_permit desk d sd snap g plan = Inr p"
  obtains q where "load_decision desk d = Some q" "dq_state q = ''approved''" "dq_purpose q = ''execution_permission''"
    "dq_subject_digest q = sd" "ep_subject_digest p = sd" "ep_source_snapshot_digest p = snap"
    "dq_approved_units q \<noteq> [] \<Longrightarrow> set (ep_approved_units p) \<subseteq> set (dq_approved_units q) \<and>
       deps_closed (map (\<lambda>(k, u). (k, wu_dependencies u)) (index_by wu_unit_id (gp_units plan))) (set (ep_approved_units p))"
    "dq_approved_units q = [] \<Longrightarrow> set (ep_approved_units p) = wu_unit_id ` set (gp_units plan)"
  using assms partial_approval_closed by (auto simp: make_permit_def split: option.splits if_splits)

text \<open>An unusable permit is refused before any reservation.\<close>

lemma check_permit_exact:
  "check_permit permit sd snap = Inr p \<longleftrightarrow>
     permit = Some p \<and> ep_subject_digest p = sd \<and> ep_source_snapshot_digest p = snap"
  by (auto simp: check_permit_def split: option.splits)

section \<open>A dispatcher with nothing leased always has something to do\<close>



end
