(* ===== verification/TaskBoard.thy ===== *)
theory TaskBoard
  imports Ledger Leases
begin

text \<open>
  \<open>workflow/coordination.py\<close>, the task board of a team: registering, claiming, heartbeats, settling,
  reclaiming and cancelling tasks under fenced leases. The state holds every table \<open>TeamCoordinator\<close>
  writes and the ledger it reads streams from and audits to. \<open>write_paths\<close> and \<open>depends_on\<close>, JSON texts of
  sorted lists in the table, are those lists.
\<close>

record CoordTask =
  ct_revision :: int
  ct_state :: string
  ct_worker_id :: "string option"
  ct_fence :: int
  ct_write_paths :: "string list"
  ct_depends_on :: "string list"
  ct_parent_task :: "string option"
  ct_last_heartbeat :: int
  ct_progress_mark :: bool
  ct_lease_until :: int
  ct_result_digest :: "string option"

record ScopeBudget =
  sb_cap :: int
  sb_reserved :: int
  sb_spent :: int
  sb_unknown_liability :: int

record MailRow =
  ml_scope_id :: string
  ml_stream_id :: string
  ml_sender :: string
  ml_recipient :: string
  ml_generation :: int
  ml_payload_digest :: string
  ml_expires_at :: int
  ml_consumed :: bool

record WorktreeRow =
  wt_stream_id :: string
  wt_task_id :: string
  wt_generation :: int
  wt_path :: string
  wt_baseline_digest :: string
  wt_active :: bool

type_synonym task_key = "string \<times> string"

record Board =
  co_ledger :: Ledger
  co_tasks :: "(task_key, CoordTask) dict"
  co_budgets :: "(string, ScopeBudget) dict"
  co_mailbox :: "(string, MailRow) dict"
  co_journal :: "(string \<times> string \<times> string \<times> string, string \<times> string \<times> int) dict"
  co_worktrees :: "(string, WorktreeRow) dict"

record TaskLease =
  tl_task_id :: string
  tl_worker_id :: string
  tl_fence :: int
  tl_lease_until :: int

definition on_ledger :: "(Ledger, 'a) op \<Rightarrow> (Board, 'a) op" where
  "on_ledger f s = (case f (co_ledger s) of (r, l) \<Rightarrow> (r, s\<lparr>co_ledger := l\<rparr>))"

definition put_task :: "task_key \<Rightarrow> CoordTask \<Rightarrow> Board \<Rightarrow> Board" where
  "put_task k t s = s\<lparr>co_tasks := dict_set k t (co_tasks s)\<rparr>"

definition register_task ::
  "string \<Rightarrow> string \<Rightarrow> string \<Rightarrow> string list \<Rightarrow> string list \<Rightarrow> string option \<Rightarrow> int \<Rightarrow> (Board, unit) op"
where
  "register_task scope stream_id task_id write_paths depends_on parent_task revision =
     tx (obind (on_ledger (read_scoped_entity scope stream_id)) (\<lambda>_ s.
       if (stream_id, task_id) \<in> set (dict_keys (co_tasks s))
       then (raise ''INPUT_INVALID'' (''task '' @ task_id @
         '': UNIQUE constraint failed: coord_tasks.stream_id, coord_tasks.task_id''), s)
       else (Ok (), put_task (stream_id, task_id)
         \<lparr>ct_revision = revision, ct_state = ''ready'', ct_worker_id = None, ct_fence = 0,
          ct_write_paths = sort write_paths, ct_depends_on = sort depends_on, ct_parent_task = parent_task,
          ct_last_heartbeat = 0, ct_progress_mark = False, ct_lease_until = 0, ct_result_digest = None\<rparr> s)))"

definition completed_tasks :: "Board \<Rightarrow> string \<Rightarrow> string list" where
  "completed_tasks s stream_id = [snd k. (k, t) \<leftarrow> co_tasks s, fst k = stream_id \<and> ct_state t = ''completed'']"

text \<open>The other tasks of the stream whose lease runs past \<open>now\<close>, with their write sets.\<close>

definition lease_holders :: "Board \<Rightarrow> string \<Rightarrow> int \<Rightarrow> (string \<times> string list) list" where
  "lease_holders s stream_id now =
     [(snd k, ct_write_paths t). (k, t) \<leftarrow> co_tasks s,
        fst k = stream_id \<and> ct_state t = ''leased'' \<and> ct_lease_until t > now]"

definition claim_task :: "string \<Rightarrow> string \<Rightarrow> string \<Rightarrow> int \<Rightarrow> string \<Rightarrow> int \<Rightarrow> int \<Rightarrow> (Board, TaskLease) op" where
  "claim_task scope stream_id task_id expected_revision worker_id now ttl =
     tx (obind (on_ledger (read_scoped_entity scope stream_id)) (\<lambda>_ s.
       case dict_get (co_tasks s) (stream_id, task_id) of
         None \<Rightarrow> (raise ''TASK_UNKNOWN'' task_id, s)
       | Some t \<Rightarrow>
           if ct_revision t \<noteq> expected_revision
           then (raise ''PERMIT_STALE'' (''expected revision '' @ str_int expected_revision @ '', have '' @
             str_int (ct_revision t)), s)
           else if ct_state t \<noteq> ''ready'' then (raise ''LEASE_LOST'' (''task is '' @ ct_state t @ '', not ready''), s)
           else
             let pending = sorted_set (minus_list (ct_depends_on t) (completed_tasks s stream_id)) in
             if pending \<noteq> [] then (raise ''TASK_NOT_READY'' (''dependencies pending: '' @ repr_list pending), s)
             else
               case List.find (\<lambda>(holder_id, paths). \<not> disjoint_list (ct_write_paths t) paths) (lease_holders s stream_id now) of
                 Some (holder_id, paths) \<Rightarrow>
                   (raise ''RESOURCE_CONFLICT'' (task_id @ '' write-set overlaps '' @ holder_id), s)
               | None \<Rightarrow>
                   (Ok \<lparr>tl_task_id = task_id, tl_worker_id = worker_id, tl_fence = ct_fence t + 1, tl_lease_until = now + ttl\<rparr>,
                    put_task (stream_id, task_id) (t\<lparr>ct_state := ''leased'', ct_worker_id := Some worker_id,
                      ct_fence := ct_fence t + 1, ct_last_heartbeat := now, ct_lease_until := now + ttl\<rparr>) s)))"

definition lease_row :: "string \<Rightarrow> TaskLease \<Rightarrow> Board \<Rightarrow> CoordTask result" where
  "lease_row stream_id lease s =
     (case dict_get (co_tasks s) (stream_id, tl_task_id lease) of
        None \<Rightarrow> raise ''TASK_UNKNOWN'' (tl_task_id lease)
      | Some t \<Rightarrow>
          if ct_state t \<noteq> ''leased'' \<or> ct_worker_id t \<noteq> Some (tl_worker_id lease) \<or> ct_fence t \<noteq> tl_fence lease
          then raise ''LEASE_LOST'' (tl_task_id lease)
          else Ok t)"

text \<open>The transaction of a heartbeat; it answers whether the task was paused.\<close>

definition heartbeat_tx :: "string \<Rightarrow> TaskLease \<Rightarrow> int \<Rightarrow> int \<Rightarrow> bool \<Rightarrow> int option \<Rightarrow> (Board, bool) op" where
  "heartbeat_tx stream_id lease now ttl progress progress_deadline =
     tx (\<lambda>s. case lease_row stream_id lease s of
       Inl e \<Rightarrow> (Inl e, s)
     | Inr t \<Rightarrow>
         if (case progress_deadline of None \<Rightarrow> False | Some d \<Rightarrow> \<not> ct_progress_mark t \<and> \<not> progress \<and> now > d)
         then (Ok True, put_task (stream_id, tl_task_id lease) (t\<lparr>ct_state := ''recovery_check''\<rparr>) s)
         else (Ok False, put_task (stream_id, tl_task_id lease) (t\<lparr>ct_last_heartbeat := now, ct_lease_until := now + ttl,
           ct_progress_mark := ct_progress_mark t \<or> progress\<rparr>) s))"

definition heartbeat :: "string \<Rightarrow> TaskLease \<Rightarrow> int \<Rightarrow> int \<Rightarrow> bool \<Rightarrow> int option \<Rightarrow> (Board, TaskLease) op" where
  "heartbeat stream_id lease now ttl progress progress_deadline =
     obind (heartbeat_tx stream_id lease now ttl progress progress_deadline) (\<lambda>paused.
       if paused then olift (raise ''NO_PROGRESS'' ''heartbeat without progress past the bound'')
       else oret (lease\<lparr>tl_lease_until := now + ttl\<rparr>))"

text \<open>Why a result comes too late, if it does.\<close>

definition stale_reason :: "string \<Rightarrow> TaskLease \<Rightarrow> Board \<Rightarrow> string option" where
  "stale_reason stream_id lease s =
     (case lease_row stream_id lease s of
        Inl e \<Rightarrow> Some ''lease lost before result arrived''
      | Inr t \<Rightarrow>
          (case ct_parent_task t of
             None \<Rightarrow> None
           | Some p \<Rightarrow>
               if p = [] then None
               else case dict_get (co_tasks s) (stream_id, p) of
                 None \<Rightarrow> None
               | Some parent \<Rightarrow>
                   if ct_state parent = ''cancelled'' then Some ''parent cancelled; result is audit-only'' else None))"

definition settle_task :: "string \<Rightarrow> TaskLease \<Rightarrow> string \<Rightarrow> string \<Rightarrow> (Board, unit) op" where
  "settle_task stream_id lease result_digest outcome =
     (if outcome \<notin> {''completed'', ''failed''} then olift (raise ''INVALID_OUTCOME'' outcome)
      else
        obind (tx (\<lambda>s. (Ok (stale_reason stream_id lease s),
          if stale_reason stream_id lease s \<noteq> None then s
          else case dict_get (co_tasks s) (stream_id, tl_task_id lease) of
            None \<Rightarrow> s
          | Some t \<Rightarrow> put_task (stream_id, tl_task_id lease)
              (t\<lparr>ct_state := outcome, ct_result_digest := Some result_digest\<rparr>) s))) (\<lambda>stale.
        case stale of
          None \<Rightarrow> oret ()
        | Some reason \<Rightarrow>
            obind (on_ledger (audit stream_id
              (''stale_result task='' @ tl_task_id lease @ '' digest='' @ result_digest @ '' reason='' @ reason)))
              (\<lambda>_. olift (raise ''RESULT_STALE'' reason))))"

definition expired_lease :: "string \<Rightarrow> int \<Rightarrow> task_key \<times> CoordTask \<Rightarrow> bool" where
  "expired_lease stream_id now = (\<lambda>(k, t). fst k = stream_id \<and> ct_state t = ''leased'' \<and> ct_lease_until t \<le> now)"

definition reclaim_expired :: "string \<Rightarrow> int \<Rightarrow> (Board, string list) op" where
  "reclaim_expired stream_id now = tx (\<lambda>s.
     (Ok (map (snd \<circ> fst) (filter (expired_lease stream_id now) (co_tasks s))),
      s\<lparr>co_tasks := map (\<lambda>(k, t).
        (k, if expired_lease stream_id now (k, t) then t\<lparr>ct_state := ''recovery_check'', ct_worker_id := None\<rparr> else t))
        (co_tasks s)\<rparr>))"

definition cancel_task :: "string \<Rightarrow> string \<Rightarrow> (Board, unit) op" where
  "cancel_task stream_id task_id = tx (\<lambda>s.
     case dict_get (co_tasks s) (stream_id, task_id) of
       None \<Rightarrow> (raise ''TASK_UNKNOWN'' task_id, s)
     | Some t \<Rightarrow>
         if ct_state t = ''completed'' then (Ok (), s)
         else (Ok (), put_task (stream_id, task_id) (t\<lparr>ct_state := ''cancelled''\<rparr>) s))"

section \<open>What a call does to the tasks\<close>

lemma tx_unfold: "tx body s = (r, t) \<longleftrightarrow> (\<exists>u. body s = (r, u) \<and> t = (case r of Inl e \<Rightarrow> s | Inr x \<Rightarrow> u))"
  by (auto simp: tx_def split: prod.splits sum.splits)

lemma on_ledger_tasks [simp]: "on_ledger f s = (r, t) \<Longrightarrow> co_tasks t = co_tasks s"
  by (auto simp: on_ledger_def split: prod.splits)

lemma read_entity_same: "read_scoped_entity sc st s = (r, t) \<Longrightarrow> t = s"
  by (auto simp: read_scoped_entity_def obind_def require_scope_def split: option.splits if_splits prod.splits sum.splits)

lemma on_read_same: "on_ledger (read_scoped_entity sc st) s = (r, t) \<Longrightarrow> t = s"
  by (auto simp: on_ledger_def split: prod.splits dest!: read_entity_same)

lemma on_read_Ok: "on_ledger (read_scoped_entity sc st) s = (Inr n, t) \<longleftrightarrow>
    t = s \<and> stream_scope (co_ledger s) st = Some sc \<and> n = revision_of (co_ledger s) st"
  by (auto simp: on_ledger_def read_scoped_entity_def obind_def require_scope_def split: option.splits prod.splits)

lemma put_task_tasks [simp]: "co_tasks (put_task k t s) = dict_set k t (co_tasks s)"
  by (simp add: put_task_def)

lemma register_task_cases:
  assumes "register_task sc st tid ws ds p rv s = (r, t)"
  obtains (refused) "t = s" "r \<noteq> Inr ()"
  | (added) x where "r = Inr ()" "dict_get (co_tasks s) (st, tid) = None" "co_tasks t = dict_set (st, tid) x (co_tasks s)"
      "ct_state x = ''ready''" "ct_fence x = 0"
proof (cases r)
  case (Inl e)
  with assms refused show thesis by (auto simp: register_task_def dest: tx_err_unchanged)
next
  case (Inr u)
  with assms added show thesis
    by (auto simp: register_task_def tx_Ok_iff obind_Ok_iff on_read_Ok dict_get_None_iff [symmetric] simp del: set_map split: if_splits)
qed

lemma claim_task_Ok:
  assumes "claim_task sc st tid rv w now ttl s = (Inr l, t)"
  obtains x where "dict_get (co_tasks s) (st, tid) = Some x" "ct_state x = ''ready''" "ct_revision x = rv"
    "stream_scope (co_ledger s) st = Some sc"
    "set (ct_depends_on x) \<subseteq> set (completed_tasks s st)"
    "\<forall>(h, paths) \<in> set (lease_holders s st now). set (ct_write_paths x) \<inter> set paths = {}"
    "l = \<lparr>tl_task_id = tid, tl_worker_id = w, tl_fence = ct_fence x + 1, tl_lease_until = now + ttl\<rparr>"
    "t = put_task (st, tid) (x\<lparr>ct_state := ''leased'', ct_worker_id := Some w, ct_fence := ct_fence x + 1,
       ct_last_heartbeat := now, ct_lease_until := now + ttl\<rparr>) s"
proof -
  from assms obtain x where x: "dict_get (co_tasks s) (st, tid) = Some x" "stream_scope (co_ledger s) st = Some sc"
    by (auto simp: claim_task_def tx_Ok_iff obind_Ok_iff on_read_Ok split: option.splits)
  with assms have "ct_revision x = rv" "ct_state x = ''ready''" and dep: "set (ct_depends_on x) \<subseteq> set (completed_tasks s st)"
    by (auto simp: claim_task_def tx_Ok_iff obind_Ok_iff on_read_Ok Let_def split: if_splits)
  moreover from this x assms have none:
    "List.find (\<lambda>(holder_id, paths). \<not> disjoint_list (ct_write_paths x) paths) (lease_holders s st now) = None"
    by (auto simp: claim_task_def tx_Ok_iff obind_Ok_iff on_read_Ok Let_def split: option.splits)
  moreover from calculation x assms have
    "l = \<lparr>tl_task_id = tid, tl_worker_id = w, tl_fence = ct_fence x + 1, tl_lease_until = now + ttl\<rparr>"
    "t = put_task (st, tid) (x\<lparr>ct_state := ''leased'', ct_worker_id := Some w, ct_fence := ct_fence x + 1,
       ct_last_heartbeat := now, ct_lease_until := now + ttl\<rparr>) s"
    by (auto simp: claim_task_def tx_Ok_iff obind_Ok_iff on_read_Ok Let_def)
  moreover have "\<forall>(h, paths) \<in> set (lease_holders s st now). set (ct_write_paths x) \<inter> set paths = {}"
    using none by (auto simp: find_None_iff)
  ultimately show thesis using that x by blast
qed

lemma claim_task_err: "claim_task sc st tid rv w now ttl s = (Inl e, t) \<Longrightarrow> t = s"
  by (auto simp: claim_task_def dest: tx_err_unchanged)

lemma lease_row_Ok: "lease_row st l s = Inr t \<longleftrightarrow> dict_get (co_tasks s) (st, tl_task_id l) = Some t \<and>
    ct_state t = ''leased'' \<and> ct_worker_id t = Some (tl_worker_id l) \<and> ct_fence t = tl_fence l"
  by (auto simp: lease_row_def split: option.splits if_splits)

lemma heartbeat_cases:
  assumes "heartbeat st l now ttl pr dl s = (r, t)"
  obtains (lost) e where "lease_row st l s = Inl e" "r = Inl e" "t = s"
  | (paused) x where "lease_row st l s = Inr x" "r = raise ''NO_PROGRESS'' ''heartbeat without progress past the bound''"
      "t = put_task (st, tl_task_id l) (x\<lparr>ct_state := ''recovery_check''\<rparr>) s"
  | (extended) x m where "lease_row st l s = Inr x" "r = Inr (l\<lparr>tl_lease_until := now + ttl\<rparr>)"
      "t = put_task (st, tl_task_id l) (x\<lparr>ct_last_heartbeat := now, ct_lease_until := now + ttl, ct_progress_mark := m\<rparr>) s"
  using assms by (cases "lease_row st l s")
    (auto simp: heartbeat_def heartbeat_tx_def obind_def tx_def split: if_splits)

lemma settle_cases:
  assumes "settle_task st l d out s = (r, t)"
  obtains (invalid) "out \<notin> {''completed'', ''failed''}" "t = s" "r = raise ''INVALID_OUTCOME'' out"
  | (stale) why where "stale_reason st l s = Some why" "r = raise ''RESULT_STALE'' why" "co_tasks t = co_tasks s"
      "lg_audit (co_ledger t) = lg_audit (co_ledger s) @ [(st, ''stale_result task='' @ tl_task_id l @ '' digest='' @ d @
        '' reason='' @ why)]"
  | (settled) x where "stale_reason st l s = None" "lease_row st l s = Inr x" "r = Inr ()" "out \<in> {''completed'', ''failed''}"
      "t = put_task (st, tl_task_id l) (x\<lparr>ct_state := out, ct_result_digest := Some d\<rparr>) s"
proof (cases "out \<in> {''completed'', ''failed''}")
  case False
  with assms invalid show thesis by (auto simp: settle_task_def)
next
  case True
  show thesis
  proof (cases "stale_reason st l s")
    case (Some why)
    with assms True have "r = raise ''RESULT_STALE'' why" "co_tasks t = co_tasks s"
      "lg_audit (co_ledger t) = lg_audit (co_ledger s) @ [(st, ''stale_result task='' @ tl_task_id l @ '' digest='' @ d @
        '' reason='' @ why)]"
      by (auto simp: settle_task_def obind_def tx_def on_ledger_def audit_def)
    with stale Some show thesis by blast
  next
    case None
    then obtain x where x: "lease_row st l s = Inr x" by (cases "lease_row st l s") (auto simp: stale_reason_def)
    with None assms True settled show thesis by (auto simp: settle_task_def obind_def tx_def lease_row_Ok)
  qed
qed

lemma dict_get_map: "dict_get (map (\<lambda>(k, v). (k, f k v)) d) k = map_option (f k) (dict_get d k)"
  by (induction d) auto

lemma reclaim_tasks:
  assumes "reclaim_expired st now s = (r, t)"
  shows "dict_get (co_tasks t) k = map_option (\<lambda>x.
    if expired_lease st now (k, x) then x\<lparr>ct_state := ''recovery_check'', ct_worker_id := None\<rparr> else x) (dict_get (co_tasks s) k)"
proof -
  have "co_tasks t = map (\<lambda>(k, x). (k, if expired_lease st now (k, x)
      then x\<lparr>ct_state := ''recovery_check'', ct_worker_id := None\<rparr> else x)) (co_tasks s)"
    using assms by (auto simp: reclaim_expired_def tx_def)
  then show ?thesis by (simp only: dict_get_map)
qed

lemma cancel_task_cases:
  assumes "cancel_task st tid s = (r, t)"
  obtains (kept) "t = s"
  | (cancelled) x where "dict_get (co_tasks s) (st, tid) = Some x" "ct_state x \<noteq> ''completed''"
      "t = put_task (st, tid) (x\<lparr>ct_state := ''cancelled''\<rparr>) s"
  using assms by (auto simp: cancel_task_def tx_def raise_def split: option.splits if_splits sum.splits prod.splits)

section \<open>Fences\<close>

inductive board_call :: "Board \<Rightarrow> Board \<Rightarrow> bool" where
  register: "register_task sc st tid ws ds p rv s = (r, t) \<Longrightarrow> board_call s t"
| claim: "claim_task sc st tid rv w now ttl s = (r, t) \<Longrightarrow> board_call s t"
| heartbeat: "heartbeat st l now ttl pr dl s = (r, t) \<Longrightarrow> board_call s t"
| settle: "settle_task st l d out s = (r, t) \<Longrightarrow> board_call s t"
| reclaim: "reclaim_expired st now s = (r, t) \<Longrightarrow> board_call s t"
| cancel: "cancel_task st tid s = (r, t) \<Longrightarrow> board_call s t"

definition task_owner :: "Board \<Rightarrow> task_key \<Rightarrow> (string \<times> int) option" where
  "task_owner s k =
     (case dict_get (co_tasks s) k of
        None \<Rightarrow> None
      | Some x \<Rightarrow> if ct_state x = ''leased'' then map_option (\<lambda>w. (w, ct_fence x)) (ct_worker_id x) else None)"

definition task_fence :: "Board \<Rightarrow> task_key \<Rightarrow> int" where
  "task_fence s k = (case dict_get (co_tasks s) k of None \<Rightarrow> -1 | Some x \<Rightarrow> ct_fence x)"

text \<open>
  A call adds a task that nobody owns, or changes tasks so that each keeps its fence and its owner or
  loses the owner, or gets an owner under the next fence.
\<close>

definition task_moved :: "CoordTask option \<Rightarrow> CoordTask option \<Rightarrow> bool" where
  "task_moved x y \<longleftrightarrow> x = y \<or>
     (case (x, y) of
        (None, Some b) \<Rightarrow> ct_state b \<noteq> ''leased'' \<and> ct_fence b = 0
      | (Some a, Some b) \<Rightarrow>
          ct_fence b = ct_fence a \<and> (ct_state b \<noteq> ''leased'' \<or> ct_state a = ''leased'' \<and> ct_worker_id b = ct_worker_id a) \<or>
          ct_fence b = ct_fence a + 1
      | _ \<Rightarrow> False)"

lemma task_moved_simps:
  "task_moved x x"
  "task_moved (Some a) (Some b) \<longleftrightarrow> a = b \<or>
     ct_fence b = ct_fence a \<and> (ct_state b \<noteq> ''leased'' \<or> ct_state a = ''leased'' \<and> ct_worker_id b = ct_worker_id a) \<or>
     ct_fence b = ct_fence a + 1"
  "task_moved None (Some b) \<longleftrightarrow> ct_state b \<noteq> ''leased'' \<and> ct_fence b = 0"
  by (auto simp: task_moved_def)

lemma put_task_moved: "task_moved (dict_get (co_tasks s) k) (Some x) \<Longrightarrow>
    task_moved (dict_get (co_tasks s) k') (dict_get (co_tasks (put_task k x s)) k')"
  by (auto simp: task_moved_simps(1))

lemma board_call_moved: "board_call s t \<Longrightarrow> task_moved (dict_get (co_tasks s) k) (dict_get (co_tasks t) k)"
proof (induction rule: board_call.induct)
  case (register sc st tid ws ds p rv s r t)
  then show ?case by (cases rule: register_task_cases) (auto simp: task_moved_simps)
next
  case (claim sc st tid rv w now ttl s r t)
  show ?case
  proof (cases r)
    case (Inl e)
    with claim claim_task_err have "t = s" by blast
    then show ?thesis by (simp add: task_moved_simps)
  next
    case (Inr l)
    with claim obtain x where "dict_get (co_tasks s) (st, tid) = Some x"
      "t = put_task (st, tid) (x\<lparr>ct_state := ''leased'', ct_worker_id := Some w, ct_fence := ct_fence x + 1,
         ct_last_heartbeat := now, ct_lease_until := now + ttl\<rparr>) s" by (auto elim: claim_task_Ok)
    then show ?thesis by (auto intro!: put_task_moved simp: task_moved_simps simp del: put_task_tasks)
  qed
next
  case (heartbeat st l now ttl pr dl s r t)
  then show ?case
    by (cases rule: heartbeat_cases)
      (auto intro!: put_task_moved simp: task_moved_simps lease_row_Ok simp del: put_task_tasks)
next
  case (settle st l d out s r t)
  then show ?case
    by (cases rule: settle_cases)
      (auto intro!: put_task_moved simp: task_moved_simps lease_row_Ok simp del: put_task_tasks)
next
  case (reclaim st now s r t)
  then show ?case by (cases "dict_get (co_tasks s) k") (auto simp: reclaim_tasks task_moved_simps)
next
  case (cancel st tid s r t)
  then show ?case
    by (cases rule: cancel_task_cases) (auto intro!: put_task_moved simp: task_moved_simps simp del: put_task_tasks)
qed

interpretation board: fenced_leases task_owner task_fence board_call
proof
  fix s t k
  assume "board_call s t"
  from board_call_moved [OF this, of k] show "task_fence s k \<le> task_fence t k"
    by (cases "dict_get (co_tasks s) k"; cases "dict_get (co_tasks t) k") (auto simp: task_moved_def task_fence_def)
next
  fix s t k w f
  assume "board_call s t" "task_owner t k = Some (w, f)"
  note moved = board_call_moved [OF this(1), of k]
  from \<open>task_owner t k = Some (w, f)\<close> obtain y where y: "dict_get (co_tasks t) k = Some y" "ct_state y = ''leased''"
    "ct_worker_id y = Some w" "ct_fence y = f"
    by (auto simp: task_owner_def split: option.splits if_splits)
  show "task_owner s k = Some (w, f) \<or> task_fence s k < f \<and> f \<le> task_fence t k"
  proof (cases "dict_get (co_tasks s) k")
    case None
    with moved y show ?thesis by (simp add: task_moved_simps)
  next
    case (Some x)
    with moved y consider "x = y" | "ct_fence x = f" "ct_state x = ''leased''" "ct_worker_id x = Some w" | "f = ct_fence x + 1"
      by (auto simp: task_moved_simps)
    then show ?thesis by cases (use Some y in \<open>simp_all add: task_owner_def task_fence_def\<close>)
  qed
qed

section \<open>The board is a lock table\<close>

text \<open>
  The abstract state: which tasks hold which paths. A step gives up locks, and may then take one whose
  paths no other task of the same stream holds.
\<close>

type_synonym locks = "(task_key \<times> string set) set"

inductive lock_step :: "locks \<Rightarrow> locks \<Rightarrow> bool" where
  release: "B \<subseteq> A \<Longrightarrow> lock_step A B"
| acquire: "B \<subseteq> A \<Longrightarrow> \<forall>(k', qs) \<in> B. fst k' = fst k \<longrightarrow> ps \<inter> qs = {} \<Longrightarrow> lock_step A (insert (k, ps) B)"

definition exclusive :: "locks \<Rightarrow> bool" where
  "exclusive A \<longleftrightarrow> (\<forall>(k, ps) \<in> A. \<forall>(k', qs) \<in> A. k \<noteq> k' \<longrightarrow> fst k = fst k' \<longrightarrow> ps \<inter> qs = {})"

lemma lock_step_exclusive: "lock_step A B \<Longrightarrow> exclusive A \<Longrightarrow> exclusive B"
proof (induction rule: lock_step.induct)
  case (release B A)
  then show ?case unfolding exclusive_def by blast
next
  case (acquire B A k ps)
  then have "exclusive B" unfolding exclusive_def by blast
  with acquire(2) show ?case unfolding exclusive_def by fastforce
qed

text \<open>The locks of a board at a time: the write sets under leases that run past it.\<close>

definition held :: "int \<Rightarrow> Board \<Rightarrow> locks" where
  "held now s = {(k, set (ct_write_paths x)) |k x. dict_get (co_tasks s) k = Some x \<and> ct_state x = ''leased'' \<and>
     now < ct_lease_until x}"

lemma held_later: "now \<le> now' \<Longrightarrow> held now' s \<subseteq> held now s"
  by (force simp: held_def)

lemma held_put: "held now (put_task k x s) =
    {(k', ps) \<in> held now s. k' \<noteq> k} \<union>
    (if ct_state x = ''leased'' \<and> now < ct_lease_until x then {(k, set (ct_write_paths x))} else {})"
  by (auto simp: held_def split: if_splits)

lemma holder_of_held:
  assumes "(k, ps) \<in> held now s" "fst k = st"
  shows "\<exists>paths. (snd k, paths) \<in> set (lease_holders s st now) \<and> set paths = ps"
proof -
  from assms(1) obtain x where x: "dict_get (co_tasks s) k = Some x" "ct_state x = ''leased''" "now < ct_lease_until x"
    "ps = set (ct_write_paths x)" by (auto simp: held_def)
  with assms(2) have "(snd k, ct_write_paths x) \<in> set (lease_holders s st now)"
    by (auto simp: lease_holders_def dest!: map_of_SomeD intro!: bexI [of _ "(k, x)"])
  with x(4) show ?thesis by blast
qed

text \<open>A call made at time \<open>now'\<close> after a time \<open>now\<close>; no heartbeat comes for a lease that has run out.\<close>

inductive timely_call :: "int \<Rightarrow> Board \<Rightarrow> int \<Rightarrow> Board \<Rightarrow> bool" where
  register: "now \<le> now' \<Longrightarrow> register_task sc st tid ws ds p rv s = (r, t) \<Longrightarrow> timely_call now s now' t"
| claim: "now \<le> now' \<Longrightarrow> claim_task sc st tid rv w now' ttl s = (r, t) \<Longrightarrow> timely_call now s now' t"
| heartbeat: "now \<le> now' \<Longrightarrow> heartbeat st l now' ttl pr dl s = (r, t) \<Longrightarrow>
    (\<And>x. lease_row st l s = Inr x \<Longrightarrow> now' < ct_lease_until x) \<Longrightarrow> timely_call now s now' t"
| settle: "now \<le> now' \<Longrightarrow> settle_task st l d out s = (r, t) \<Longrightarrow> timely_call now s now' t"
| reclaim: "now \<le> now' \<Longrightarrow> reclaim_expired st now' s = (r, t) \<Longrightarrow> timely_call now s now' t"
| cancel: "now \<le> now' \<Longrightarrow> cancel_task st tid s = (r, t) \<Longrightarrow> timely_call now s now' t"

inductive board_run :: "int \<Rightarrow> Board \<Rightarrow> bool" where
  opened: "co_tasks s = [] \<Longrightarrow> board_run now s"
| called: "board_run now s \<Longrightarrow> timely_call now s now' t \<Longrightarrow> board_run now' t"

lemma held_put_free: "ct_state x \<noteq> ''leased'' \<Longrightarrow> held now (put_task k x s) \<subseteq> held now s"
  by (auto simp: held_put)

lemma timely_call_lock_step:
  assumes "timely_call now s now' t"
  shows "lock_step (held now s) (held now' t)"
  using assms
proof (cases rule: timely_call.cases)
  case (register sc st tid ws ds p rv r)
  from register(2) have "held now' t \<subseteq> held now' s"
    by (cases rule: register_task_cases) (auto simp: held_def split: if_splits)
  with held_later [OF register(1)] show ?thesis by (intro release) blast
next
  case (claim sc st tid rv w ttl r)
  show ?thesis
  proof (cases r)
    case (Inl e)
    with claim(2) claim_task_err have "t = s" by blast
    with held_later [OF claim(1)] show ?thesis by (auto intro: release)
  next
    case (Inr l)
    with claim(2) obtain x where free: "\<forall>(h, paths) \<in> set (lease_holders s st now'). set (ct_write_paths x) \<inter> set paths = {}"
      and t: "t = put_task (st, tid) (x\<lparr>ct_state := ''leased'', ct_worker_id := Some w, ct_fence := ct_fence x + 1,
         ct_last_heartbeat := now', ct_lease_until := now' + ttl\<rparr>) s" by (auto elim: claim_task_Ok)
    let ?B = "{(k', ps) \<in> held now' s. k' \<noteq> (st, tid)}"
    have sub: "?B \<subseteq> held now s" using held_later [OF claim(1), of s] by blast
    have "set (ct_write_paths x) \<inter> qs = {}" if "(k', qs) \<in> held now' s" "fst k' = st" for k' qs
    proof -
      from holder_of_held [OF that] obtain paths where
        "(snd k', paths) \<in> set (lease_holders s st now')" "set paths = qs" by blast
      with free show ?thesis by blast
    qed
    then have "\<forall>(k', qs) \<in> ?B. fst k' = fst (st, tid) \<longrightarrow> set (ct_write_paths x) \<inter> qs = {}" by fastforce
    note step = acquire [OF sub this]
    have "held now' t = (if 0 < ttl then insert ((st, tid), set (ct_write_paths x)) ?B else ?B)"
      unfolding t held_put by simp
    with step release [OF sub] show ?thesis by (cases "0 < ttl") simp_all
  qed
next
  case (heartbeat st l ttl pr dl r)
  from heartbeat(2) have "held now' t \<subseteq> held now' s"
  proof (cases rule: heartbeat_cases)
    case (extended x m)
    with heartbeat(3) have "((st, tl_task_id l), set (ct_write_paths x)) \<in> held now' s" by (auto simp: held_def lease_row_Ok)
    with extended show ?thesis by (auto simp: held_put lease_row_Ok)
  next
    case (paused x)
    then show ?thesis by (auto intro!: held_put_free)
  qed simp
  with held_later [OF heartbeat(1)] show ?thesis by (intro release) blast
next
  case (settle st l d out r)
  from settle(2) have "held now' t \<subseteq> held now' s"
  proof (cases rule: settle_cases)
    case (settled x)
    then show ?thesis by (auto intro!: held_put_free)
  next
    case (stale why)
    then show ?thesis by (simp add: held_def)
  qed simp
  with held_later [OF settle(1)] show ?thesis by (intro release) blast
next
  case (reclaim st r)
  have "held now' t \<subseteq> held now' s"
  proof
    fix q
    assume "q \<in> held now' t"
    then obtain k y where y: "q = (k, set (ct_write_paths y))" "dict_get (co_tasks t) k = Some y" "ct_state y = ''leased''"
      "now' < ct_lease_until y" unfolding held_def by blast
    from y(2) reclaim_tasks [OF reclaim(2), of k] obtain x where x: "dict_get (co_tasks s) k = Some x"
      "y = (if expired_lease st now' (k, x) then x\<lparr>ct_state := ''recovery_check'', ct_worker_id := None\<rparr> else x)"
      by (cases "dict_get (co_tasks s) k") simp_all
    with y(3) have "y = x" by (simp split: if_splits)
    with x(1) y show "q \<in> held now' s" unfolding held_def by blast
  qed
  with held_later [OF reclaim(1)] show ?thesis by (intro release) blast
next
  case (cancel st tid r)
  from cancel(2) have "held now' t \<subseteq> held now' s"
    by (cases rule: cancel_task_cases) (auto intro!: held_put_free)
  with held_later [OF cancel(1)] show ?thesis by (intro release) blast
qed

text \<open>
  Claim C10. The task board refines a lock table: every call made while the clock moves forward and no
  heartbeat comes for a lease that has run out, refused calls included, is one step of the table, which gives
  up locks and may take one that no other task of its stream holds. So in every run the tasks under live
  leases of one stream write disjoint paths.
\<close>

theorem board_refines_locks:
  assumes "board_run now s"
  shows "lock_step\<^sup>*\<^sup>* {} (held now s) \<and> exclusive (held now s) \<and>
    (\<forall>now' t. timely_call now s now' t \<longrightarrow> lock_step (held now s) (held now' t))"
proof -
  have "lock_step\<^sup>*\<^sup>* {} (held now s)"
    using assms
  proof (induction rule: board_run.induct)
    case (opened s now)
    then show ?case by (simp add: held_def)
  next
    case (called now s now' t)
    then show ?case using timely_call_lock_step by (meson rtranclp.rtrancl_into_rtrancl)
  qed
  moreover have "exclusive A" if "lock_step\<^sup>*\<^sup>* {} A" for A
    using that by (induction rule: rtranclp_induct) (simp_all add: exclusive_def lock_step_exclusive [unfolded exclusive_def])
  ultimately show ?thesis using timely_call_lock_step by blast
qed

definition team_board :: Board where
  "team_board = \<lparr>co_ledger = empty_ledger\<lparr>lg_streams := [(''s1'', \<lparr>st_scope_id = ''sc'', st_revision = 0,
       st_entity_type = ''run'', st_status = ''open''\<rparr>)]\<rparr>, co_tasks = [], co_budgets = [], co_mailbox = [], co_journal = [],
     co_worktrees = []\<rparr>"

definition sample_tasks :: Board where
  "sample_tasks = snd (register_task ''sc'' ''s1'' ''b'' [''x''] [] None 0
     (snd (register_task ''sc'' ''s1'' ''a'' [''x''] [] None 0 team_board)))"

definition sample_claimed :: Board where
  "sample_claimed = snd (claim_task ''sc'' ''s1'' ''a'' 0 ''w1'' 0 10 sample_tasks)"

lemma team_board_run: "board_run 0 sample_claimed"
  unfolding sample_claimed_def sample_tasks_def
  by (rule called [OF called [OF called [OF opened timely_call.register [OF order_refl prod.collapse [symmetric]]]
        timely_call.register [OF order_refl prod.collapse [symmetric]]] timely_call.claim [OF order_refl prod.collapse [symmetric]]])
    (simp_all add: team_board_def)

lemma board_refines_locks_witness: "exclusive (held 0 sample_claimed) \<and> ((''s1'', ''a''), {''x''}) \<in> held 0 sample_claimed"
proof -
  have "case dict_get (co_tasks sample_claimed) (''s1'', ''a'') of None \<Rightarrow> False
    | Some x \<Rightarrow> ct_state x = ''leased'' \<and> 0 < ct_lease_until x \<and> ct_write_paths x = [''x'']"
    by code_simp
  then have "((''s1'', ''a''), {''x''}) \<in> held 0 sample_claimed" by (auto simp: held_def split: option.splits)
  with board_refines_locks [OF team_board_run] show ?thesis by blast
qed

section \<open>Settling\<close>

text \<open>
  A result moves a task only for the worker that owns it under its fence; any other leaves every task as it is
  and is kept in the audit log.
\<close>

lemma settle_only_owner:
  assumes "settle_task st l d out s = (r, t)" "out \<in> {''completed'', ''failed''}"
    "task_owner s (st, tl_task_id l) \<noteq> Some (tl_worker_id l, tl_fence l)"
  shows "fails_with ''RESULT_STALE'' r" "co_tasks t = co_tasks s"
    "\<exists>detail. lg_audit (co_ledger t) = lg_audit (co_ledger s) @ [(st, detail)]"
  using assms(1)
  by (cases rule: settle_cases; use assms(2,3) in \<open>auto simp: task_owner_def lease_row_Ok\<close>)+

text \<open>A worker that lost a task settles nothing later, whatever is called in between.\<close>

lemma lost_task_settles_nothing:
  assumes "task_owner s (st, tl_task_id l) \<noteq> Some (tl_worker_id l, tl_fence l)" "tl_fence l \<le> task_fence s (st, tl_task_id l)"
    "board_call\<^sup>*\<^sup>* s u" "settle_task st l d out u = (r, v)"
  shows "co_tasks v = co_tasks u"
proof -
  have "task_owner u (st, tl_task_id l) \<noteq> Some (tl_worker_id l, tl_fence l)"
    by (rule board.lost_forever [OF assms(3,2,1)])
  with settle_only_owner [OF assms(4)] assms(4) show ?thesis
    by (cases "out \<in> {''completed'', ''failed''}") (auto simp: settle_task_def)
qed

text \<open>A claim hands out only a ready task whose dependencies are completed.\<close>

lemma claimed_task_ready:
  assumes "claim_task sc st tid rv w now ttl s = (Inr l, t)"
  obtains x where "dict_get (co_tasks s) (st, tid) = Some x" "ct_state x = ''ready''" "ct_revision x = rv"
    "\<And>d. d \<in> set (ct_depends_on x) \<Longrightarrow> \<exists>y. ((st, d), y) \<in> set (co_tasks s) \<and> ct_state y = ''completed''"
    "task_owner t (st, tid) = Some (w, tl_fence l)" "tl_fence l = task_fence s (st, tid) + 1"
proof -
  obtain x where x: "dict_get (co_tasks s) (st, tid) = Some x" "ct_state x = ''ready''" "ct_revision x = rv"
    "set (ct_depends_on x) \<subseteq> set (completed_tasks s st)"
    "l = \<lparr>tl_task_id = tid, tl_worker_id = w, tl_fence = ct_fence x + 1, tl_lease_until = now + ttl\<rparr>"
    "t = put_task (st, tid) (x\<lparr>ct_state := ''leased'', ct_worker_id := Some w, ct_fence := ct_fence x + 1,
       ct_last_heartbeat := now, ct_lease_until := now + ttl\<rparr>) s"
    using assms by (rule claim_task_Ok)
  have "\<exists>y. ((st, d), y) \<in> set (co_tasks s) \<and> ct_state y = ''completed''" if "d \<in> set (ct_depends_on x)" for d
    using that x(4) by (auto simp: completed_tasks_def)
  with x that show thesis by (simp add: task_owner_def task_fence_def)
qed

section \<open>Where the leases are weaker than they look\<close>

text \<open>
  Expiry is not checked when a lease is renewed: a heartbeat on a lease that ran out brings it back after
  another worker was given the same path, and both leases are live.
\<close>

lemma late_heartbeat_breaks_exclusion:
  "let l = \<lparr>tl_task_id = ''a'', tl_worker_id = ''w1'', tl_fence = 1, tl_lease_until = 10\<rparr>;
       other = snd (claim_task ''sc'' ''s1'' ''b'' 0 ''w2'' 20 10 sample_claimed);
       both = snd (heartbeat ''s1'' l 21 10 True None other) in
   lease_holders both ''s1'' 22 = [(''a'', [''x'']), (''b'', [''x''])]"
  by code_simp

text \<open>Nor is it checked when a result arrives.\<close>

lemma expired_lease_settles:
  "let l = \<lparr>tl_task_id = ''a'', tl_worker_id = ''w1'', tl_fence = 1, tl_lease_until = 10\<rparr>;
       other = snd (claim_task ''sc'' ''s1'' ''b'' 0 ''w2'' 20 10 sample_claimed) in
   fst (settle_task ''s1'' l ''d'' ''completed'' other) = Inr ()"
  by code_simp

text \<open>A failed task is cancelled over; and a cancelled dependency leaves the tasks that wait for it waiting.\<close>

lemma cancel_overwrites_failed:
  "let l = \<lparr>tl_task_id = ''a'', tl_worker_id = ''w1'', tl_fence = 1, tl_lease_until = 10\<rparr>;
       t = snd (cancel_task ''s1'' ''a'' (snd (settle_task ''s1'' l ''d'' ''failed'' sample_claimed))) in
   map_option ct_state (dict_get (co_tasks t) (''s1'', ''a'')) = Some ''cancelled''"
  by code_simp

end
