(* ===== verification/TeamServices.thy ===== *)
theory TeamServices
  imports TaskBoard
begin

text \<open>
  \<open>workflow/coordination.py\<close>, the other services of a team on the same state: the scope budget, the mailbox,
  the result journal and worktree leases.
\<close>

section \<open>Operations\<close>

definition set_budget :: "string \<Rightarrow> int \<Rightarrow> (Board, unit) op" where
  "set_budget scope cap =
     (if cap < 0 then olift (raise ''INVALID_BUDGET'' ''negative cap'')
      else tx (\<lambda>s. (Ok (), s\<lparr>co_budgets := dict_set scope
        (case dict_get (co_budgets s) scope of
           None \<Rightarrow> \<lparr>sb_cap = cap, sb_reserved = 0, sb_spent = 0, sb_unknown_liability = 0\<rparr>
         | Some b \<Rightarrow> b\<lparr>sb_cap := cap\<rparr>) (co_budgets s)\<rparr>)))"

definition reserve_budget :: "string \<Rightarrow> int \<Rightarrow> (Board, unit) op" where
  "reserve_budget scope amount =
     (if amount \<le> 0 then olift (raise ''INVALID_BUDGET'' ''reservation <= 0'')
      else tx (\<lambda>s.
        case dict_get (co_budgets s) scope of
          None \<Rightarrow> (raise ''BUDGET_UNBOUND'' ''no budget cap set'', s)
        | Some b \<Rightarrow>
            if sb_unknown_liability b \<noteq> 0
            then (raise ''BUDGET_BLOCKED'' ''unknown cost liability blocks new reservations'', s)
            else if sb_reserved b + amount > sb_cap b
            then (raise ''BUDGET_UNBOUND'' ''reservation exceeds the cap'', s)
            else (Ok (), s\<lparr>co_budgets := dict_set scope (b\<lparr>sb_reserved := sb_reserved b + amount\<rparr>) (co_budgets s)\<rparr>)))"

definition settle_budget :: "string \<Rightarrow> int \<Rightarrow> int option \<Rightarrow> (Board, unit) op" where
  "settle_budget scope amount usage_observed = tx (\<lambda>s.
     case dict_get (co_budgets s) scope of
       None \<Rightarrow> (raise ''BUDGET_UNBOUND'' ''no budget cap set'', s)
     | Some b \<Rightarrow>
         (Ok (), s\<lparr>co_budgets := dict_set scope
           (case usage_observed of
              None \<Rightarrow> b\<lparr>sb_reserved := sb_reserved b - amount, sb_unknown_liability := sb_unknown_liability b + amount\<rparr>
            | Some u \<Rightarrow> b\<lparr>sb_reserved := sb_reserved b - amount, sb_spent := sb_spent b + u\<rparr>) (co_budgets s)\<rparr>))"

record MailboxMessage =
  mm_message_id :: string
  mm_sender :: string
  mm_payload_digest :: string

definition send_message ::
  "string \<Rightarrow> string \<Rightarrow> string \<Rightarrow> string \<Rightarrow> string \<Rightarrow> string \<Rightarrow> int \<Rightarrow> int \<Rightarrow> (Board, MailboxMessage) op"
where
  "send_message scope stream_id message_id sender recipient payload_digest generation expires_at =
     tx (\<lambda>s.
       if message_id \<in> set (dict_keys (co_mailbox s))
       then (raise ''IDEMPOTENCY_CONFLICT'' ''UNIQUE constraint failed: mailbox.message_id'', s)
       else (Ok \<lparr>mm_message_id = message_id, mm_sender = sender, mm_payload_digest = payload_digest\<rparr>,
         s\<lparr>co_mailbox := dict_set message_id
           \<lparr>ml_scope_id = scope, ml_stream_id = stream_id, ml_sender = sender, ml_recipient = recipient,
            ml_generation = generation, ml_payload_digest = payload_digest, ml_expires_at = expires_at,
            ml_consumed = False\<rparr> (co_mailbox s)\<rparr>))"

definition pending_messages :: "Board \<Rightarrow> string \<Rightarrow> string \<Rightarrow> string list" where
  "pending_messages s stream_id recipient =
     sort [k. (k, m) \<leftarrow> co_mailbox s, ml_stream_id m = stream_id \<and> ml_recipient m = recipient \<and> \<not> ml_consumed m]"

text \<open>The transaction of \<open>consume\<close>: the message that was marked, if any, and whether it had expired.\<close>

definition consume_tx :: "string \<Rightarrow> string \<Rightarrow> string \<Rightarrow> int \<Rightarrow> (Board, (MailboxMessage \<times> bool) option) op" where
  "consume_tx scope stream_id recipient now = tx (\<lambda>s.
     case pending_messages s stream_id recipient of
       [] \<Rightarrow> (Ok None, s)
     | mid # _ \<Rightarrow>
         (case dict_get (co_mailbox s) mid of
            None \<Rightarrow> (Ok None, s)
          | Some m \<Rightarrow>
              if ml_scope_id m \<noteq> scope then (raise ''ACL_DENIED'' ''message scope does not match'', s)
              else (Ok (Some (\<lparr>mm_message_id = mid, mm_sender = ml_sender m, mm_payload_digest = ml_payload_digest m\<rparr>,
                  now > ml_expires_at m)),
                s\<lparr>co_mailbox := dict_set mid (m\<lparr>ml_consumed := True\<rparr>) (co_mailbox s)\<rparr>)))"

definition consume :: "string \<Rightarrow> string \<Rightarrow> string \<Rightarrow> int \<Rightarrow> (Board, MailboxMessage option) op" where
  "consume scope stream_id recipient now =
     obind (consume_tx scope stream_id recipient now) (\<lambda>got.
       case got of
         None \<Rightarrow> oret None
       | Some (m, expired) \<Rightarrow> if expired then olift (raise ''MESSAGE_EXPIRED'' (mm_message_id m)) else oret (Some m))"

definition journal_store ::
  "string \<Rightarrow> string \<Rightarrow> string \<Rightarrow> string \<Rightarrow> string \<Rightarrow> string \<Rightarrow> int \<Rightarrow> (Board, unit) op"
where
  "journal_store stream_id node_id snapshot_digest input_digest result_digest status now =
     tx (oput (\<lambda>s. s\<lparr>co_journal :=
       dict_set (stream_id, node_id, snapshot_digest, input_digest) (result_digest, status, now) (co_journal s)\<rparr>))"

definition journal_lookup :: "Board \<Rightarrow> string \<Rightarrow> string \<Rightarrow> string \<Rightarrow> string \<Rightarrow> string option" where
  "journal_lookup s stream_id node_id snapshot_digest input_digest =
     map_option fst (dict_get (co_journal s) (stream_id, node_id, snapshot_digest, input_digest))"

definition claim_worktree :: "string \<Rightarrow> string \<Rightarrow> string \<Rightarrow> string \<Rightarrow> string \<Rightarrow> string \<Rightarrow> int \<Rightarrow> (Board, unit) op" where
  "claim_worktree scope stream_id task_id lease_id path baseline_digest generation =
     tx (obind (on_ledger (read_scoped_entity scope stream_id)) (\<lambda>_ s.
       if lease_id \<in> set (dict_keys (co_worktrees s)) then (integrity_error, s)
       else (Ok (), s\<lparr>co_worktrees := dict_set lease_id \<lparr>wt_stream_id = stream_id, wt_task_id = task_id,
         wt_generation = generation, wt_path = path, wt_baseline_digest = baseline_digest, wt_active = True\<rparr>
         (co_worktrees s)\<rparr>)))"

text \<open>\<open>os.path.normpath\<close>\<close>

fun norm_parts :: "bool \<Rightarrow> string list \<Rightarrow> string list \<Rightarrow> string list" where
  "norm_parts rooted acc [] = rev acc"
| "norm_parts rooted acc (c # cs) =
     (if c \<in> {'''', ''.''} then norm_parts rooted acc cs
      else if c \<noteq> ''..'' \<or> (\<not> rooted \<and> acc = []) \<or> (acc \<noteq> [] \<and> hd acc = ''..'') then norm_parts rooted (c # acc) cs
      else norm_parts rooted (tl acc) cs)"

definition initial_slashes :: "string \<Rightarrow> nat" where
  "initial_slashes p = (if take 1 p \<noteq> ''/'' then 0 else if take 2 p = ''//'' \<and> take 3 p \<noteq> ''///'' then 2 else 1)"

definition normpath :: "string \<Rightarrow> string" where
  "normpath p =
     (if p = [] then ''.''
      else
        let r = replicate (initial_slashes p) (CHR ''/'') @
          py_join ''/'' (norm_parts (initial_slashes p > 0) [] (split_on (CHR ''/'') p)) in
        if r = [] then ''.'' else r)"

definition starts_with :: "string \<Rightarrow> string \<Rightarrow> bool" where
  "starts_with p s \<longleftrightarrow> take (length p) s = p"

text \<open>\<open>os.path.relpath(target, root).split(os.sep)\<close> for a normalized target that is the root or begins with it.\<close>

definition rel_parts :: "string \<Rightarrow> string \<Rightarrow> string list" where
  "rel_parts root target =
     (let rest = drop (length root + 1) target in if rest = [] then [''.''] else split_on (CHR ''/'') rest)"

definition check_worktree_access :: "Board \<Rightarrow> string \<Rightarrow> string \<Rightarrow> unit result" where
  "check_worktree_access s lease_id path =
     (case dict_get (co_worktrees s) lease_id of
        None \<Rightarrow> raise ''LEASE_LOST'' lease_id
      | Some row \<Rightarrow>
          if \<not> wt_active row then raise ''LEASE_LOST'' lease_id
          else
            let root = normpath (wt_path row); target = normpath path in
            if \<not> starts_with (root @ ''/'') target \<and> target \<noteq> root
            then raise ''ACL_DENIED'' (path @ '' escapes lease root '' @ root)
            else if ''.git'' \<in> set (rel_parts root target)
            then raise ''ACL_DENIED'' ''lease may not touch .git internals''
            else Ok ())"

definition cleanup_worktree :: "string \<Rightarrow> string \<Rightarrow> (Board, string) op" where
  "cleanup_worktree lease_id current_digest = tx (\<lambda>s.
     case dict_get (co_worktrees s) lease_id of
       None \<Rightarrow> (raise ''TASK_UNKNOWN'' lease_id, s)
     | Some row \<Rightarrow>
         if \<not> wt_active row then (raise ''LEASE_LOST'' lease_id, s)
         else (Ok (if wt_baseline_digest row \<noteq> current_digest then ''conflict_preserved'' else ''cleaned''),
           s\<lparr>co_worktrees := dict_set lease_id (row\<lparr>wt_active := False\<rparr>) (co_worktrees s)\<rparr>))"

section \<open>The budget\<close>

definition budget_ok :: "ScopeBudget \<Rightarrow> bool" where
  "budget_ok b \<longleftrightarrow> 0 \<le> sb_reserved b \<and> sb_reserved b \<le> sb_cap b \<and> 0 \<le> sb_unknown_liability b"

text \<open>The budget calls of a scope whose settlements are for amounts still reserved.\<close>

inductive budget_run :: "string \<Rightarrow> Board \<Rightarrow> Board \<Rightarrow> bool" for scope s where
  start: "budget_run scope s s"
| reserve: "budget_run scope s t \<Longrightarrow> reserve_budget scope n t = (r, u) \<Longrightarrow> budget_run scope s u"
| settle: "budget_run scope s t \<Longrightarrow> settle_budget scope n used t = (r, u) \<Longrightarrow> 0 \<le> n \<Longrightarrow>
    (\<And>b. dict_get (co_budgets t) scope = Some b \<Longrightarrow> n \<le> sb_reserved b) \<Longrightarrow> budget_run scope s u"

lemma reserve_budget_Ok: "reserve_budget scope n s = (Inr (), t) \<longleftrightarrow>
    (\<exists>b. dict_get (co_budgets s) scope = Some b \<and> 0 < n \<and> sb_unknown_liability b = 0 \<and> sb_reserved b + n \<le> sb_cap b \<and>
      t = s\<lparr>co_budgets := dict_set scope (b\<lparr>sb_reserved := sb_reserved b + n\<rparr>) (co_budgets s)\<rparr>)"
  by (auto simp: reserve_budget_def tx_Ok_iff split: option.splits if_splits)

lemma reserve_budget_err: "reserve_budget scope n s = (Inl e, t) \<Longrightarrow> t = s"
  by (auto simp: reserve_budget_def dest: tx_err_unchanged split: if_splits)


text \<open>What was spent does not count against the cap.\<close>

lemma spent_exceeds_cap:
  "let s = snd (set_budget ''sc'' 10 team_board);
       once = (\<lambda>s. snd (settle_budget ''sc'' 10 (Some 10) (snd (reserve_budget ''sc'' 10 s)))) in
   map_option sb_spent (dict_get (co_budgets (once (once s))) ''sc'') = Some 20"
  by code_simp

text \<open>Settling more than is reserved makes room beyond the cap.\<close>

lemma oversettled_budget:
  "let s = snd (settle_budget ''sc'' 10 (Some 0) (snd (set_budget ''sc'' 10 team_board))) in
   fst (reserve_budget ''sc'' 20 s) = Inr ()"
  by code_simp


section \<open>The mailbox delivers once\<close>

inductive mail_run :: "Board \<Rightarrow> (string \<times> string \<times> string) list \<Rightarrow> Board \<Rightarrow> bool" for s where
  opened: "mail_run s [] s"
| sent: "mail_run s ds t \<Longrightarrow> send_message sc st mid snd' rcp d g ex t = (r, u) \<Longrightarrow> mail_run s ds u"
| delivered: "mail_run s ds t \<Longrightarrow> consume sc st rcp now t = (Inr (Some m), u) \<Longrightarrow>
    mail_run s (ds @ [(mm_message_id m, sc, rcp)]) u"
| empty: "mail_run s ds t \<Longrightarrow> consume sc st rcp now t = (Inr None, u) \<Longrightarrow> mail_run s ds u"
| refused: "mail_run s ds t \<Longrightarrow> consume sc st rcp now t = (Inl e, u) \<Longrightarrow> mail_run s ds u"

lemma consume_cases:
  assumes "consume sc st rcp now s = (r, t)" "dict_wf (co_mailbox s)"
  obtains (nothing) e where "t = s" "r \<in> {Inl e, Inr None}"
  | (taken) mid m where "dict_get (co_mailbox s) mid = Some m" "\<not> ml_consumed m" "ml_recipient m = rcp" "ml_scope_id m = sc"
      "ml_stream_id m = st" "t = s\<lparr>co_mailbox := dict_set mid (m\<lparr>ml_consumed := True\<rparr>) (co_mailbox s)\<rparr>"
      "r = (if now > ml_expires_at m then raise ''MESSAGE_EXPIRED'' mid
            else Inr (Some \<lparr>mm_message_id = mid, mm_sender = ml_sender m, mm_payload_digest = ml_payload_digest m\<rparr>))"
proof (cases "pending_messages s st rcp")
  case Nil
  with assms(1) have same: "t = s" and "r = Inr None"
    by (auto simp: consume_def consume_tx_def tx_def obind_def)
  then have "r \<in> {Inl undefined, Inr None}" by simp
  with same show thesis by (rule nothing)
next
  case (Cons mid rest)
  then have "mid \<in> set (pending_messages s st rcp)" by simp
  then obtain m where "(mid, m) \<in> set (co_mailbox s)" and m: "ml_stream_id m = st" "ml_recipient m = rcp" "\<not> ml_consumed m"
    by (auto simp: pending_messages_def)
  with assms(2) have get: "dict_get (co_mailbox s) mid = Some m" by simp
  show thesis
  proof (cases "ml_scope_id m = sc")
    case False
    with assms(1) Cons get obtain e where same: "t = s" and "r \<in> {Inl e, Inr None}"
      by (auto simp: consume_def consume_tx_def tx_def obind_def raise_def)
    then show thesis by (rule nothing)
  next
    case True
    with assms(1) Cons get have taken_now:
      "t = s\<lparr>co_mailbox := dict_set mid (m\<lparr>ml_consumed := True\<rparr>) (co_mailbox s)\<rparr>"
      "r = (if now > ml_expires_at m then raise ''MESSAGE_EXPIRED'' mid
        else Inr (Some \<lparr>mm_message_id = mid, mm_sender = ml_sender m, mm_payload_digest = ml_payload_digest m\<rparr>))"
      by (auto simp: consume_def consume_tx_def tx_def obind_def split: if_splits)
    show thesis by (rule taken [OF get m(3,2) True m(1) taken_now])
  qed
qed

lemma send_message_cases:
  assumes "send_message sc st mid snd' rcp d g ex t = (r, u)"
  shows "u = t \<or> (dict_get (co_mailbox t) mid = None \<and> (\<exists>m. u = t\<lparr>co_mailbox := dict_set mid m (co_mailbox t)\<rparr>))"
  using assms by (auto simp: send_message_def tx_def raise_def dict_get_None_iff simp del: set_map split: if_splits)

text \<open>What was delivered is marked, and marked once.\<close>

definition mail_ok :: "(string \<times> MailRow) list \<Rightarrow> (string \<times> string \<times> string) list \<Rightarrow> bool" where
  "mail_ok mb ds \<longleftrightarrow> dict_wf mb \<and> distinct (map fst ds) \<and>
    (\<forall>d \<in> set ds. \<exists>m. dict_get mb (fst d) = Some m \<and> ml_consumed m \<and>
       ml_scope_id m = fst (snd d) \<and> ml_recipient m = snd (snd d))"

lemma mail_okD: "mail_ok mb ds \<Longrightarrow> d \<in> set ds \<Longrightarrow> \<exists>m. dict_get mb (fst d) = Some m \<and> ml_consumed m \<and>
    ml_scope_id m = fst (snd d) \<and> ml_recipient m = snd (snd d)"
  unfolding mail_ok_def by blast

lemma mail_ok_update:
  assumes "mail_ok mb ds" "\<And>d. d \<in> set ds \<Longrightarrow> fst d \<noteq> mid"
  shows "mail_ok (dict_set mid m mb) ds"
proof -
  have "\<exists>x. dict_get (dict_set mid m mb) (fst d) = Some x \<and> ml_consumed x \<and>
      ml_scope_id x = fst (snd d) \<and> ml_recipient x = snd (snd d)" if "d \<in> set ds" for d
    using mail_okD [OF assms(1) that] assms(2) [OF that] by simp
  with assms(1) show ?thesis by (simp add: mail_ok_def distinct_update)
qed

lemma mail_ok_new:
  assumes "mail_ok mb ds" "dict_get mb mid = None"
  shows "mail_ok (dict_set mid m mb) ds"
  using assms(1)
proof (rule mail_ok_update)
  fix d assume "d \<in> set ds"
  from mail_okD [OF assms(1) this] assms(2) show "fst d \<noteq> mid" by auto
qed

lemma mail_ok_marked:
  assumes "mail_ok mb ds" "dict_get mb mid = Some m" "\<not> ml_consumed m"
  shows "mail_ok (dict_set mid (m\<lparr>ml_consumed := True\<rparr>) mb) ds" "mid \<notin> fst ` set ds"
proof -
  have apart: "fst d \<noteq> mid" if "d \<in> set ds" for d
    using mail_okD [OF assms(1) that] assms(2,3) by auto
  with assms(1) show "mail_ok (dict_set mid (m\<lparr>ml_consumed := True\<rparr>) mb) ds" by (rule mail_ok_update)
  from apart show "mid \<notin> fst ` set ds" by auto
qed

lemma mail_ok_delivered:
  assumes "mail_ok mb ds" "dict_get mb mid = Some m" "\<not> ml_consumed m"
  shows "mail_ok (dict_set mid (m\<lparr>ml_consumed := True\<rparr>) mb) (ds @ [(mid, ml_scope_id m, ml_recipient m)])"
  using mail_ok_marked [OF assms] by (simp add: mail_ok_def)

lemma mail_run_ok:
  assumes "mail_run s ds t" "co_mailbox s = []"
  shows "mail_ok (co_mailbox t) ds"
  using assms
proof (induction rule: mail_run.induct)
  case opened
  then show ?case by (simp add: mail_ok_def)
next
  case (sent ds t sc st mid snd' rcp d g ex r u)
  note known = sent.IH [OF sent.prems]
  from send_message_cases [OF sent.hyps(2)] show ?case
    using known mail_ok_new [OF known] by auto
next
  case (delivered ds t sc st rcp now m u)
  note known = delivered.IH [OF delivered.prems]
  then have "dict_wf (co_mailbox t)" by (simp add: mail_ok_def)
  with delivered.hyps(2) show ?case
  proof (cases rule: consume_cases)
    case (taken mid x)
    from taken(7) have "mm_message_id m = mid" by (simp add: raise_def split: if_splits)
    with mail_ok_delivered [OF known taken(1,2)] taken(3,4,6) show ?thesis by simp
  qed simp
next
  case (empty ds t sc st rcp now u)
  note known = empty.IH [OF empty.prems]
  then have "dict_wf (co_mailbox t)" by (simp add: mail_ok_def)
  with empty.hyps(2) show ?case
  proof (cases rule: consume_cases)
    case (taken mid x)
    from mail_ok_marked(1) [OF known taken(1,2)] taken(6) show ?thesis by simp
  qed (use known in simp)
next
  case (refused ds t sc st rcp now e u)
  note known = refused.IH [OF refused.prems]
  then have "dict_wf (co_mailbox t)" by (simp add: mail_ok_def)
  with refused.hyps(2) show ?case
  proof (cases rule: consume_cases)
    case (taken mid x)
    from mail_ok_marked(1) [OF known taken(1,2)] taken(6) show ?thesis by simp
  qed (use known in simp)
qed

text \<open>
  Claim C23. The mailbox delivers each message at most once, and only to its recipient in its scope: whatever
  is sent and consumed, by whom and in whatever order, no message id is delivered twice, and a delivered
  message is one stored for that recipient and scope, marked consumed.
\<close>

theorem message_once:
  assumes "mail_run s ds t" "co_mailbox s = []"
  shows "distinct (map fst ds) \<and>
    (\<forall>(mid, sc, rcp) \<in> set ds. \<exists>m. dict_get (co_mailbox t) mid = Some m \<and> ml_consumed m \<and>
       ml_scope_id m = sc \<and> ml_recipient m = rcp)"
  using mail_run_ok [OF assms] unfolding mail_ok_def case_prod_unfold by blast

definition sample_mail :: Board where
  "sample_mail = snd (send_message ''sc'' ''s1'' ''m1'' ''a'' ''b'' ''d'' 0 10 team_board)"

lemma sample_consumed:
  "case consume ''sc'' ''s1'' ''b'' 5 sample_mail of (Inr (Some m), t) \<Rightarrow> mm_message_id m = ''m1'' | _ \<Rightarrow> False"
  by code_simp

lemma message_once_witness:
  "\<exists>m. dict_get (co_mailbox (snd (consume ''sc'' ''s1'' ''b'' 5 sample_mail))) ''m1'' = Some m \<and> ml_consumed m"
proof -
  obtain m t where m: "consume ''sc'' ''s1'' ''b'' 5 sample_mail = (Inr (Some m), t)" "mm_message_id m = ''m1''"
    using sample_consumed by (cases "consume ''sc'' ''s1'' ''b'' 5 sample_mail") (auto split: sum.splits option.splits)
  have "mail_run team_board [] sample_mail"
    unfolding sample_mail_def by (rule sent [OF opened prod.collapse [symmetric]])
  from delivered [OF this m(1)] have run: "mail_run team_board [(''m1'', ''sc'', ''b'')] t" by (simp add: m(2))
  have "co_mailbox team_board = []" by (simp add: team_board_def)
  from message_once [OF run this] show ?thesis unfolding m(1) by auto
qed

text \<open>
  A message of another scope at the front of a recipient's queue blocks it: every consume is refused and the
  message stays.
\<close>

lemma foreign_message_blocks:
  "let s = snd (send_message ''sc'' ''s1'' ''m2'' ''a'' ''b'' ''d'' 0 10
       (snd (send_message ''other'' ''s1'' ''m1'' ''x'' ''b'' ''d'' 0 10 team_board))) in
   fails_with ''ACL_DENIED'' (fst (consume ''sc'' ''s1'' ''b'' 5 s)) \<and> snd (consume ''sc'' ''s1'' ''b'' 5 s) = s"
  by code_simp

text \<open>The journal answers with the stored result whatever its status.\<close>

lemma journal_ignores_status:
  "journal_lookup (snd (journal_store st n sd i d ''failed'' now s)) st n sd i = Some d"
  by (simp add: journal_store_def journal_lookup_def tx_def)

section \<open>Worktree leases\<close>

lemma split_on_app: "split_on c (a @ c # b) = split_on c a @ split_on c b"
proof (induction a)
  case (Cons x a)
  then show ?case using split_on_nonempty [of c a] by (cases "split_on c a") auto
qed simp

lemma norm_parts_sub: "set (norm_parts rooted acc cs) \<subseteq> set acc \<union> (set cs - {'''', ''.''})"
proof (induction rooted acc cs rule: norm_parts.induct)
  case (2 rooted acc c cs)
  have tl: "set (tl acc) \<subseteq> set acc" by (cases acc) auto
  show ?case
  proof (cases "c \<in> {'''', ''.''}")
    case True
    then have "norm_parts rooted acc (c # cs) = norm_parts rooted acc cs" by (simp only: norm_parts.simps if_True)
    with 2(1) [OF True] show ?thesis by auto
  next
    case False
    show ?thesis
    proof (cases "c \<noteq> ''..'' \<or> (\<not> rooted \<and> acc = []) \<or> (acc \<noteq> [] \<and> hd acc = ''..'')")
      case True
      then have "norm_parts rooted acc (c # cs) = norm_parts rooted (c # acc) cs"
        using False by (simp only: norm_parts.simps if_True if_False)
      with 2(2) [OF False True] False show ?thesis by auto
    next
      case up: False
      then have "norm_parts rooted acc (c # cs) = norm_parts rooted (tl acc) cs"
        using False by (simp only: norm_parts.simps if_False)
      with 2(3) [OF False up] tl show ?thesis by auto
    qed
  qed
qed simp

lemma norm_parts_rooted: "''..'' \<notin> set acc \<Longrightarrow> ''..'' \<notin> set (norm_parts True acc cs)"
proof (induction "True" acc cs rule: norm_parts.induct)
  case (2 acc c cs)
  have "''..'' \<notin> set (tl acc)" using 2(4) by (cases acc) auto
  moreover have "acc \<noteq> [] \<Longrightarrow> hd acc \<noteq> ''..''" using 2(4) by (cases acc) auto
  ultimately show ?case using 2 by auto
qed simp

lemma norm_parts_relative:
  "take 1 (py_join ''/'' (norm_parts rooted [] (split_on (CHR ''/'') p))) \<noteq> ''/''"
  using norm_parts_sub [of rooted "[]" "split_on (CHR ''/'') p"]
proof (cases "norm_parts rooted [] (split_on (CHR ''/'') p) = []")
  case False
  have "\<forall>w \<in> set (norm_parts rooted [] (split_on (CHR ''/'') p)). w \<noteq> [] \<and> CHR ''/'' \<notin> set w"
    using norm_parts_sub [of rooted "[]" "split_on (CHR ''/'') p"] split_on_no_sep by fastforce
  with False show ?thesis by (rule py_join_relative)
qed simp

lemma split_slashes: "split_on c (replicate n c @ s) = replicate n [] @ split_on c s"
  by (induction n) auto

lemma normpath_absolute:
  assumes "take 1 (normpath p) = ''/''"
  shows "''..'' \<notin> set (split_on (CHR ''/'') (normpath p))"
proof -
  let ?parts = "norm_parts (initial_slashes p > 0) [] (split_on (CHR ''/'') p)"
  let ?joined = "py_join ''/'' ?parts"
  have rooted: "initial_slashes p > 0"
  proof (rule ccontr)
    assume "\<not> initial_slashes p > 0"
    with assms norm_parts_relative [of False p] show False by (auto simp: normpath_def Let_def split: if_splits)
  qed
  then have norm: "normpath p = replicate (initial_slashes p) (CHR ''/'') @ ?joined"
    by (auto simp: normpath_def Let_def initial_slashes_def)
  have "''..'' \<notin> set ?parts" using rooted norm_parts_rooted [of "[]"] by simp
  moreover have "\<forall>w \<in> set ?parts. CHR ''/'' \<notin> set w"
    using norm_parts_sub [of _ "[]" "split_on (CHR ''/'') p"] by (auto dest: split_on_no_sep)
  ultimately have "''..'' \<notin> set (split_on (CHR ''/'') ?joined)"
    by (cases "?parts = []") (simp_all add: split_join)
  then show ?thesis unfolding norm split_slashes by auto
qed

lemma normpath_absolute_iff: "take 1 p = ''/'' \<Longrightarrow> take 1 (normpath p) = ''/''"
  by (cases p) (auto simp: normpath_def Let_def initial_slashes_def)

lemma starts_with_iff: "starts_with p s \<longleftrightarrow> (\<exists>r. s = p @ r)"
  unfolding starts_with_def by (metis append_eq_conv_conj append_take_drop_id)

lemma rel_parts_under: "rel_parts root (root @ CHR ''/'' # rest) =
    (if rest = [] then [''.''] else split_on (CHR ''/'') rest)"
  by (simp add: rel_parts_def Let_def)

text \<open>
  The worktree boundary is exact: with an active lease of an absolute root, an access is let
  through exactly when the normalized path is the normalized root or lies below it with no step up and no
  name \<open>.git\<close> on the way down; no spelling of the path escapes.
\<close>

theorem worktree_contained:
  assumes "take 1 (wt_path row) = ''/''" "dict_get (co_worktrees s) lease = Some row"
  shows "check_worktree_access s lease path = Inr () \<longleftrightarrow>
    wt_active row \<and> (normpath path = normpath (wt_path row) \<or>
      (\<exists>rest. normpath path = normpath (wt_path row) @ ''/'' @ rest \<and>
        {''..'', ''.git''} \<inter> set (split_on (CHR ''/'') rest) = {}))"
proof -
  let ?root = "normpath (wt_path row)"
  have root: "take 1 ?root = ''/''" by (rule normpath_absolute_iff [OF assms(1)])
  have up: "''..'' \<notin> set (split_on (CHR ''/'') rest)" if "normpath path = ?root @ CHR ''/'' # rest" for rest
  proof -
    from that root have "take 1 (normpath path) = ''/''" by (cases ?root) auto
    from normpath_absolute [OF this] show ?thesis unfolding that split_on_app by simp
  qed
  have same: "''.git'' \<notin> set (rel_parts ?root ?root)" by (simp add: rel_parts_def)
  show ?thesis
    using same up unfolding check_worktree_access_def starts_with_iff assms(2)
    by (auto simp: Let_def raise_def rel_parts_under split: if_splits)
qed

definition team_tree :: Board where
  "team_tree = snd (claim_worktree ''sc'' ''s1'' ''t1'' ''w1'' ''/work/a'' ''d'' 1 team_board)"

lemma team_tree_accesses:
  "fails_with ''ACL_DENIED'' (check_worktree_access team_tree ''w1'' ''/work/a/../b/m.py'') \<and>
   fails_with ''ACL_DENIED'' (check_worktree_access team_tree ''w1'' ''/work/a/x/../.git/config'')"
  by code_simp

lemma worktree_contained_witness:
  "check_worktree_access team_tree ''w1'' ''/work/a/x/../src/./m.py'' = Inr ()"
proof -
  let ?row = "\<lparr>wt_stream_id = ''s1'', wt_task_id = ''t1'', wt_generation = 1, wt_path = ''/work/a'',
    wt_baseline_digest = ''d'', wt_active = True\<rparr>"
  have row: "take 1 (wt_path ?row) = ''/''" "dict_get (co_worktrees team_tree) ''w1'' = Some ?row" by code_simp+
  have "normpath ''/work/a/x/../src/./m.py'' = normpath (wt_path ?row) @ ''/'' @ ''src/m.py''" by code_simp
  moreover have "{''..'', ''.git''} \<inter> set (split_on (CHR ''/'') ''src/m.py'') = {}" by code_simp
  ultimately show ?thesis
    unfolding worktree_contained [OF row] by (metis CoordTask.select_convs(1) WorktreeRow.select_convs(6))
qed

text \<open>A lease of a relative root above the working directory contains nothing: its parent is let through.\<close>

lemma worktree_escape:
  "let s = snd (claim_worktree ''sc'' ''s1'' ''t1'' ''w1'' ''..'' ''d'' 1 team_board) in
   check_worktree_access s ''w1'' ''../../x'' = Inr ()"
  by code_simp

end
