(* ===== verification/Execution.thy ===== *)
theory Execution
  imports Outbox
begin

text \<open>
  \<open>workflow/execution.py\<close>, the attempt runner: a job is enqueued and leased before the worker runs, and
  settled by what the worker reports. The worker port is a parameter: it may return an outcome, time out or
  raise, and while it runs other processes may make any calls on the ledger. \<open>SELECT\<close> without
  \<open>ORDER BY\<close> returns the rows in insertion order.
\<close>

section \<open>Operations\<close>

definition WORK_OUTCOMES :: "string set" where
  "WORK_OUTCOMES = {''completed'', ''failed'', ''unknown''}"

record WorkOutcome =
  wo_status :: string
  wo_result_ref :: string
  wo_postimage_digest :: "string option"
  wo_usage_units :: int
  wo_detail :: string

record AttemptReceipt =
  at_attempt_id :: string
  at_job_id :: string
  at_outcome :: string
  at_result_ref :: string
  at_postimage_digest :: "string option"
  at_usage_units :: int
  at_detail :: string

record CancelReport =
  cr_stream_id :: string
  cr_state :: string
  cr_cancelled :: "string list"
  cr_unknown :: "string list"
  cr_partial_results :: "string list"

record AttemptRunner =
  ru_repo :: Ledger
  ru_scope :: string
  ru_attempts :: "(string, string) dict"
  ru_seq :: nat

definition new_runner :: "Ledger \<Rightarrow> string \<Rightarrow> AttemptRunner" where
  "new_runner repo scope_id = \<lparr>ru_repo = repo, ru_scope = scope_id, ru_attempts = [], ru_seq = 0\<rparr>"

text \<open>A call on the ledger of the runner.\<close>

definition on_repo :: "(Ledger, 'a) op \<Rightarrow> (AttemptRunner, 'a) op" where
  "on_repo m r = (case m (ru_repo r) of (x, s) \<Rightarrow> (x, r\<lparr>ru_repo := s\<rparr>))"

text \<open>How a worker ends.\<close>

datatype work_end = Reported WorkOutcome | TimedOut string | Raised exn

type_synonym worker = "string \<Rightarrow> Ledger \<Rightarrow> work_end \<times> Ledger"

definition run_state :: "Ledger \<Rightarrow> string \<Rightarrow> string" where
  "run_state s stream_id =
     (case dict_get (lg_cancellations s) stream_id of None \<Rightarrow> ''active'' | Some row \<Rightarrow> snd row)"

definition require_dispatchable :: "string \<Rightarrow> (Ledger, unit) op" where
  "require_dispatchable stream_id s =
     (if run_state s stream_id \<noteq> ''active''
      then (raise ''RUN_CANCELLED'' ''stream is reconciling a cancel; no new dispatch'', s) else (Ok (), s))"

definition settle_attempt :: "string \<Rightarrow> string \<Rightarrow> int \<Rightarrow> WorkOutcome \<Rightarrow> (Ledger, string) op" where
  "settle_attempt job_id owner fence outcome =
     (if wo_status outcome = ''unknown'' then
        obind (record_usage job_id (wo_usage_units outcome)) (\<lambda>_.
        obind (mark_job_unknown job_id) (\<lambda>_. oret ''unknown''))
      else if wo_status outcome = ''failed'' then
        obind (fail_job job_id owner fence (wo_usage_units outcome)) (\<lambda>state.
        oret (if state = ''recorded'' then ''failed'' else ''stale''))
      else
        obind (submit_result job_id owner fence (wo_usage_units outcome)) (\<lambda>state.
        oret (if state = ''applied'' then ''completed'' else ''stale'')))"

definition invoke_worker :: "worker \<Rightarrow> string \<Rightarrow> (Ledger, WorkOutcome) op" where
  "invoke_worker worker task_id s =
     (case worker task_id s of
        (Reported outcome, t) \<Rightarrow> (Ok outcome, t)
      | (TimedOut detail, t) \<Rightarrow> (Ok \<lparr>wo_status = ''unknown'', wo_result_ref = [], wo_postimage_digest = None,
          wo_usage_units = 0, wo_detail = detail\<rparr>, t)
      | (Raised e, t) \<Rightarrow> (Inl e, t))"

definition perform_attempt :: "worker \<Rightarrow> string \<Rightarrow> string \<Rightarrow> string \<Rightarrow> int \<Rightarrow> (Ledger, AttemptReceipt) op" where
  "perform_attempt worker task_id attempt_id job_id fence =
     obind (invoke_worker worker task_id) (\<lambda>outcome.
       if wo_status outcome \<notin> WORK_OUTCOMES then olift (raise ''INVALID_OUTCOME'' (wo_status outcome))
       else obind (settle_attempt job_id attempt_id fence outcome) (\<lambda>settled.
         oret \<lparr>at_attempt_id = attempt_id, at_job_id = job_id, at_outcome = settled,
           at_result_ref = wo_result_ref outcome, at_postimage_digest = wo_postimage_digest outcome,
           at_usage_units = wo_usage_units outcome, at_detail = wo_detail outcome\<rparr>))"

definition lease_attempt ::
  "hash_env \<Rightarrow> string \<Rightarrow> string \<Rightarrow> string \<Rightarrow> string \<Rightarrow> int \<Rightarrow> int \<Rightarrow> (Ledger, Lease) op"
where
  "lease_attempt H scope_id stream_id task_id attempt_id now lease_ttl =
     obind (read_scoped_entity scope_id stream_id) (\<lambda>revision.
     obind (execute_command H scope_id ''attempt_runner'' ''run_work'' attempt_id
       [(''task_id'', PStr task_id), (''attempt'', PStr attempt_id)] stream_id revision True ''cli'' None) (\<lambda>receipt.
     obind (claim_job scope_id (rc_event_id receipt) attempt_id now lease_ttl) (\<lambda>lease.
       case lease of None \<Rightarrow> olift (raise ''LEASE_LOST'' ''job not claimable'') | Some l \<Rightarrow> oret l)))"

definition retry_blocked :: "AttemptRunner \<Rightarrow> string \<Rightarrow> bool" where
  "retry_blocked r task_id \<longleftrightarrow>
     (case dict_get (ru_attempts r) task_id of None \<Rightarrow> False | Some prior \<Rightarrow> job_state (ru_repo r) prior = ''unknown'')"

definition start_attempt :: "hash_env \<Rightarrow> string \<Rightarrow> string \<Rightarrow> int \<Rightarrow> int \<Rightarrow> (AttemptRunner, string \<times> Lease) op" where
  "start_attempt H stream_id task_id now lease_ttl =
     obind (oput (\<lambda>r. r\<lparr>ru_seq := ru_seq r + 1\<rparr>)) (\<lambda>_.
     obind oget (\<lambda>r.
       let attempt_id = task_id @ ''-a'' @ str_int (int (ru_seq r)) in
       obind (on_repo (lease_attempt H (ru_scope r) stream_id task_id attempt_id now lease_ttl)) (\<lambda>lease.
       obind (oput (\<lambda>r. r\<lparr>ru_attempts := dict_set task_id (ls_job_id lease) (ru_attempts r)\<rparr>)) (\<lambda>_.
       obind (on_repo (audit stream_id (''run_started task='' @ task_id @ '' job='' @ ls_job_id lease))) (\<lambda>_.
       oret (attempt_id, lease))))))"

definition run_work :: "hash_env \<Rightarrow> worker \<Rightarrow> string \<Rightarrow> string \<Rightarrow> int \<Rightarrow> int \<Rightarrow> (AttemptRunner, AttemptReceipt) op" where
  "run_work H worker stream_id task_id now lease_ttl =
     obind (on_repo (require_dispatchable stream_id)) (\<lambda>_.
     obind oget (\<lambda>r.
       if retry_blocked r task_id
       then olift (raise ''UNKNOWN_OUTCOME'' (task_id @ '' outcome unknown; reconcile before retry''))
       else obind (start_attempt H stream_id task_id now lease_ttl) (\<lambda>(attempt_id, lease).
         on_repo (perform_attempt worker task_id attempt_id (ls_job_id lease) (ls_fence lease)))))"

text \<open>The jobs of a stream in the given states, by the join of the outbox and the events.\<close>

definition stream_jobs :: "Ledger \<Rightarrow> string \<Rightarrow> string \<Rightarrow> string list \<Rightarrow> (string \<times> string) list" where
  "stream_jobs s scope_id stream_id states =
     [(k, jb_state j). (k, j) \<leftarrow> lg_outbox s, jb_scope_id j = scope_id \<and> jb_state j \<in> set states \<and>
        (\<exists>e \<in> set (lg_events s). ev_event_id e = k \<and> ev_stream_id e = stream_id)]"

fun recover_jobs :: "string \<Rightarrow> string list \<Rightarrow> (Ledger, unit) op" where
  "recover_jobs stream_id [] = oret ()"
| "recover_jobs stream_id (job_id # rest) =
     obind (mark_job_unknown job_id) (\<lambda>_.
     obind (audit stream_id (''recover_unknown job='' @ job_id @ '' reason=restart'')) (\<lambda>_.
     recover_jobs stream_id rest))"

definition recover_inflight :: "string \<Rightarrow> (AttemptRunner, string list) op" where
  "recover_inflight stream_id =
     obind oget (\<lambda>r.
       let rows = map fst (stream_jobs (ru_repo r) (ru_scope r) stream_id [''leased'']) in
       obind (on_repo (recover_jobs stream_id rows)) (\<lambda>_. oret rows))"

definition reconcile_attempt :: "string \<Rightarrow> string \<Rightarrow> (AttemptRunner, string) op" where
  "reconcile_attempt job_id disposition = on_repo (reconcile_unknown job_id disposition)"

definition cancel_jobs :: "(string \<times> string) list \<Rightarrow> Ledger \<Rightarrow> Ledger" where
  "cancel_jobs rows s = fold (\<lambda>(job_id, state).
     set_job job_id (jb_state_update (\<lambda>_. if state = ''pending'' then ''cancelled'' else ''unknown''))) rows s"

definition cancel_tx ::
  "string \<Rightarrow> string \<Rightarrow> int \<Rightarrow> (Ledger, string list \<times> string list \<times> string list) op"
where
  "cancel_tx scope_id stream_id generation = tx (obind (read_scoped_entity scope_id stream_id) (\<lambda>_ s.
     let rows = stream_jobs s scope_id stream_id [''pending'', ''leased''];
         t = cancel_jobs rows s;
         u = t\<lparr>lg_cancellations := dict_set stream_id (generation, ''reconciling'') (lg_cancellations t)\<rparr> in
     (Ok (map fst [p \<leftarrow> rows. snd p = ''pending''], map fst [p \<leftarrow> rows. snd p \<noteq> ''pending''],
          map fst (stream_jobs u scope_id stream_id [''completed''])), u)))"

definition cancel_run :: "string \<Rightarrow> int \<Rightarrow> (AttemptRunner, CancelReport) op" where
  "cancel_run stream_id generation =
     obind oget (\<lambda>r.
     obind (on_repo (cancel_tx (ru_scope r) stream_id generation)) (\<lambda>(cancelled, unknown, partial).
     obind (on_repo (audit stream_id (''cancel_run cancelled='' @ str_int (int (length cancelled)) @
       '' unknown='' @ str_int (int (length unknown))))) (\<lambda>_.
     oret \<lparr>cr_stream_id = stream_id, cr_state = ''reconciling'', cr_cancelled = sort cancelled,
       cr_unknown = sort unknown, cr_partial_results = sort partial\<rparr>)))"

definition mark_reconciled :: "string \<Rightarrow> (AttemptRunner, unit) op" where
  "mark_reconciled stream_id =
     obind oget (\<lambda>r.
       let rows = stream_jobs (ru_repo r) (ru_scope r) stream_id [''unknown''] in
       if rows \<noteq> [] then olift (raise ''UNKNOWN_OUTCOME'' (str_int (int (length rows)) @ '' jobs still unknown''))
       else on_repo (tx (oput (\<lambda>s.
         case dict_get (lg_cancellations s) stream_id of
           None \<Rightarrow> s
         | Some (generation, _) \<Rightarrow>
             s\<lparr>lg_cancellations := dict_set stream_id (generation, ''reconciled'') (lg_cancellations s)\<rparr>))))"

definition job_row :: "Ledger \<Rightarrow> string \<Rightarrow> (string \<times> string \<times> int) option" where
  "job_row s job_id = map_option (\<lambda>j. (job_id, jb_state j, jb_fence j)) (dict_get (lg_outbox s) job_id)"

section \<open>A receipt says what the ledger holds\<close>

lemma on_repo_Ok: "on_repo m r = (Inr x, r') \<longleftrightarrow> (\<exists>s. m (ru_repo r) = (Inr x, s) \<and> r' = r\<lparr>ru_repo := s\<rparr>)"
  by (auto simp: on_repo_def split: prod.splits)

lemma lease_attempt_Ok:
  assumes "lease_attempt H sc st task a now ttl s = (Inr l, t)"
  shows "job_owner t (ls_job_id l) = Some (a, ls_fence l)"
proof -
  from assms obtain x j u where "claim_job sc j a now ttl u = (Inr x, t)"
    and x: "(case x of None \<Rightarrow> olift (raise ''LEASE_LOST'' ''job not claimable'') | Some l \<Rightarrow> oret l) t = (Inr l, t)"
    unfolding lease_attempt_def obind_Ok_iff
    by (metis (no_types, lifting) olift_def oret_def option.case_eq_if prod.inject)
  moreover from x have "x = Some l" by (cases x) (auto simp: raise_def)
  ultimately show ?thesis using claimed_owner by metis
qed

lemma perform_attempt_Ok: "perform_attempt worker task a j f s = (Inr rc, u) \<Longrightarrow>
    \<exists>out t. invoke_worker worker task s = (Inr out, t) \<and> wo_status out \<in> WORK_OUTCOMES \<and>
      settle_attempt j a f out t = (Inr (at_outcome rc), u) \<and> at_job_id rc = j \<and> at_attempt_id rc = a"
  by (auto simp: perform_attempt_def obind_Ok_iff split: if_splits)

lemma audit_outbox: "audit st d s = (x, t) \<Longrightarrow> lg_outbox t = lg_outbox s"
  by (auto simp: audit_def tx_def)

lemma start_attempt_Ok:
  assumes "start_attempt H st task now ttl r = (Inr (a, l), r1)"
  shows "job_owner (ru_repo r1) (ls_job_id l) = Some (a, ls_fence l) \<and> dict_get (ru_attempts r1) task = Some (ls_job_id l)"
proof -
  from assms obtain t s where l: "lease_attempt H (ru_scope r) st task a now ttl (ru_repo r) = (Inr l, t)"
    and a: "audit st (''run_started task='' @ task @ '' job='' @ ls_job_id l) t = (Inr (), s)"
    and r: "ru_repo r1 = s" "ru_attempts r1 = dict_set task (ls_job_id l) (ru_attempts r)"
    unfolding start_attempt_def Let_def by (auto simp: obind_Ok_iff on_repo_Ok simp del: append.simps)
  from audit_outbox [OF a] have "job_owner s (ls_job_id l) = job_owner t (ls_job_id l)" by (simp add: job_owner_def)
  with lease_attempt_Ok [OF l] r show ?thesis by simp
qed

lemma run_work_Ok:
  assumes "run_work H worker st task now ttl r = (Inr a, r')"
  shows "\<exists>f s. job_owner s (at_job_id a) = Some (at_attempt_id a, f) \<and>
    perform_attempt worker task (at_attempt_id a) (at_job_id a) f s = (Inr a, ru_repo r') \<and>
    dict_get (ru_attempts r') task = Some (at_job_id a)"
proof -
  from assms obtain x l r1 where "start_attempt H st task now ttl r = (Inr (x, l), r1)"
    and p: "on_repo (perform_attempt worker task x (ls_job_id l) (ls_fence l)) r1 = (Inr a, r')"
    by (auto simp: run_work_def obind_Ok_iff on_repo_Ok [of "require_dispatchable st"] require_dispatchable_def
        split: if_splits)
  from start_attempt_Ok [OF this(1)] p perform_attempt_Ok show ?thesis by (fastforce simp: on_repo_Ok)
qed

lemma job_state_set_job: "job_state (set_job k f s) k =
    (case dict_get (lg_outbox s) k of None \<Rightarrow> ''missing'' | Some j \<Rightarrow> jb_state (f j))"
  by (simp add: job_state_def set_job_def split: option.split)

lemma settle_job_result:
  assumes "settle_job st word j w f u s = (Inr x, t)" "word \<noteq> ''stale''"
  shows "x = word \<and> job_owner s j = Some (w, f) \<and> job_state t j = st \<or>
    x = ''stale'' \<and> job_owner s j \<noteq> Some (w, f) \<and> lg_outbox t = lg_outbox s"
  using assms by (auto simp: settle_job_def tx_Ok_iff Let_def job_owner_def job_state_set_job raise_def
      split: option.splits if_splits)

lemma unknown_effect: "mark_job_unknown j s = (Inr x, t) \<Longrightarrow> job_state t j \<noteq> ''leased'' \<and>
    (job_owner s j \<noteq> None \<longrightarrow> job_state t j = ''unknown'')"
  by (auto simp: mark_job_unknown_def tx_def job_state_set_job job_owner_def split: option.splits if_splits)

text \<open>What each word of a receipt says of the report, the lease when it arrived, and the job afterwards.\<close>

definition receipt_true :: "string \<Rightarrow> work_end \<Rightarrow> bool \<Rightarrow> string \<Rightarrow> bool \<Rightarrow> bool" where
  "receipt_true word ended owned after unchanged \<longleftrightarrow>
     (word = ''completed'' \<and> (\<exists>out. ended = Reported out \<and> wo_status out = ''completed'') \<and> owned \<and> after = ''completed'') \<or>
     (word = ''failed'' \<and> (\<exists>out. ended = Reported out \<and> wo_status out = ''failed'') \<and> owned \<and> after = ''failed'') \<or>
     (word = ''stale'' \<and> (\<exists>out. ended = Reported out \<and> wo_status out \<in> {''completed'', ''failed''}) \<and> \<not> owned \<and> unchanged) \<or>
     (word = ''unknown'' \<and> (\<forall>out. ended = Reported out \<longrightarrow> wo_status out = ''unknown'') \<and> after \<noteq> ''leased'' \<and>
       (owned \<longrightarrow> after = ''unknown''))"

lemma settle_attempt_true:
  assumes "settle_attempt j w f out s = (Inr word, t)" "wo_status out \<in> WORK_OUTCOMES"
  shows "receipt_true word (Reported out) (job_owner s j = Some (w, f)) (job_state t j) (lg_outbox t = lg_outbox s)"
proof -
  consider "wo_status out = ''completed''" | "wo_status out = ''failed''" | "wo_status out = ''unknown''"
    using assms(2) by (auto simp: WORK_OUTCOMES_def)
  then show ?thesis
  proof cases
    case 1
    with assms(1) obtain x where "settle_job ''completed'' ''applied'' j w f (wo_usage_units out) s = (Inr x, t)"
      "word = (if x = ''applied'' then ''completed'' else ''stale'')"
      by (auto simp: settle_attempt_def obind_Ok_iff submit_result_def)
    with settle_job_result [OF this(1)] 1 show ?thesis by (auto simp: receipt_true_def)
  next
    case 2
    with assms(1) obtain x where "settle_job ''failed'' ''recorded'' j w f (wo_usage_units out) s = (Inr x, t)"
      "word = (if x = ''recorded'' then ''failed'' else ''stale'')"
      by (auto simp: settle_attempt_def obind_Ok_iff fail_job_def)
    with settle_job_result [OF this(1)] 2 show ?thesis by (auto simp: receipt_true_def)
  next
    case 3
    with assms(1) obtain s1 where "record_usage j (wo_usage_units out) s = (Inr (), s1)" "word = ''unknown''"
      "mark_job_unknown j s1 = (Inr (), t)"
      by (auto simp: settle_attempt_def obind_Ok_iff)
    moreover from this(1) have "job_owner s1 j = job_owner s j" by (auto simp: record_usage_def tx_def job_owner_def)
    ultimately show ?thesis using unknown_effect [of j s1] 3 by (auto simp: receipt_true_def)
  qed
qed

lemma retry_refused:
  assumes "dict_get (ru_attempts r) task = Some j" "job_state (ru_repo r) j = ''unknown''"
  shows "fst (run_work H worker st task now ttl r) \<in>
      {raise ''UNKNOWN_OUTCOME'' (task @ '' outcome unknown; reconcile before retry''),
       raise ''RUN_CANCELLED'' ''stream is reconciling a cancel; no new dispatch''} \<and>
    snd (run_work H worker st task now ttl r) = r"
  using assms by (auto simp: run_work_def retry_blocked_def on_repo_def require_dispatchable_def obind_def raise_def)

text \<open>
  Claim C2. A receipt is true: whatever the worker does and whatever other processes call meanwhile, a receipt
  of \<open>run_work\<close> says completed or failed only if the worker reported just that while its lease still held, and
  the job is then in that state; a report after the lease was lost is stale and changes no job; and every
  other end, a timeout included, leaves the job not leased and, if the lease held, unknown. While it is
  unknown the runner refuses the task again, on any stream, and changes nothing.
\<close>

theorem receipt_is_true:
  assumes "run_work H worker st task now ttl r = (Inr a, r')"
  shows "(\<exists>s ended t f. worker task s = (ended, t) \<and> job_owner s (at_job_id a) = Some (at_attempt_id a, f) \<and>
      receipt_true (at_outcome a) ended (job_owner t (at_job_id a) = Some (at_attempt_id a, f))
        (job_state (ru_repo r') (at_job_id a)) (lg_outbox (ru_repo r') = lg_outbox t)) \<and>
    (job_state (ru_repo r') (at_job_id a) = ''unknown'' \<longrightarrow> (\<forall>H' worker' st' now' ttl'.
      \<not> succeeds (fst (run_work H' worker' st' task now' ttl' r')) \<and> snd (run_work H' worker' st' task now' ttl' r') = r'))"
proof -
  from run_work_Ok [OF assms] obtain f s where own: "job_owner s (at_job_id a) = Some (at_attempt_id a, f)"
    and p: "perform_attempt worker task (at_attempt_id a) (at_job_id a) f s = (Inr a, ru_repo r')"
    and at: "dict_get (ru_attempts r') task = Some (at_job_id a)" by blast
  obtain ended t where w: "worker task s = (ended, t)" by (cases "worker task s")
  from perform_attempt_Ok [OF p] obtain out u where got: "invoke_worker worker task s = (Inr out, u)"
    "wo_status out \<in> WORK_OUTCOMES" "settle_attempt (at_job_id a) (at_attempt_id a) f out u = (Inr (at_outcome a), ru_repo r')"
    by blast
  from got(1) w have "u = t" by (cases ended) (auto simp: invoke_worker_def)
  with got have out: "invoke_worker worker task s = (Inr out, t)" "wo_status out \<in> WORK_OUTCOMES"
    and settled: "settle_attempt (at_job_id a) (at_attempt_id a) f out t = (Inr (at_outcome a), ru_repo r')" by simp_all
  from settle_attempt_true [OF settled out(2)] out(1) w
  have "receipt_true (at_outcome a) ended (job_owner t (at_job_id a) = Some (at_attempt_id a, f))
      (job_state (ru_repo r') (at_job_id a)) (lg_outbox (ru_repo r') = lg_outbox t)"
    by (cases ended) (auto simp: invoke_worker_def receipt_true_def)
  moreover have "\<not> succeeds (fst (run_work H' worker' st' task now' ttl' r')) \<and>
      snd (run_work H' worker' st' task now' ttl' r') = r'"
    if "job_state (ru_repo r') (at_job_id a) = ''unknown''" for H' worker' st' now' ttl'
    using retry_refused [OF at that, of H' worker' st' now' ttl'] by (auto simp: raise_def)
  ultimately show ?thesis using w own by blast
qed

section \<open>A cancel is durable\<close>

lemma get_set_job: "dict_get (lg_outbox (set_job k f s)) k' =
    (if k' = k then map_option f (dict_get (lg_outbox s) k) else dict_get (lg_outbox s) k')"
  by (simp add: set_job_def split: option.split)

lemma get_cancel_jobs:
  assumes "distinct (map fst rows)"
  shows "dict_get (lg_outbox (cancel_jobs rows s)) k =
    (case dict_get rows k of
       None \<Rightarrow> dict_get (lg_outbox s) k
     | Some st \<Rightarrow> map_option (jb_state_update (\<lambda>_. if st = ''pending'' then ''cancelled'' else ''unknown'')) (dict_get (lg_outbox s) k))"
  using assms
proof (induction rows arbitrary: s)
  case (Cons p rows)
  have "cancel_jobs (p # rows) s = cancel_jobs rows (set_job (fst p)
      (jb_state_update (\<lambda>_. if snd p = ''pending'' then ''cancelled'' else ''unknown'')) s)"
    by (simp add: cancel_jobs_def case_prod_unfold)
  moreover have "fst p \<notin> set (dict_keys rows)" using Cons.prems by simp
  ultimately show ?case
    using Cons.IH Cons.prems by (auto simp: get_set_job dict_get_None_iff [symmetric] simp del: set_map split: option.splits)
qed (simp add: cancel_jobs_def)

lemma cancel_jobs_sel [simp]: "lg_events (cancel_jobs rows s) = lg_events s"
    "lg_cancellations (cancel_jobs rows s) = lg_cancellations s"
  unfolding cancel_jobs_def
  by (induction rows arbitrary: s) (auto simp: set_job_def split: option.split)

lemma stream_jobs_distinct: "dict_wf (lg_outbox s) \<Longrightarrow> distinct (map fst (stream_jobs s sc st states))"
proof -
  have "distinct (map fst (concat (map (\<lambda>(k, j). if P k j then [(k, f j)] else []) d)))" if "dict_wf d" for P f and d :: "(string, Job) dict"
    using that by (induction d) (auto simp: image_iff split: if_splits)
  then show "dict_wf (lg_outbox s) \<Longrightarrow> ?thesis" by (simp add: stream_jobs_def)
qed

definition on_stream :: "Ledger \<Rightarrow> string \<Rightarrow> string \<Rightarrow> string \<Rightarrow> bool" where
  "on_stream s sc st k \<longleftrightarrow> (\<exists>j. dict_get (lg_outbox s) k = Some j \<and> jb_scope_id j = sc) \<and>
     (\<exists>e \<in> set (lg_events s). ev_event_id e = k \<and> ev_stream_id e = st)"

lemma stream_jobs_get:
  assumes "dict_wf (lg_outbox s)"
  shows "dict_get (stream_jobs s sc st states) k =
    (if on_stream s sc st k \<and> job_state s k \<in> set states then Some (job_state s k) else None)"
proof -
  have "(k, x) \<in> set (stream_jobs s sc st states) \<longleftrightarrow> on_stream s sc st k \<and> job_state s k \<in> set states \<and> x = job_state s k"
    for x using dict_get_iff_in [OF assms, of k]
    by (auto simp: stream_jobs_def on_stream_def job_state_def) (metis assms dict_get_iff_in option.simps(5))+
  with dict_get_iff_in [OF stream_jobs_distinct [OF assms], of sc st states k] show ?thesis
    by (metis (full_types) not_None_eq option.inject)
qed

text \<open>The streams whose run was cancelled stay cancelled.\<close>

definition stays_cancelled :: "Ledger \<Rightarrow> Ledger \<Rightarrow> bool" where
  "stays_cancelled s t \<longleftrightarrow> (\<forall>st. run_state s st \<noteq> ''active'' \<longrightarrow> run_state t st \<noteq> ''active'')"

lemma stays_cancelled_refl [intro]: "reflp stays_cancelled" "transp stays_cancelled"
  "lg_cancellations t = lg_cancellations s \<Longrightarrow> stays_cancelled s t"
  by (auto simp: stays_cancelled_def run_state_def reflp_def transp_def)

lemma cancellations_sel [simp]:
  "lg_cancellations (set_job k f s) = lg_cancellations s"
  "lg_cancellations (bill_usage k u s) = lg_cancellations s"
  "lg_cancellations (lease_job k w n s) = lg_cancellations s"
  "lg_cancellations (store_blob H sc b s) = lg_cancellations s"
  "lg_cancellations (append_event e s) = lg_cancellations s"
  "lg_cancellations (set_revision st n s) = lg_cancellations s"
  "lg_cancellations (add_request key rd resp s) = lg_cancellations s"
  "lg_cancellations (add_job eid sc ar s) = lg_cancellations s"
  by (simp_all add: set_job_def bill_usage_def lease_job_def store_blob_def append_event_def set_revision_def
      add_request_def add_job_def Let_def split: option.split)

lemma outbox_call_cancellations: "outbox_call s t \<Longrightarrow> lg_cancellations t = lg_cancellations s"
proof (induction rule: outbox_call.induct)
  case (settled st word j w f u s r t)
  then show ?case by (auto simp: settle_job_def tx_def Let_def raise_def split: option.splits if_splits)
next
  case (claim_any sc w now ttl s r t)
  then show ?case by (auto simp: claim_outbox_def Let_def split: list.splits if_splits)
next
  case (claim sc j w now ttl s r t)
  then show ?case by (auto simp: claim_job_def Let_def split: option.splits if_splits)
next
  case (finish j w f now s r t)
  then show ?case by (auto simp: finish_outbox_def split: option.splits if_splits)
next
  case (reconcile j d s r t)
  then show ?case by (auto simp: reconcile_unknown_def tx_def split: if_splits)
qed (auto simp: audit_def tx_def record_usage_def cancel_job_def mark_job_unknown_def)

lemma command_cancellations:
  assumes "execute_command H sc a c k p st rv q pr ps s = (r, t)"
  shows "lg_cancellations t = lg_cancellations s"
  using assms
proof (cases rule: execute_command_cases)
  case (fresh rd rc)
  from fresh(2) show ?thesis by (cases rule: fresh_command_Ok) simp
qed simp_all

lemma observation_cancellations:
  assumes "record_observation H sc st pr ps p k ok s = (r, t)"
  shows "lg_cancellations t = lg_cancellations s"
proof (cases r)
  case (Inl e)
  with assms show ?thesis by (auto simp: record_observation_def dest: tx_err_unchanged)
next
  case (Inr n)
  with assms have "record_observation_in H sc st pr ps p k ok s = (Inr n, t)" by (simp add: record_observation_def tx_Ok_iff)
  then show ?thesis by (cases rule: record_observation_cases) simp_all
qed

lemma call_cancellations:
  assumes "ledger_call H s t"
  shows "lg_cancellations t = lg_cancellations s"
  using assms
proof (cases rule: ledger_call_split)
  case (scope te us wo r)
  then show ?thesis by (auto simp: register_scope_def obind_def tx_def split: if_splits sum.splits)
next
  case (stream sc st ty r)
  then show ?thesis by (auto simp: create_stream_def tx_def raise_def integrity_error_def split: if_splits)
next
  case (blocked st d r)
  then show ?thesis by (auto simp: mark_blocked_def tx_def split: option.splits)
qed (auto intro: command_cancellations observation_cancellations outbox_call_cancellations)

text \<open>Everything that happens to a runner and its ledger, a restart of the runner included.\<close>

inductive runner_call :: "hash_env \<Rightarrow> AttemptRunner \<Rightarrow> AttemptRunner \<Rightarrow> bool" for H where
  elsewhere: "ledger_call H (ru_repo r) s \<Longrightarrow> runner_call H r (r\<lparr>ru_repo := s\<rparr>)"
| work: "run_work H worker st task now ttl r = (x, r') \<Longrightarrow>
    (\<forall>s. (ledger_call H)\<^sup>*\<^sup>* s (snd (worker task s))) \<Longrightarrow> runner_call H r r'"
| recover: "recover_inflight st r = (x, r') \<Longrightarrow> runner_call H r r'"
| reconciled: "reconcile_attempt j d r = (x, r') \<Longrightarrow> runner_call H r r'"
| cancelled: "cancel_run st g r = (x, r') \<Longrightarrow> runner_call H r r'"
| marked: "mark_reconciled st r = (x, r') \<Longrightarrow> runner_call H r r'"
| restarted: "runner_call H r (new_runner (ru_repo r) sc)"

abbreviation runner_stays :: "AttemptRunner \<Rightarrow> AttemptRunner \<Rightarrow> bool" where
  "runner_stays r r' \<equiv> stays_cancelled (ru_repo r) (ru_repo r')"

lemma runner_stays_refl [intro]: "reflp runner_stays" "transp runner_stays"
  by (auto simp: stays_cancelled_def reflp_def transp_def)

lemma stays_call:
  assumes "\<And>s x t. m s = (x, t) \<Longrightarrow> ledger_call H s t"
  shows "moves stays_cancelled m"
  unfolding moves_def
proof
  fix s
  from assms [of s] have "ledger_call H s (snd (m s))" by (cases "m s") simp
  then show "stays_cancelled s (snd (m s))" by (intro stays_cancelled_refl(3) call_cancellations)
qed

lemma stays_on_repo: "moves stays_cancelled m \<Longrightarrow> moves runner_stays (on_repo m)"
  by (auto simp: moves_def on_repo_def split: prod.splits) (metis snd_conv)

lemma stays_read: "moves stays_cancelled (read_scoped_entity sc st)"
  by (auto simp: moves_def read_scoped_entity_def require_scope_def obind_def raise_def split: option.splits)

lemma stays_lease: "moves stays_cancelled (lease_attempt H sc st task a now ttl)"
  unfolding lease_attempt_def
  by (intro moves_obind stays_cancelled_refl stays_read stays_call [where m = "execute_command H _ _ _ _ _ _ _ _ _ _"]
      stays_call [where m = "claim_job _ _ _ _ _"])
    (auto intro: ledger_call.intros moves_pure split: option.split)

lemma stays_calls: "(ledger_call H)\<^sup>*\<^sup>* s t \<Longrightarrow> stays_cancelled s t"
proof (induction rule: rtranclp_induct)
  case (step t u)
  from call_cancellations [OF step.hyps(2)] have "stays_cancelled t u" by (rule stays_cancelled_refl(3))
  with step.IH show ?case by (simp add: stays_cancelled_def)
qed (simp add: stays_cancelled_def)

lemma stays_settle: "moves stays_cancelled (settle_attempt j w f out)"
  unfolding settle_attempt_def
  by (intro moves_if moves_obind stays_cancelled_refl moves_pure stays_call)
    (auto intro: ledger_call.intros)

lemma stays_perform:
  assumes "\<forall>s. (ledger_call H)\<^sup>*\<^sup>* s (snd (worker task s))"
  shows "moves stays_cancelled (perform_attempt worker task a j f)"
proof -
  have "snd (invoke_worker worker task s) = snd (worker task s)" for s
    by (auto simp: invoke_worker_def split: prod.split work_end.split)
  with stays_calls [OF assms [rule_format]] have "moves stays_cancelled (invoke_worker worker task)" by (simp add: moves_def)
  then show ?thesis
    unfolding perform_attempt_def by (intro moves_obind moves_if moves_pure stays_settle stays_cancelled_refl)
qed

lemma stays_start: "moves runner_stays (start_attempt H st task now ttl)"
proof -
  have put: "moves runner_stays (oput g)" if "\<And>r. ru_repo (g r) = ru_repo r" for g
    using that by (simp add: moves_def stays_cancelled_refl)
  have "moves stays_cancelled (audit st d)" for d by (rule stays_call) (rule ledger_call.audited)
  then show ?thesis
    unfolding start_attempt_def Let_def
    by (intro moves_obind runner_stays_refl put stays_on_repo stays_lease moves_pure) simp_all
qed

lemma stays_work:
  assumes "\<forall>s. (ledger_call H)\<^sup>*\<^sup>* s (snd (worker task s))"
  shows "moves runner_stays (run_work H worker st task now ttl)"
proof -
  have "moves stays_cancelled (require_dispatchable st)" by (auto simp: moves_def require_dispatchable_def)
  then show ?thesis
    unfolding run_work_def case_prod_unfold
    by (intro moves_obind moves_if runner_stays_refl moves_pure stays_on_repo stays_start stays_perform [where worker = worker and task = task, OF assms])
qed

lemma stays_recover_jobs: "moves stays_cancelled (recover_jobs st ks)"
proof (induction ks)
  case (Cons k ks)
  show ?case
    unfolding recover_jobs.simps
    by (intro moves_obind stays_cancelled_refl Cons.IH stays_call) (auto intro: ledger_call.intros)
qed (simp add: moves_def stays_cancelled_refl)

lemma cancel_tx_Ok:
  assumes "cancel_tx sc st g s = (Inr (c, u, p), t)"
  shows "c = map fst [p \<leftarrow> stream_jobs s sc st [''pending'', ''leased'']. snd p = ''pending''] \<and>
    u = map fst [p \<leftarrow> stream_jobs s sc st [''pending'', ''leased'']. snd p \<noteq> ''pending''] \<and>
    lg_outbox t = lg_outbox (cancel_jobs (stream_jobs s sc st [''pending'', ''leased'']) s) \<and>
    lg_cancellations t = dict_set st (g, ''reconciling'') (lg_cancellations s)"
  using assms unfolding cancel_tx_def tx_Ok_iff obind_Ok_iff
  by (auto simp: read_scoped_entity_def obind_Ok_iff Let_def)

lemma stays_cancel_tx: "moves stays_cancelled (cancel_tx sc st g)"
  unfolding moves_def
proof
  fix s
  show "stays_cancelled s (snd (cancel_tx sc st g s))"
  proof (cases "cancel_tx sc st g s")
    case (Pair x t)
    show ?thesis
    proof (cases x)
      case (Inl e)
      with Pair have "t = s" by (auto simp: cancel_tx_def dest: tx_err_unchanged)
      with Pair show ?thesis by (simp add: stays_cancelled_refl)
    next
      case (Inr y)
      with Pair cancel_tx_Ok [of sc st g s "fst y" "fst (snd y)" "snd (snd y)" t]
      show ?thesis by (auto simp: stays_cancelled_def run_state_def)
    qed
  qed
qed

lemma stays_audit: "moves stays_cancelled (audit st d)"
  by (rule stays_call) (rule ledger_call.audited)

lemma stays_cancel: "moves runner_stays (cancel_run st g)"
  unfolding cancel_run_def case_prod_unfold
  by (intro moves_obind runner_stays_refl moves_pure stays_on_repo stays_cancel_tx stays_audit)

lemma cancel_run_Ok:
  assumes "cancel_run st g r = (Inr rep, r')"
  shows "\<exists>c u p t. cancel_tx (ru_scope r) st g (ru_repo r) = (Inr (c, u, p), t) \<and> cr_cancelled rep = sort c \<and>
    cr_unknown rep = sort u \<and> lg_outbox (ru_repo r') = lg_outbox t \<and> lg_cancellations (ru_repo r') = lg_cancellations t"
proof -
  have logged: "lg_outbox s = lg_outbox t \<and> lg_cancellations s = lg_cancellations t" if "audit st d t = (y, s)" for d t y s
    using that by (auto simp: audit_def tx_def)
  obtain x r1 where tx: "on_repo (cancel_tx (ru_scope r) st g) r = (x, r1)" by (cases "on_repo (cancel_tx (ru_scope r) st g) r")
  have "x \<noteq> Inl e" for e
  proof
    assume "x = Inl e"
    with tx have "fst (cancel_run st g r) = Inl e" by (simp add: cancel_run_def obind_def)
    with assms show False by simp
  qed
  then obtain c u p where x: "x = Inr (c, u, p)" by (cases x) auto
  define msg where "msg = ''cancel_run cancelled='' @ str_int (int (length c)) @ '' unknown='' @ str_int (int (length u))"
  have "cancel_run st g r = obind (on_repo (audit st msg)) (\<lambda>_. oret \<lparr>cr_stream_id = st, cr_state = ''reconciling'',
      cr_cancelled = sort c, cr_unknown = sort u, cr_partial_results = sort p\<rparr>) r1"
    using tx unfolding cancel_run_def msg_def by (simp add: obind_def [of "on_repo (cancel_tx _ _ _)"] x)
  with assms obtain s where s: "audit st msg (ru_repo r1) = (Inr (), s)" "ru_repo r' = s"
    and rep: "cr_cancelled rep = sort c" "cr_unknown rep = sort u"
    by (auto simp: obind_Ok_iff on_repo_Ok)
  from tx x have "cancel_tx (ru_scope r) st g (ru_repo r) = (Inr (c, u, p), ru_repo r1)" by (auto simp: on_repo_Ok)
  with logged [OF s(1)] s(2) rep show ?thesis by auto
qed

lemma runner_call_stays: "runner_call H r r' \<Longrightarrow> runner_stays r r'"
proof (induction rule: runner_call.induct)
  case (elsewhere r s)
  then show ?case by (simp add: stays_cancelled_refl(3) call_cancellations)
next
  case (work worker st task now ttl r x r')
  from movesD [OF stays_work [where worker = worker and task = task, OF work(2)] work(1)] show ?case .
next
  case (recover st r x r')
  have "moves runner_stays (recover_inflight st)"
    unfolding recover_inflight_def Let_def
    by (intro moves_obind runner_stays_refl moves_pure stays_on_repo stays_recover_jobs)
  from movesD [OF this recover] show ?case .
next
  case (reconciled j d r x r')
  have "moves stays_cancelled (reconcile_unknown j d)" by (rule stays_call) (rule ledger_call.reconcile)
  from movesD [OF stays_on_repo [OF this]] reconciled show ?case unfolding reconcile_attempt_def by blast
next
  case (cancelled st g r x r')
  then show ?case by (rule movesD [OF stays_cancel])
next
  case (marked st r x r')
  then show ?case
    by (auto simp: mark_reconciled_def Let_def on_repo_def tx_def stays_cancelled_def run_state_def raise_def
        split: if_splits option.splits prod.splits)
qed (simp add: new_runner_def stays_cancelled_def)


section \<open>Runs on a concrete ledger\<close>

definition sample_outcome :: WorkOutcome where
  "sample_outcome = \<lparr>wo_status = ''completed'', wo_result_ref = ''ref'', wo_postimage_digest = None, wo_usage_units = 3,
     wo_detail = []\<rparr>"

definition done_worker :: worker where "done_worker task s = (Reported sample_outcome, s)"

definition lost_worker :: worker where "lost_worker task s = (TimedOut ''no answer'', s)"

definition sample_runner :: AttemptRunner where
  "sample_runner = new_runner sample_open sample_scope"

definition timed_out_runner :: AttemptRunner where
  "timed_out_runner = snd (run_work plain_hash lost_worker ''s1'' ''t1'' 0 300 sample_runner)"

definition cancelled_runner :: AttemptRunner where
  "cancelled_runner = snd (cancel_run ''s1'' 1 (new_runner sample_queued sample_scope))"

lemma sample_attempts:
  "case fst (run_work plain_hash done_worker ''s1'' ''t1'' 0 300 sample_runner) of Inl e \<Rightarrow> False | Inr a \<Rightarrow> at_outcome a = ''completed''"
  "case fst (run_work plain_hash lost_worker ''s1'' ''t1'' 0 300 sample_runner) of Inl e \<Rightarrow> False
   | Inr a \<Rightarrow> at_outcome a = ''unknown'' \<and> job_state (ru_repo timed_out_runner) (at_job_id a) = ''unknown''"
  "succeeds (fst (cancel_run ''s1'' 1 (new_runner sample_queued sample_scope)))"
  "dict_wf (lg_outbox sample_queued)"
  by code_simp+

lemma receipt_is_true_witness:
  "\<not> succeeds (fst (run_work plain_hash done_worker ''s1'' ''t1'' 5 300 timed_out_runner))"
proof -
  obtain a where "fst (run_work plain_hash lost_worker ''s1'' ''t1'' 0 300 sample_runner) = Inr a"
    and unknown: "job_state (ru_repo timed_out_runner) (at_job_id a) = ''unknown''"
    using sample_attempts(2) by (auto split: sum.splits)
  then have "run_work plain_hash lost_worker ''s1'' ''t1'' 0 300 sample_runner = (Inr a, timed_out_runner)"
    unfolding timed_out_runner_def by (metis prod.collapse)
  from receipt_is_true [OF this] unknown show ?thesis by blast
qed


text \<open>
  The runner remembers the attempts of a task only itself. After a restart the first retry collides with the
  old attempt's idempotency key, but the second one runs the task again although its outcome is still
  unknown.
\<close>

lemma restart_forgets_unknown:
  "let r1 = snd (run_work plain_hash done_worker ''s1'' ''t1'' 9 300 (new_runner (ru_repo timed_out_runner) sample_scope)) in
   case run_work plain_hash done_worker ''s1'' ''t1'' 9 300 r1 of
     (Inr a, r2) \<Rightarrow> at_outcome a = ''completed'' \<and> map (jb_state \<circ> snd) (lg_outbox (ru_repo r2)) = [''unknown'', ''completed'']
   | _ \<Rightarrow> False"
  by code_simp

text \<open>A reconciled cancel still forbids every dispatch on the stream.\<close>

lemma reconciled_stays_blocked:
  "let r = snd (mark_reconciled ''s1'' cancelled_runner) in
   run_state (ru_repo r) ''s1'' = ''reconciled'' \<and>
   fails_with ''RUN_CANCELLED'' (fst (run_work plain_hash done_worker ''s1'' ''t2'' 0 300 r))"
  by code_simp

end
