(* ===== verification/PlanService.thy ===== *)
theory PlanService
  imports PlanValidation PlanChanges Decisions Review WorkflowCompiler Dispatch Transitions
begin

text \<open>
  \<open>workflow/service.py\<close>: the facade that composes the governed plan lifecycle out of its parts: the sealed
  subject, static validation, the plan revisions, the review board, the decision desk, the state table of
  plans, the dispatcher and the compiler. A set the caller passes is a list, and the nonce a new
  decision draws is an argument.
\<close>

section \<open>Operations\<close>

record PlanService =
  sv_revisions :: PlanRevisions
  sv_board :: ReviewBoard
  sv_desk :: DecisionDesk
  sv_dispatcher :: Dispatcher
  sv_known_recipes :: "string list option"
  sv_states :: "(string, string) dict"
  sv_subjects :: "(string, PlanReviewSubject) dict"

definition new_service :: "string list option \<Rightarrow> PlanService" where
  "new_service known_recipes =
     \<lparr>sv_revisions = no_revisions, sv_board = new_board 3, sv_desk = new_desk 0, sv_dispatcher = new_dispatcher,
      sv_known_recipes = known_recipes, sv_states = [], sv_subjects = []\<rparr>"

definition plan_state :: "PlanService \<Rightarrow> string \<Rightarrow> string" where
  "plan_state s plan_id = (case dict_get (sv_states s) plan_id of None \<Rightarrow> ''draft'' | Some state \<Rightarrow> state)"

definition set_state :: "string \<Rightarrow> string \<Rightarrow> PlanService \<Rightarrow> PlanService" where
  "set_state plan_id state s = s\<lparr>sv_states := dict_set plan_id state (sv_states s)\<rparr>"

text \<open>Calls on the parts.\<close>

definition on_revisions :: "(PlanRevisions, 'a) op \<Rightarrow> (PlanService, 'a) op" where
  "on_revisions m s = (case m (sv_revisions s) of (r, x) \<Rightarrow> (r, s\<lparr>sv_revisions := x\<rparr>))"

definition on_board :: "(ReviewBoard, 'a) op \<Rightarrow> (PlanService, 'a) op" where
  "on_board m s = (case m (sv_board s) of (r, x) \<Rightarrow> (r, s\<lparr>sv_board := x\<rparr>))"

definition on_desk :: "(DecisionDesk, 'a) op \<Rightarrow> (PlanService, 'a) op" where
  "on_desk m s = (case m (sv_desk s) of (r, x) \<Rightarrow> (r, s\<lparr>sv_desk := x\<rparr>))"

definition on_dispatcher :: "(Dispatcher, 'a) op \<Rightarrow> (PlanService, 'a) op" where
  "on_dispatcher m s = (case m (sv_dispatcher s) of (r, x) \<Rightarrow> (r, s\<lparr>sv_dispatcher := x\<rparr>))"

text \<open>The validation \<open>submit_plan\<close> runs; its cycle search always ends (\<open>cycle_search_exact\<close>).\<close>

definition submitted_report ::
  "GovernedWorkPlan \<Rightarrow> string list option \<Rightarrow> (string, string) dict option \<Rightarrow> (string, string) dict option \<Rightarrow>
    PlanService \<Rightarrow> PlanCheckReport option"
where
  "submitted_report plan active_requirements verified_no_change known_interfaces s =
     validate_plan plan (Some (case active_requirements of None \<Rightarrow> gp_requirements plan | Some r \<Rightarrow> r)) verified_no_change
       (Some (case sv_known_recipes s of None \<Rightarrow> [] | Some k \<Rightarrow> k))
       (Some (case known_interfaces of None \<Rightarrow> [] | Some k \<Rightarrow> k))"

definition submit_plan ::
  "hash_env \<Rightarrow> GovernedWorkPlan \<Rightarrow> pymap \<Rightarrow> pymap \<Rightarrow> (string, string) dict \<Rightarrow> string list option \<Rightarrow>
    (string, string) dict option \<Rightarrow> (string, string) dict option \<Rightarrow> (PlanService, PlanReviewSubject \<times> PlanCheckReport) op"
where
  "submit_plan H plan requirements_doc source_snapshot scope active_requirements verified_no_change known_interfaces =
     obind (olift (build_subject H plan requirements_doc source_snapshot scope ''subject'')) (\<lambda>subject.
     obind oget (\<lambda>s.
       case submitted_report plan active_requirements verified_no_change known_interfaces s of
         None \<Rightarrow> olift (Inl (PyError ''RecursionError''))
       | Some report \<Rightarrow>
           if cr_ready_for_review report then
             obind (olift (plan_head (sv_revisions s) (gp_plan_id plan))) (\<lambda>head.
             obind (on_revisions (commit_plan plan (case head of None \<Rightarrow> -1 | Some h \<Rightarrow> gp_revision h))) (\<lambda>_.
             obind (oput (set_state (gp_plan_id plan) ''static_validated'')) (\<lambda>_.
             obind (oput (\<lambda>s. s\<lparr>sv_subjects := dict_set (gp_plan_id plan) subject (sv_subjects s)\<rparr>)) (\<lambda>_.
             oret (subject, report)))))
           else
             obind (oput (set_state (gp_plan_id plan) ''rejected'')) (\<lambda>_. oret (subject, report))))"

definition svc_request_review :: "hash_env \<Rightarrow> PlanReviewSubject \<Rightarrow> ReviewerBinding \<Rightarrow> (PlanService, nat) op" where
  "svc_request_review H subject binding =
     obind oget (\<lambda>s.
     obind (olift (plan_transition (plan_state s (sj_plan_id subject)) ''in_review'' False True False)) (\<lambda>_.
     obind (oput (set_state (sj_plan_id subject) ''in_review'')) (\<lambda>_.
     obind (olift (subject_digest H subject)) (\<lambda>d.
     on_board (request_review d binding [(''subject_digest'', PStr d)])))))"

definition svc_finish_review :: "nat \<Rightarrow> string \<Rightarrow> (PlanService, string) op" where
  "svc_finish_review i plan_id =
     obind (on_board (finish_review i True)) (\<lambda>outcome.
     obind oget (\<lambda>s.
       case dict_get (sv_states s) plan_id of
         None \<Rightarrow> olift (Inl (PyError ''KeyError''))
       | Some state \<Rightarrow>
           if outcome = ''reviewed'' then
             obind (olift (plan_transition state ''human_review''
               (is_reviewed (sv_board s) (rv_subject_digest (bd_reviews (sv_board s) ! i))) False False)) (\<lambda>_.
             obind (oput (set_state plan_id ''human_review'')) (\<lambda>_. oret outcome))
           else if outcome = ''changes_required'' then
             obind (olift (plan_transition state ''amendment_requested'' False True False)) (\<lambda>_.
             obind (oput (set_state plan_id ''amendment_requested'')) (\<lambda>_. oret outcome))
           else oret outcome))"

definition svc_present_decision ::
  "hash_env \<Rightarrow> string \<Rightarrow> PlanReviewSubject \<Rightarrow> string \<Rightarrow> string \<Rightarrow> int \<Rightarrow> (PlanService, DecisionRequest) op"
where
  "svc_present_decision H nonce subject purpose display_digest ttl =
     obind (olift (subject_digest H subject)) (\<lambda>d.
     obind oget (\<lambda>s.
     obind (olift (require_reviewed (sv_board s) d)) (\<lambda>_.
     on_desk (present_decision nonce
       (purpose @ ''-'' @ sj_plan_id subject @ ''-r'' @ str_int (sj_revision subject))
       (case dict_get (sj_scope subject) ''scope_id'' of None \<Rightarrow> ''scope'' | Some sc \<Rightarrow> sc)
       purpose d display_digest (sj_revision subject) ttl None))))"

definition decision_moves :: "(string, string) dict" where
  "decision_moves = [(''approved'', ''approved''), (''rejected'', ''rejected''), (''deferred'', ''deferred''),
     (''cancelled'', ''cancelled''), (''amend_requested'', ''amendment_requested'')]"

definition svc_record_decision ::
  "string \<Rightarrow> string \<Rightarrow> string \<Rightarrow> string \<Rightarrow> string \<Rightarrow> string \<Rightarrow> int \<Rightarrow> string list \<Rightarrow> (PlanService, DecisionOutcome) op"
where
  "svc_record_decision plan_id decision_id response nonce digest_value display_digest expected_revision approved_units =
     obind (on_desk (record_response decision_id response nonce digest_value display_digest expected_revision approved_units))
       (\<lambda>outcome.
     obind oget (\<lambda>s.
       let state = plan_state s plan_id in
       case dict_get decision_moves (do_state outcome) of
         None \<Rightarrow> oret outcome
       | Some target \<Rightarrow>
           if do_purpose outcome = ''plan_approval'' \<and> state \<in> {''human_review'', ''deferred'', ''approved''} then
             obind (olift (plan_transition state target False True False)) (\<lambda>_.
             obind (oput (set_state plan_id target)) (\<lambda>_. oret outcome))
           else oret outcome))"

definition svc_issue_permit ::
  "hash_env \<Rightarrow> PlanReviewSubject \<Rightarrow> string \<Rightarrow> string \<Rightarrow> int \<Rightarrow> (PlanService, ExecutionPermit) op"
where
  "svc_issue_permit H subject decision_id source_snapshot_digest generation =
     obind oget (\<lambda>s.
     obind (olift (plan_head (sv_revisions s) (sj_plan_id subject))) (\<lambda>head.
       case head of
         None \<Rightarrow> olift (raise ''PERMIT_STALE'' ''permit needs the committed subject'')
       | Some plan \<Rightarrow>
           if gp_revision plan \<noteq> sj_revision subject
           then olift (raise ''PERMIT_STALE'' ''permit needs the committed subject'')
           else
             obind (olift (subject_digest H subject)) (\<lambda>d.
             obind (olift (make_permit (sv_desk s) decision_id d source_snapshot_digest generation plan)) (\<lambda>permit.
             obind (olift (plan_transition (plan_state s (sj_plan_id subject)) ''executable'' False False True)) (\<lambda>_.
             obind (oput (set_state (sj_plan_id subject) ''executable'')) (\<lambda>_. oret permit))))))"

definition svc_compile :: "hash_env \<Rightarrow> PlanService \<Rightarrow> GovernedWorkPlan \<Rightarrow> CompiledWorkflow result" where
  "svc_compile H s plan =
     rbind (plan_head (sv_revisions s) (gp_plan_id plan)) (\<lambda>head.
       case head of
         None \<Rightarrow> raise ''PERMIT_STALE'' ''compile needs the committed revision''
       | Some h \<Rightarrow>
           if gp_revision h \<noteq> gp_revision plan then raise ''PERMIT_STALE'' ''compile needs the committed revision''
           else compile_workflow H (units_to_nodes (gp_units plan)) (gp_revision plan) (sv_known_recipes s) None)"

definition svc_reserve_ready_work ::
  "hash_env \<Rightarrow> GovernedWorkPlan \<Rightarrow> ExecutionPermit option \<Rightarrow> string \<Rightarrow> string list option \<Rightarrow> string list option \<Rightarrow> string \<Rightarrow>
    (PlanService, string \<times> int) op"
where
  "svc_reserve_ready_work H plan permit worker_id completed failed source_snapshot_digest =
     obind oget (\<lambda>s.
     obind (olift (plan_head (sv_revisions s) (gp_plan_id plan))) (\<lambda>head.
       case (head, dict_get (sv_subjects s) (gp_plan_id plan)) of
         (Some _, Some subject) \<Rightarrow>
           obind (olift (subject_digest H subject)) (\<lambda>d.
           obind (olift (check_permit permit d source_snapshot_digest)) (\<lambda>p.
           on_dispatcher (reserve_ready_work plan p worker_id
             (Some (case completed of None \<Rightarrow> [] | Some c \<Rightarrow> c)) (Some (case failed of None \<Rightarrow> [] | Some f \<Rightarrow> f)))))
       | _ \<Rightarrow> olift (raise ''TASK_UNKNOWN'' (gp_plan_id plan))))"

definition svc_assess_change :: "GovernedWorkPlan \<Rightarrow> GovernedWorkPlan \<Rightarrow> ChangeImpact" where
  "svc_assess_change old_plan new_plan = classify_change old_plan new_plan None False"

definition svc_assess_completion ::
  "PlanService \<Rightarrow> string \<Rightarrow> (string, bool) dict \<Rightarrow> string \<Rightarrow> bool \<Rightarrow> bool \<Rightarrow> bool \<Rightarrow> CompletionDecision result"
where
  "svc_assess_completion s outcome acceptance_results digest_value apply_permit publish_permit source_changed =
     assess_completion outcome acceptance_results (is_reviewed (sv_board s) digest_value) apply_permit publish_permit
       source_changed"

section \<open>A permit stands at the end of the whole chain\<close>

text \<open>
  What happens to a service: its own calls, and the calls others make on its board (findings), its desk's
  clock and its dispatcher. The log holds, for each presented decision, the digest and the board at that time.
\<close>

inductive service_call :: "hash_env \<Rightarrow> PlanService \<Rightarrow> (string \<times> ReviewBoard) list \<Rightarrow> PlanService \<Rightarrow> bool" for H where
  submit: "submit_plan H plan rd sn sc ar nc ki s = (r, t) \<Longrightarrow> service_call H s [] t"
| request: "svc_request_review H subj b s = (r, t) \<Longrightarrow> service_call H s [] t"
| finish: "svc_finish_review i pid s = (r, t) \<Longrightarrow> service_call H s [] t"
| presented: "svc_present_decision H n subj p dd ttl s = (Inr q, t) \<Longrightarrow> subject_digest H subj = Inr d \<Longrightarrow>
    service_call H s [(d, sv_board s)] t"
| unpresented: "svc_present_decision H n subj p dd ttl s = (Inl e, t) \<Longrightarrow> service_call H s [] t"
| decided: "svc_record_decision pid did resp n sd dd rv us s = (r, t) \<Longrightarrow> service_call H s [] t"
| permitted: "svc_issue_permit H subj did snap g s = (r, t) \<Longrightarrow> service_call H s [] t"
| reserved: "svc_reserve_ready_work H plan pm w c f snap s = (r, t) \<Longrightarrow> service_call H s [] t"
| found: "on_board (submit_finding i f) s = (r, t) \<Longrightarrow> service_call H s [] t"
| resolved: "on_board (resolve_finding fid run dec d evs tpc) s = (r, t) \<Longrightarrow> service_call H s [] t"
| clock: "on_desk (set_clock now) s = (r, t) \<Longrightarrow> service_call H s [] t"
| released: "on_dispatcher (release_lease u w fence) s = (r, t) \<Longrightarrow> service_call H s [] t"

inductive service_trace :: "hash_env \<Rightarrow> PlanService \<Rightarrow> (string \<times> ReviewBoard) list \<Rightarrow> PlanService \<Rightarrow> bool" for H s where
  start: "service_trace H s [] s"
| more: "service_trace H s log t \<Longrightarrow> service_call H t l u \<Longrightarrow> service_trace H s (log @ l) u"

text \<open>Calls that leave the revisions, the requests and the recipes alone.\<close>

definition same_records :: "PlanService \<Rightarrow> PlanService \<Rightarrow> bool" where
  "same_records s t \<longleftrightarrow> sv_revisions t = sv_revisions s \<and> dk_requests (sv_desk t) = dk_requests (sv_desk s) \<and>
     sv_known_recipes t = sv_known_recipes s"

lemma same_records_rel [intro]: "reflp same_records" "transp same_records" "same_records s s"
  by (auto simp: same_records_def reflp_def transp_def)

lemma same_records_ops [intro]:
  "moves same_records (on_board m)" "moves same_records (on_dispatcher k)" "moves same_records (on_desk (set_clock now))"
  "moves same_records (oput (set_state pid st))"
  "moves same_records (oput (\<lambda>s. s\<lparr>sv_subjects := f s\<rparr>))"
  by (auto simp: moves_def on_board_def on_dispatcher_def on_desk_def set_clock_def set_state_def same_records_def
      split: prod.split)

lemmas same_records_intros = moves_obind same_records_rel(1,2) same_records_ops moves_pure

lemma same_records_request: "moves same_records (svc_request_review H subj b)"
  unfolding svc_request_review_def by (intro same_records_intros)

lemma same_records_finish: "moves same_records (svc_finish_review i pid)"
  unfolding svc_finish_review_def by (intro same_records_intros moves_if moves_option)

lemma same_records_permit: "moves same_records (svc_issue_permit H subj did snap g)"
  unfolding svc_issue_permit_def by (intro same_records_intros moves_if moves_option)

lemma same_records_reserve: "moves same_records (svc_reserve_ready_work H plan pm w c f snap)"
  unfolding svc_reserve_ready_work_def prod.case
  by (intro same_records_intros moves_option)

text \<open>What the desk holds: a request is an older one, or bound to a digest just reviewed.\<close>

lemma present_requests:
  assumes "present_decision n did sc p d dd rv ttl al k = (r, k')" "load_decision k' x = Some q"
  shows "load_decision k x = Some q \<or> dq_subject_digest q = d \<and> succeeds r"
  using assms by (auto simp: present_decision_def load_decision_def put_request_def Let_def raise_def succeeds_iff
      split: option.splits if_splits)

lemma response_requests:
  assumes "record_response did resp n sd dd rv us k = (r, k')" "load_decision k' x = Some q"
  shows "\<exists>q0. load_decision k x = Some q0 \<and> dq_subject_digest q = dq_subject_digest q0"
  using assms by (auto simp: record_response_def load_decision_def raise_def split: option.splits if_splits)

lemma svc_present_cases:
  assumes "svc_present_decision H n subj p dd ttl s = (r, t)"
  shows "t = s \<and> \<not> succeeds r \<or> (\<exists>d k did sc rv. subject_digest H subj = Inr d \<and> require_reviewed (sv_board s) d = Inr () \<and>
    present_decision n did sc p d dd rv ttl None (sv_desk s) = (r, k) \<and> t = s\<lparr>sv_desk := k\<rparr>)"
proof (cases "subject_digest H subj")
  case (Inl e)
  with assms show ?thesis by (auto simp: svc_present_decision_def obind_run)
next
  case (Inr d)
  show ?thesis
  proof (cases "require_reviewed (sv_board s) d")
    case (Inl e)
    with assms Inr show ?thesis by (auto simp: svc_present_decision_def obind_run)
  next
    case (Inr u)
    with assms \<open>subject_digest H subj = Inr d\<close> show ?thesis
      by (auto simp: svc_present_decision_def obind_run on_desk_def simp del: append.simps split: prod.splits)
  qed
qed

definition after_response :: "PlanService \<Rightarrow> PlanService \<Rightarrow> bool" where
  "after_response s t \<longleftrightarrow> sv_revisions t = sv_revisions s \<and> sv_known_recipes t = sv_known_recipes s \<and>
     (\<forall>x q. load_decision (sv_desk t) x = Some q \<longrightarrow>
       (\<exists>q0. load_decision (sv_desk s) x = Some q0 \<and> dq_subject_digest q = dq_subject_digest q0))"

lemma after_response_rel: "transp after_response" "reflp after_response"
  by (auto simp: after_response_def transp_def reflp_def) metis

lemma after_response_decided: "moves after_response (svc_record_decision pid did resp n sd dd rv us)"
proof -
  have "moves after_response (on_desk (record_response did resp n sd dd rv us))"
    by (auto simp: moves_def on_desk_def after_response_def split: prod.split dest: response_requests)
  moreover have "moves after_response (oput (set_state pid st))" for st
    by (simp add: moves_def set_state_def after_response_def)
  ultimately show ?thesis
    unfolding svc_record_decision_def Let_def
    by (intro moves_obind after_response_rel moves_pure moves_if moves_option)
qed

text \<open>Every committed plan was validated when it was submitted, and is filed under its identity.\<close>

definition validated :: "PlanService \<Rightarrow> GovernedWorkPlan \<Rightarrow> bool" where
  "validated s plan \<longleftrightarrow> (\<exists>ar nc ki report. submitted_report plan ar nc ki s = Some report \<and> cr_ready_for_review report)"

definition revisions_ok :: "PlanService \<Rightarrow> bool" where
  "revisions_ok s \<longleftrightarrow> (\<forall>pid revs rv p. dict_get (pr_plans (sv_revisions s)) pid = Some revs \<longrightarrow> dict_get revs rv = Some p \<longrightarrow>
     gp_plan_id p = pid \<and> gp_revision p = rv \<and> validated s p)"

definition requests_ok :: "(string \<times> ReviewBoard) list \<Rightarrow> PlanService \<Rightarrow> bool" where
  "requests_ok log s \<longleftrightarrow> (\<forall>x q. load_decision (sv_desk s) x = Some q \<longrightarrow>
     (\<exists>b. (dq_subject_digest q, b) \<in> set log \<and> require_reviewed b (dq_subject_digest q) = Inr ()))"

lemma validated_known: "sv_known_recipes t = sv_known_recipes s \<Longrightarrow> validated t = validated s"
  by (simp add: fun_eq_iff validated_def submitted_report_def)

lemma same_records_ok: "same_records s t \<Longrightarrow> revisions_ok s \<and> requests_ok log s \<Longrightarrow> revisions_ok t \<and> requests_ok log t"
  by (auto simp: same_records_def revisions_ok_def requests_ok_def load_decision_def validated_known [of t s])

lemma commit_ok:
  assumes "commit_plan plan n (sv_revisions s) = (r, x)" "validated s plan" "revisions_ok s"
  shows "revisions_ok (s\<lparr>sv_revisions := x\<rparr>)"
proof -
  have "validated (s\<lparr>sv_revisions := x\<rparr>) = validated s" by (rule validated_known) simp
  then show ?thesis
    using assms by (auto simp: revisions_ok_def commit_plan_def Let_def raise_def split: if_splits option.splits)
qed

lemma submit_plan_ok:
  assumes "submit_plan H plan rd sn sc ar nc ki s = (r, t)" "revisions_ok s"
  shows "revisions_ok t \<and> dk_requests (sv_desk t) = dk_requests (sv_desk s)"
proof -
  let ?inv = "\<lambda>u. revisions_ok u \<and> dk_requests (sv_desk u) = dk_requests (sv_desk s)"
  have keep: "?inv u \<Longrightarrow> same_records u v \<Longrightarrow> ?inv v" for u v
    using same_records_ok [of u v "[]"] by (auto simp: same_records_def revisions_ok_def validated_known [of v u])
  have put: "moves same_records (oput (set_state pid st))" for pid st by (rule same_records_ops)
  have subs: "moves same_records (oput (\<lambda>s. s\<lparr>sv_subjects := f s\<rparr>))" for f by (rule same_records_ops)
  show ?thesis
  proof (cases "build_subject H plan rd sn sc ''subject''")
    case (Inl e)
    with assms show ?thesis by (simp add: submit_plan_def obind_run)
  next
    case (Inr subject)
    show ?thesis
    proof (cases "submitted_report plan ar nc ki s")
      case None
      with assms Inr show ?thesis by (simp add: submit_plan_def obind_run)
    next
      case (Some report)
      show ?thesis
      proof (cases "cr_ready_for_review report")
        case False
        let ?m = "obind (oput (set_state (gp_plan_id plan) ''rejected'')) (\<lambda>_. oret (subject, report))"
        have "moves same_records ?m" by (intro same_records_intros)
        moreover have "?m s = (r, t)" using assms(1) Inr Some False by (simp add: submit_plan_def obind_run)
        ultimately have "same_records s t" by (rule movesD)
        with keep [of s t] assms(2) show ?thesis by simp
      next
        case True
        show ?thesis
        proof (cases "plan_head (sv_revisions s) (gp_plan_id plan)")
          case (Inl e)
          with assms Inr Some True show ?thesis by (simp add: submit_plan_def obind_run)
        next
          case (Inr head)
          let ?n = "case head of None \<Rightarrow> -1 | Some h \<Rightarrow> gp_revision h"
          let ?rest = "\<lambda>_. obind (oput (set_state (gp_plan_id plan) ''static_validated'')) (\<lambda>_.
             obind (oput (\<lambda>s. s\<lparr>sv_subjects := dict_set (gp_plan_id plan) subject (sv_subjects s)\<rparr>)) (\<lambda>_.
             oret (subject, report)))"
          obtain c x where c: "commit_plan plan ?n (sv_revisions s) = (c, x)" by (cases "commit_plan plan ?n (sv_revisions s)")
          have "validated s plan" using Some True by (auto simp: validated_def)
          from commit_ok [OF c this assms(2)] have ok: "?inv (s\<lparr>sv_revisions := x\<rparr>)" by simp
          have calm: "moves same_records (?rest y)" for y by (intro same_records_intros)
          have run: "(r, t) = (case c of Inl e \<Rightarrow> (Inl e, s\<lparr>sv_revisions := x\<rparr>) | Inr y \<Rightarrow> ?rest y (s\<lparr>sv_revisions := x\<rparr>))"
            using assms(1) \<open>build_subject H plan rd sn sc ''subject'' = Inr subject\<close> Some True Inr c
            by (simp add: submit_plan_def obind_run on_revisions_def obind_def [of "on_revisions _"])
          show ?thesis
          proof (cases c)
            case (Inl e)
            with run ok show ?thesis by simp
          next
            case (Inr y)
            with run have "?rest y (s\<lparr>sv_revisions := x\<rparr>) = (r, t)" by simp
            from movesD [OF calm this] have "same_records (s\<lparr>sv_revisions := x\<rparr>) t" .
            with keep [OF ok] show ?thesis by blast
          qed
        qed
      qed
    qed
  qed
qed


lemma service_call_ok:
  assumes "service_call H s l t" "revisions_ok s" "requests_ok log s"
  shows "revisions_ok t \<and> requests_ok (log @ l) t"
proof -
  have same: "revisions_ok t \<and> requests_ok log t" if "moves same_records m" "m s = (r, t)" for m :: "(PlanService, 'a) op" and r t
    using same_records_ok [OF movesD [OF that]] assms(2,3) by blast
  from assms(1) show ?thesis
  proof (cases rule: service_call.cases)
    case (submit plan rd sn sc ar nc ki r)
    from submit_plan_ok [OF submit(2) assms(2)] assms(3) submit(1) show ?thesis
      by (simp add: requests_ok_def load_decision_def)
  next
    case (presented n subj p dd ttl q d)
    from svc_present_cases [OF presented(2)] obtain k did sc rv where now: "require_reviewed (sv_board s) d = Inr ()"
      and k: "present_decision n did sc p d dd rv ttl None (sv_desk s) = (Inr q, k)" "t = s\<lparr>sv_desk := k\<rparr>"
      using presented(3) by auto
    have "requests_ok (log @ l) t"
      using assms(3) now present_requests [OF k(1)] unfolding requests_ok_def presented(1) k(2) by fastforce
    moreover have "validated t = validated s" unfolding k(2) by (rule validated_known) simp
    ultimately show ?thesis using assms(2) by (simp add: revisions_ok_def k(2))
  next
    case (unpresented n subj p dd ttl e)
    from svc_present_cases [OF unpresented(2)] show ?thesis
    proof
      assume "t = s \<and> \<not> succeeds (Inl e :: DecisionRequest result)"
      with assms unpresented(1) show ?thesis by simp
    next
      assume "\<exists>d k did sc rv. subject_digest H subj = Inr d \<and> require_reviewed (sv_board s) d = Inr () \<and>
        present_decision n did sc p d dd rv ttl None (sv_desk s) = (Inl e, k) \<and> t = s\<lparr>sv_desk := k\<rparr>"
      then obtain d k did sc rv where k: "present_decision n did sc p d dd rv ttl None (sv_desk s) = (Inl e, k)"
        "t = s\<lparr>sv_desk := k\<rparr>" by blast
      have "requests_ok (log @ l) t"
        using assms(3) present_requests [OF k(1)] unfolding requests_ok_def unpresented(1) k(2) by fastforce
      moreover have "validated t = validated s" unfolding k(2) by (rule validated_known) simp
      ultimately show ?thesis using assms(2) by (simp add: revisions_ok_def k(2))
    qed
  next
    case (decided pid did resp n sd dd rv us r)
    from movesD [OF after_response_decided decided(2)] have "after_response s t" .
    then have "revisions_ok t" "requests_ok log t"
      using assms(2,3) validated_known [of t s] unfolding after_response_def revisions_ok_def requests_ok_def
      by (simp, metis)
    with decided(1) show ?thesis by simp
  next
    case (found i f r)
    from same [OF same_records_ops(1) found(2)] found(1) show ?thesis by simp
  next
    case (resolved fid run dec d evs tpc r)
    from same [OF same_records_ops(1) resolved(2)] resolved(1) show ?thesis by simp
  next
    case (released u w fence r)
    from same [OF same_records_ops(2) released(2)] released(1) show ?thesis by simp
  qed (use same [OF same_records_request] same [OF same_records_finish] same [OF same_records_permit]
      same [OF same_records_reserve] same [OF same_records_ops(3)] in auto)
qed

lemma service_trace_ok:
  assumes "service_trace H s log t" "revisions_ok s" "requests_ok [] s"
  shows "revisions_ok t \<and> requests_ok log t"
  using assms by (induction rule: service_trace.induct) (auto dest: service_call_ok)

lemma new_service_ok: "revisions_ok (new_service known)" "requests_ok [] (new_service known)"
  by (auto simp: new_service_def revisions_ok_def requests_ok_def no_revisions_def new_desk_def load_decision_def)

lemma plan_transition_target: "plan_transition st target rv dr pr = Inr x \<Longrightarrow> x = target"
  by (auto simp: plan_transition_def raise_def split: if_splits)

lemma issue_permit_Ok:
  assumes "svc_issue_permit H subj did snap g s = (Inr permit, t)"
  shows "\<exists>plan d. plan_head (sv_revisions s) (sj_plan_id subj) = Inr (Some plan) \<and> gp_revision plan = sj_revision subj \<and>
    subject_digest H subj = Inr d \<and> make_permit (sv_desk s) did d snap g plan = Inr permit \<and>
    plan_transition (plan_state s (sj_plan_id subj)) ''executable'' False False True = Inr ''executable''"
proof (cases "plan_head (sv_revisions s) (sj_plan_id subj)")
  case (Inl e)
  with assms show ?thesis by (simp add: svc_issue_permit_def obind_run)
next
  case (Inr head)
  show ?thesis
  proof (cases head)
    case None
    with assms Inr show ?thesis by (simp add: svc_issue_permit_def obind_run raise_def)
  next
    case (Some plan)
    note head = Inr Some
    show ?thesis
    proof (cases "gp_revision plan = sj_revision subj")
      case False
      with assms head show ?thesis by (simp add: svc_issue_permit_def obind_run raise_def)
    next
      case True
      show ?thesis
      proof (cases "subject_digest H subj")
        case (Inl e)
        with assms head True show ?thesis by (simp add: svc_issue_permit_def obind_run)
      next
        case (Inr d)
        let ?move = "plan_transition (plan_state s (sj_plan_id subj)) ''executable'' False False True"
        from assms head True Inr have "obind (olift (make_permit (sv_desk s) did d snap g plan)) (\<lambda>p.
            obind (olift ?move) (\<lambda>_. obind (oput (set_state (sj_plan_id subj) ''executable'')) (\<lambda>_. oret p))) s = (Inr permit, t)"
          by (simp add: svc_issue_permit_def obind_run)
        then obtain x where "make_permit (sv_desk s) did d snap g plan = Inr permit" "?move = Inr x"
          by (cases "make_permit (sv_desk s) did d snap g plan"; cases ?move) (auto simp: obind_run)
        with plan_transition_target [OF this(2)] head True Inr show ?thesis by simp
      qed
    qed
  qed
qed

lemma executable_from: "plan_transition st ''executable'' rv dr pr = Inr x \<Longrightarrow> st = ''approved''"
  by (auto simp: plan_transition_Ok_iff allowed_from_def PLAN_TRANSITIONS_def split: if_splits)

lemma permit_units:
  assumes "make_permit k did sd snap g plan = Inr p"
  shows "\<exists>q. load_decision k did = Some q \<and> dq_state q = ''approved'' \<and> dq_purpose q = ''execution_permission'' \<and>
    dq_subject_digest q = sd \<and> ep_subject_digest p = sd \<and>
    set (ep_approved_units p) \<subseteq> (if dq_approved_units q = [] then wu_unit_id ` set (gp_units plan) else set (dq_approved_units q))"
proof -
  from assms obtain q where q: "load_decision k did = Some q" by (cases "load_decision k did") (auto simp: make_permit_def raise_def)
  with assms have "dq_state q = ''approved''" "dq_purpose q = ''execution_permission''" "dq_subject_digest q = sd"
    by (auto simp: make_permit_def raise_def split: if_splits)
  with assms q have "p = \<lparr>ep_permit_id = ''permit-'' @ did, ep_subject_digest = sd, ep_source_snapshot_digest = snap,
      ep_approved_units =
        (if dq_approved_units q \<noteq> []
         then partial_approval_units (dq_approved_units q) (map (\<lambda>(k, u). (k, wu_dependencies u)) (index_by wu_unit_id (gp_units plan)))
         else sort (map wu_unit_id (gp_units plan))), ep_generation = g\<rparr>"
    by (simp add: make_permit_def)
  then have "ep_subject_digest p = sd"
    "set (ep_approved_units p) \<subseteq> (if dq_approved_units q = [] then wu_unit_id ` set (gp_units plan) else set (dq_approved_units q))"
    using partial_approval_closed by auto
  with q \<open>dq_state q = ''approved''\<close> \<open>dq_purpose q = ''execution_permission''\<close> \<open>dq_subject_digest q = sd\<close> show ?thesis by blast
qed


section \<open>A plan on its way through the service\<close>

definition short_hash :: hash_env where
  "short_hash = \<lparr>nfc = (\<lambda>s. s), sha256_hex = (\<lambda>_. ''0'')\<rparr>"

definition one_unit :: GovernedWorkPlan where "one_unit = sample_plan [sample_unit ''u1'' []]"

definition sample_subject :: PlanReviewSubject where
  "sample_subject =
     \<lparr>sj_subject_id = ''subject'', sj_plan_id = ''p'', sj_revision = 1, sj_scope = [], sj_requirements_digest = ''sha256:0'',
      sj_work_plan_digest = ''sha256:0'', sj_source_snapshot_digest = ''sha256:0'', sj_test_plan_digest = ''sha256:0'',
      sj_budget_cap = Some 10, sj_external_effects = [], sj_recovery_ref = None\<rparr>"

definition sample_sd :: string where "sample_sd = ''sha256:0''"

lemma sample_subject_built:
  "build_subject short_hash one_unit [] [] [] ''subject'' = Inr sample_subject"
  by code_simp

lemma sample_subject_digest: "subject_digest short_hash sample_subject = Inr sample_sd"
  by code_simp

definition sv1 :: PlanService where
  "sv1 = (new_service (Some [''pytest'']))\<lparr>sv_revisions := \<lparr>pr_plans = [(''p'', [(1, one_unit)])], pr_head = [(''p'', 1)]\<rparr>,
     sv_states := [(''p'', ''static_validated'')], sv_subjects := [(''p'', sample_subject)]\<rparr>"

definition sv2 :: PlanService where "sv2 = snd (svc_request_review short_hash sample_subject sample_binding sv1)"

definition sv3 :: PlanService where
  "sv3 = sv1\<lparr>sv_board := \<lparr>bd_max_rounds = 3, bd_reviews = [\<lparr>rv_subject_digest = sample_sd, rv_reviewer_run_id = ''rev'',
     rv_verdict = ''approve'', rv_findings = [], rv_rounds = 1\<rparr>], bd_findings = []\<rparr>, sv_states := [(''p'', ''human_review'')]\<rparr>"

definition sv4 :: PlanService where
  "sv4 = snd (svc_present_decision short_hash ''n1'' sample_subject ''plan_approval'' ''dd'' 600 sv3)"

definition sample_request :: "string \<Rightarrow> string \<Rightarrow> DecisionRequest" where
  "sample_request purpose nonce =
     \<lparr>dq_decision_id = purpose @ ''-p-r1'', dq_scope = ''scope'', dq_purpose = purpose, dq_subject_digest = sample_sd,
      dq_display_digest = ''dd'', dq_request_revision = 1, dq_nonce = nonce, dq_expires_at = 600,
      dq_allowed_responses = sort RESPONSES, dq_state = ''approved'', dq_approved_units = []\<rparr>"

definition sv5 :: PlanService where
  "sv5 = sv3\<lparr>sv_desk := \<lparr>dk_now = 0, dk_requests = [(''plan_approval-p-r1'', sample_request ''plan_approval'' ''n1'')]\<rparr>,
     sv_states := [(''p'', ''approved'')]\<rparr>"

definition sv6 :: PlanService where
  "sv6 = snd (svc_present_decision short_hash ''n2'' sample_subject ''execution_permission'' ''dd'' 600 sv5)"

definition sv7 :: PlanService where
  "sv7 = sv5\<lparr>sv_desk := \<lparr>dk_now = 0, dk_requests = [(''plan_approval-p-r1'', sample_request ''plan_approval'' ''n1''),
     (''execution_permission-p-r1'', sample_request ''execution_permission'' ''n2'')]\<rparr>\<rparr>"

lemma sample_steps:
  "snd (submit_plan short_hash one_unit [] [] [] None None None (new_service (Some [''pytest'']))) = sv1"
  "snd (svc_finish_review 0 ''p'' sv2) = sv3"
  "succeeds (fst (svc_present_decision short_hash ''n1'' sample_subject ''plan_approval'' ''dd'' 600 sv3))"
  "snd (svc_record_decision ''p'' ''plan_approval-p-r1'' ''approve'' ''n1'' sample_sd ''dd'' 1 [] sv4) = sv5"
  "succeeds (fst (svc_present_decision short_hash ''n2'' sample_subject ''execution_permission'' ''dd'' 600 sv5))"
  "snd (svc_record_decision ''p'' ''execution_permission-p-r1'' ''approve'' ''n2'' sample_sd ''dd'' 1 [] sv6) = sv7"
  by code_simp+

lemma sample_permitted:
  "case svc_issue_permit short_hash sample_subject ''execution_permission-p-r1'' ''snap'' 1 sv7 of
     (Inr permit, t) \<Rightarrow> ep_approved_units permit = [''u1''] | _ \<Rightarrow> False"
  by code_simp

lemma sample_trace:
  "service_trace short_hash (new_service (Some [''pytest''])) [(sample_sd, sv_board sv3), (sample_sd, sv_board sv5)] sv7"
proof -
  note calls = prod.collapse [symmetric]
  have "service_trace short_hash (new_service (Some [''pytest''])) [] (new_service (Some [''pytest'']))" by (rule start)
  from more [OF this submit [OF calls]] have "service_trace short_hash (new_service (Some [''pytest''])) [] sv1"
    using sample_steps(1) by (metis append_Nil2)
  from more [OF this request [OF calls]] have "service_trace short_hash (new_service (Some [''pytest''])) [] sv2"
    unfolding sv2_def by (metis append_Nil2)
  from more [OF this finish [OF calls]] have at3: "service_trace short_hash (new_service (Some [''pytest''])) [] sv3"
    using sample_steps(2) by (metis append_Nil2)
  obtain q1 where "svc_present_decision short_hash ''n1'' sample_subject ''plan_approval'' ''dd'' 600 sv3 = (Inr q1, sv4)"
    using sample_steps(3) unfolding succeeds_iff sv4_def by (metis prod.collapse)
  from more [OF at3 presented [OF this sample_subject_digest]]
  have "service_trace short_hash (new_service (Some [''pytest''])) [(sample_sd, sv_board sv3)] sv4" by simp
  from more [OF this decided [OF calls]] have at5: "service_trace short_hash (new_service (Some [''pytest''])) [(sample_sd, sv_board sv3)] sv5"
    using sample_steps(4) by (metis append_Nil2)
  obtain q2 where "svc_present_decision short_hash ''n2'' sample_subject ''execution_permission'' ''dd'' 600 sv5 = (Inr q2, sv6)"
    using sample_steps(5) unfolding succeeds_iff sv6_def by (metis prod.collapse)
  from more [OF at5 presented [OF this sample_subject_digest]]
  have "service_trace short_hash (new_service (Some [''pytest''])) [(sample_sd, sv_board sv3), (sample_sd, sv_board sv5)] sv6" by simp
  from more [OF this decided [OF calls]] show ?thesis
    using sample_steps(6) by (metis append_Nil2)
qed


section \<open>Where the service is weaker than its parts\<close>

text \<open>
  Repeating a settled decision moves another plan: \<open>record_decision\<close> ignores that the desk granted nothing, the
  nonce and the digests of the response, and which plan the decision was about. A plan under human review is
  approved by the replay of any old approval.
\<close>

lemma replayed_decision_approves:
  assumes "load_decision (sv_desk s) did = Some q" "dq_state q = ''approved''" "dq_purpose q = ''plan_approval''"
    "plan_state s pid = ''human_review''"
  shows "\<exists>out. svc_record_decision pid did resp n sd dd rv us s = (Inr out, set_state pid ''approved'' s) \<and> \<not> do_granted out"
proof -
  let ?out = "\<lparr>do_granted = False, do_state = ''approved'', do_decision_id = did, do_purpose = ''plan_approval'',
    do_reason = ''already settled; replay has no effect''\<rparr>"
  have "on_desk (record_response did resp n sd dd rv us) s = (Inr ?out, s)"
    using assms(1-3) by (simp add: on_desk_def record_response_def load_decision_def)
  then have "svc_record_decision pid did resp n sd dd rv us s = (Inr ?out, set_state pid ''approved'' s)"
    using assms(4) by (simp add: svc_record_decision_def obind_def [of "on_desk _"] obind_run decision_moves_def
        plan_transition_def allowed_from_def PLAN_TRANSITIONS_def)
  then show ?thesis by auto
qed

text \<open>
  Submitting a plan sets its state whatever it was: a later submission that fails the checks leaves the
  committed head in place but marks the plan rejected, and the next one revives it from that final state.
\<close>

lemma submission_overrides_state:
  "let s = snd (submit_plan short_hash (one_unit\<lparr>gp_revision := 2, gp_units := []\<rparr>) [] [] [] None None None sv7) in
   plan_state s ''p'' = ''rejected'' \<and> sv_revisions s = sv_revisions sv7 \<and>
   plan_state (snd (submit_plan short_hash (one_unit\<lparr>gp_revision := 2\<rparr>) [] [] [] None None None s)) ''p'' = ''static_validated''"
  by code_simp

text \<open>The units dispatched are those of the plan the caller hands in, not of the committed head.\<close>

lemma uncommitted_units_dispatched:
  "case svc_issue_permit short_hash sample_subject ''execution_permission-p-r1'' ''snap'' 1 sv7 of
     (Inl e, s) \<Rightarrow> False
   | (Inr permit, s) \<Rightarrow>
       case svc_reserve_ready_work short_hash (sample_plan [(sample_unit ''u1'' [])\<lparr>wu_write_paths := [''.git/hooks'']\<rparr>])
         (Some permit) ''w'' None None ''snap'' s of
         (Inl e, t) \<Rightarrow> False
       | (Inr r, t) \<Rightarrow> r = (''u1'', 1) \<and> map (wl_write_paths \<circ> snd) (dp_leases (sv_dispatcher t)) = [[''.git/hooks'']]"
  by code_simp

end
